(* ===== verification/Nirn_Prelude.thy ===== *)
theory Nirn_Prelude
  imports Main "HOL-Library.Word" "HOL-Library.AList"
begin

section \<open>Prelude: time, durations, Go maps\<close>

text \<open>
  What every component theory shares: the types and constants of Go's package \<^verbatim>\<open>time\<close> the
  program uses, Go maps as association lists, and the generic lemmas on them.

  \<^item> \<^verbatim>\<open>time.Time\<close> is an \<open>int\<close>, nanoseconds since the Unix epoch. Adding a duration to a
    \<^verbatim>\<open>Time\<close> does not overflow in Go (seconds and nanoseconds are kept apart), so it is \<open>+\<close>.
    \<^verbatim>\<open>t.Sub(u)\<close> saturates at the range of an \<^verbatim>\<open>int64\<close>: \<open>time_Sub\<close>.
  \<^item> \<^verbatim>\<open>time.Duration\<close> is an \<open>int\<close>, nanoseconds. The durations the program adds up are all
    bounded by a few days, far inside the range of an \<^verbatim>\<open>int64\<close>.
  \<^item> A Go map is an association list with distinct keys. Its order is the order in which a
    \<^verbatim>\<open>range\<close> loop happens to visit it, which Go leaves open, so a statement about an
    arbitrary list holds for every iteration order.
\<close>

type_synonym duration = int
type_synonym time = int
type_synonym u64 = "64 word"
type_synonym i64 = "64 word"
type_synonym ('k, 'v) gomap = "('k \<times> 'v) list"

named_theorems time_defs \<open>constants of package time\<close>

definition Millisecond :: duration where [time_defs]: "Millisecond = 1000000"
definition Second :: duration where [time_defs]: "Second = 1000000000"
definition Minute :: duration where [time_defs]: "Minute = 60 * Second"
definition Hour :: duration where [time_defs]: "Hour = 60 * Minute"

definition minDuration :: duration where "minDuration = - (2 ^ 63)"
definition maxDuration :: duration where "maxDuration = 2 ^ 63 - 1"

definition time_zero :: time where
  \<comment> \<open>the zero \<^verbatim>\<open>time.Time\<close>: 1 January of the year 1, UTC\<close>
  "time_zero = - 62135596800000000000"

definition time_Sub :: "time \<Rightarrow> time \<Rightarrow> duration" where
  "time_Sub t u =
     (if t - u < minDuration then minDuration
      else if maxDuration < t - u then maxDuration else t - u)"

lemma time_Sub_pos_iff [simp]: "0 < time_Sub t u \<longleftrightarrow> u < t"
  by (auto simp: time_Sub_def minDuration_def maxDuration_def)

lemma time_Sub_le_0_iff [simp]: "time_Sub t u \<le> 0 \<longleftrightarrow> t \<le> u"
  by (auto simp: time_Sub_def minDuration_def maxDuration_def)

lemma time_Sub_eq_0_iff [simp]: "time_Sub t u = 0 \<longleftrightarrow> t = u"
  by (auto simp: time_Sub_def minDuration_def maxDuration_def)

subsection \<open>Traces and monitors\<close>

text \<open>
  The programs of single goroutines are modelled as functions to the list of what they do. A monitor is an automaton that reads
  such a list: \<open>step e m\<close> is the next state, or \<open>None\<close> where \<open>e\<close> is a mistake in state \<open>m\<close>.
\<close>

fun trace_run :: "('e \<Rightarrow> 'm \<Rightarrow> 'm option) \<Rightarrow> 'e list \<Rightarrow> 'm \<Rightarrow> 'm option" where
  "trace_run step [] m = Some m"
| "trace_run step (e # es) m = (case step e m of None \<Rightarrow> None | Some m' \<Rightarrow> trace_run step es m')"

lemma trace_run_append:
  "trace_run step (xs @ ys) m = (case trace_run step xs m of None \<Rightarrow> None | Some m' \<Rightarrow> trace_run step ys m')"
  by (induction xs arbitrary: m) (auto split: option.split)

lemma trace_run_appendI:
  "trace_run step xs m = Some m' \<Longrightarrow> trace_run step ys m' = r \<Longrightarrow> trace_run step (xs @ ys) m = r"
  by (simp add: trace_run_append)

subsection \<open>Go maps\<close>

abbreviation keys_distinct :: "('k, 'v) gomap \<Rightarrow> bool" where
  "keys_distinct m \<equiv> distinct (map fst m)"

text \<open>The number of entries after a store and after a \<^verbatim>\<open>delete\<close>.\<close>

lemma length_update:
  "length (AList.update k v m) = length m + (if map_of m k = None then 1 else 0)"
  by (induction m) auto

lemma delete_not_in: "map_of m k = None \<Longrightarrow> AList.delete k m = m"
  by (auto simp: AList.delete_eq map_of_eq_None_iff intro!: filter_True) force

lemma length_delete:
  "keys_distinct m \<Longrightarrow>
     length (AList.delete k m) = length m - (if map_of m k = None then 0 else 1)"
proof (induction m)
  case Nil
  then show ?case by simp
next
  case (Cons e m)
  show ?case
  proof (cases "fst e = k")
    case True
    with Cons.prems have "map_of m k = None" by (auto simp: map_of_eq_None_iff)
    with True show ?thesis by (cases e) (simp add: delete_not_in)
  next
    case False
    with Cons show ?thesis
      by (cases e) (auto simp: Suc_diff_le dest!: map_of_SomeD length_pos_if_in_set)
  qed
qed

lemma length_delete_present:
  assumes "keys_distinct m" "map_of m k \<noteq> None"
  shows "int (length (AList.delete k m)) = int (length m) - 1"
proof -
  have "0 < length m" using assms(2) by (cases m) auto
  hence "int (length m - 1) = int (length m) - 1" by linarith
  thus ?thesis using assms by (simp only: length_delete if_False)
qed

lemma keys_distinct_update [simp]: "keys_distinct m \<Longrightarrow> keys_distinct (AList.update k v m)"
  by (rule distinct_update)

lemma keys_distinct_delete [simp]: "keys_distinct m \<Longrightarrow> keys_distinct (AList.delete k m)"
  by (rule distinct_delete)

lemma keys_distinct_filter [simp]: "keys_distinct m \<Longrightarrow> keys_distinct (filter P m)"
  by (induction m) auto

lemma gomap_delete [simp]: "map_of (AList.delete k m) k' = (if k' = k then None else map_of m k')"
  by (simp add: delete_conv')

lemma gomap_update [simp]: "map_of (AList.update k v m) k' = (if k' = k then Some v else map_of m k')"
  by (simp add: update_conv')


subsection \<open>Contexts and timers\<close>

text \<open>
  \<^verbatim>\<open>ctx.Err()\<close> is an option of the two errors of package \<^verbatim>\<open>context\<close>. A wait that sleeps on a
  timer, on a wake-up channel and on its context ends with one of three events, chosen by
  the environment.
\<close>

datatype ctx_err = Canceled | DeadlineExceeded

datatype wake_event = TimerFired | WakeClosed | CtxDone ctx_err

text \<open>
  The test both waits make before they sleep: a known cooldown that would not leave
  \<open>rsv\<close> before the deadline (\<open>now\<close> is the reading \<^verbatim>\<open>time.Until(deadline)\<close> makes).
\<close>

definition misses_deadline :: "time option \<Rightarrow> duration \<Rightarrow> duration \<Rightarrow> time \<Rightarrow> bool" where
  "misses_deadline deadline delay rsv now =
     (case deadline of None \<Rightarrow> False | Some d \<Rightarrow> time_Sub d now \<le> delay + rsv)"

end
