(* ===== verification/Gate.thy ===== *)
theory Gate
  imports Nirn_Prelude
begin

section \<open>The FIFO gate\<close>

text \<open>
  \<^verbatim>\<open>fifoGate\<close> of \<^verbatim>\<open>internal/proxy/scheduler.go\<close>, a cancellation-safe, bounded FIFO semaphore
  of capacity one, behind every bucket, every global pacer and the credential validation.

  The sections the code runs under \<^verbatim>\<open>g.mu\<close> are functions on the record \<open>fifoGate\<close>:
  \<open>acquire_enter\<close>, \<open>acquire_cancel\<close> and \<open>gate_release\<close>. A \<^verbatim>\<open>*gateWaiter\<close> is a number, one
  for every call of \<^verbatim>\<open>acquire\<close>; its \<^verbatim>\<open>element\<close> is non-nil exactly while the number is in
  \<open>waiters\<close>. The step relation \<open>gate_step\<close> interleaves those sections, the two-way
  \<^verbatim>\<open>select\<close> and the context checks of any number of callers, and lets the environment
  cancel any context at any time. The histories \<open>arrivals\<close>, \<open>grants\<close> and \<open>abandoned\<close> are
  for the statements only: no step reads them.
\<close>

subsection \<open>State and critical sections\<close>

record fifoGate =
  held :: bool
  maxWaiters :: int
  waiters :: "nat list"

definition newFIFOGate :: "int \<Rightarrow> fifoGate" where
  "newFIFOGate n = \<lparr>held = False, maxWaiters = n, waiters = []\<rparr>"

datatype gate_error = ErrQueueFull | ErrCtx ctx_err

datatype enter_result = Entered | QueueFull | Queued

definition acquire_enter :: "fifoGate \<Rightarrow> nat \<Rightarrow> fifoGate \<times> enter_result" where
  "acquire_enter g w =
     (if \<not> held g then (g\<lparr>held := True\<rparr>, Entered)
      else if maxWaiters g \<le> int (length (waiters g)) then (g, QueueFull)
      else (g\<lparr>waiters := waiters g @ [w]\<rparr>, Queued))"

definition acquire_cancel :: "fifoGate \<Rightarrow> nat \<Rightarrow> fifoGate \<times> bool" where
  "acquire_cancel g w =
     (if w \<in> set (waiters g) then (g\<lparr>waiters := remove1 w (waiters g)\<rparr>, True) else (g, False))"

definition gate_release :: "fifoGate \<Rightarrow> fifoGate \<times> nat option" where
  "gate_release g =
     (case waiters g of
        [] \<Rightarrow> (g\<lparr>held := False\<rparr>, None)
      | w # ws \<Rightarrow> (g\<lparr>waiters := ws\<rparr>, Some w))"


subsection \<open>The callers\<close>

text \<open>
  Where one call of \<^verbatim>\<open>acquire\<close> (and the holder's later \<^verbatim>\<open>release\<close>) stands:
  \<^item> \<open>Checking\<close>: the gate is this caller's, \<^verbatim>\<open>ctx.Err()\<close> is about to be read, after the free
    gate was taken or after \<^verbatim>\<open>waiter.ready\<close> was received;
  \<^item> \<open>Selecting\<close>: blocked in the \<^verbatim>\<open>select\<close>;
  \<^item> \<open>Cancelling e\<close>: \<^verbatim>\<open>ctx.Done()\<close> was chosen, the lock is about to be taken;
  \<^item> \<open>Undoing e\<close>: \<^verbatim>\<open>g.release()\<close> is about to be called, then \<open>e\<close> is returned;
  \<^item> \<open>Holding\<close>: \<^verbatim>\<open>acquire\<close> returned nil; \<open>Done None\<close>: released since;
  \<^item> \<open>Done (Some e)\<close>: \<^verbatim>\<open>acquire\<close> returned \<open>e\<close>.
\<close>

datatype gate_pc =
    Idle | Checking | Selecting | Cancelling ctx_err | Undoing ctx_err | Holding
  | Done "gate_error option"

record gate_sys =
  gate :: fifoGate
  pcs :: "nat \<Rightarrow> gate_pc"
  ready :: "nat \<Rightarrow> bool"
  ctxs :: "nat \<Rightarrow> ctx_err option"
  arrivals :: "nat list"
  grants :: "nat list"
  abandoned :: "nat list"

definition gate_init :: "int \<Rightarrow> gate_sys" where
  "gate_init n =
     \<lparr>gate = newFIFOGate n, pcs = (\<lambda>_. Idle), ready = (\<lambda>_. False), ctxs = (\<lambda>_. None),
      arrivals = [], grants = [], abandoned = []\<rparr>"

abbreviation set_pc :: "gate_sys \<Rightarrow> nat \<Rightarrow> gate_pc \<Rightarrow> gate_sys" where
  "set_pc s w p \<equiv> s\<lparr>pcs := (pcs s)(w := p)\<rparr>"

definition hand_over :: "gate_sys \<Rightarrow> gate_sys" where
  "hand_over s =
     (case gate_release (gate s) of
        (g, None) \<Rightarrow> s\<lparr>gate := g\<rparr>
      | (g, Some w) \<Rightarrow> s\<lparr>gate := g, ready := (ready s)(w := True), grants := grants s @ [w]\<rparr>)"

inductive gate_step :: "gate_sys \<Rightarrow> gate_sys \<Rightarrow> bool" where
  enter_free: "pcs s w = Idle \<Longrightarrow> acquire_enter (gate s) w = (g, Entered) \<Longrightarrow>
     gate_step s (set_pc (s\<lparr>gate := g\<rparr>) w Checking)"
| enter_full: "pcs s w = Idle \<Longrightarrow> acquire_enter (gate s) w = (g, QueueFull) \<Longrightarrow>
     gate_step s (set_pc (s\<lparr>gate := g\<rparr>) w (Done (Some ErrQueueFull)))"
| enter_queue: "pcs s w = Idle \<Longrightarrow> acquire_enter (gate s) w = (g, Queued) \<Longrightarrow>
     gate_step s (set_pc (s\<lparr>gate := g, arrivals := arrivals s @ [w]\<rparr>) w Selecting)"
| check_ok: "pcs s w = Checking \<Longrightarrow> ctxs s w = None \<Longrightarrow>
     gate_step s (set_pc s w Holding)"
| check_err: "pcs s w = Checking \<Longrightarrow> ctxs s w = Some e \<Longrightarrow>
     gate_step s (set_pc s w (Undoing e))"
| select_ready: "pcs s w = Selecting \<Longrightarrow> ready s w \<Longrightarrow>
     gate_step s (set_pc s w Checking)"
| select_done: "pcs s w = Selecting \<Longrightarrow> ctxs s w = Some e \<Longrightarrow>
     gate_step s (set_pc s w (Cancelling e))"
| cancel_queued: "pcs s w = Cancelling e \<Longrightarrow> acquire_cancel (gate s) w = (g, True) \<Longrightarrow>
     gate_step s (set_pc (s\<lparr>gate := g, abandoned := abandoned s @ [w]\<rparr>) w (Done (Some (ErrCtx e))))"
| cancel_granted: "pcs s w = Cancelling e \<Longrightarrow> acquire_cancel (gate s) w = (g, False) \<Longrightarrow>
     gate_step s (set_pc (s\<lparr>gate := g\<rparr>) w (Undoing e))"
| undo: "pcs s w = Undoing e \<Longrightarrow>
     gate_step s (set_pc (hand_over s) w (Done (Some (ErrCtx e))))"
| release: "pcs s w = Holding \<Longrightarrow>
     gate_step s (set_pc (hand_over s) w (Done None))"
| env_cancel: "ctxs s w = None \<Longrightarrow>
     gate_step s (s\<lparr>ctxs := (ctxs s)(w := Some e)\<rparr>)"

inductive gate_reachable :: "int \<Rightarrow> gate_sys \<Rightarrow> bool" for n where
  start: "gate_reachable n (gate_init n)"
| step: "gate_reachable n s \<Longrightarrow> gate_step s t \<Longrightarrow> gate_reachable n t"

text \<open>
  A caller owns the gate from the moment it takes the free gate or is handed it, until its
  \<open>gate_release\<close>: also while it has not noticed yet that \<^verbatim>\<open>ready\<close> was closed.
\<close>

fun pc_owns :: "gate_pc \<Rightarrow> bool \<Rightarrow> bool" where
  "pc_owns Checking r = True"
| "pc_owns Holding r = True"
| "pc_owns (Undoing e) r = True"
| "pc_owns Selecting r = r"
| "pc_owns (Cancelling e) r = r"
| "pc_owns Idle r = False"
| "pc_owns (Done x) r = False"

fun pc_queued :: "gate_pc \<Rightarrow> bool \<Rightarrow> bool" where
  "pc_queued Selecting r = (\<not> r)"
| "pc_queued (Cancelling e) r = (\<not> r)"
| "pc_queued p r = False"

definition owns :: "gate_sys \<Rightarrow> nat \<Rightarrow> bool" where
  "owns s w = pc_owns (pcs s w) (ready s w)"

definition queued :: "gate_sys \<Rightarrow> nat \<Rightarrow> bool" where
  "queued s w = pc_queued (pcs s w) (ready s w)"


subsection \<open>The invariant\<close>

definition gate_ok :: "fifoGate \<Rightarrow> (nat \<Rightarrow> bool) \<Rightarrow> (nat \<Rightarrow> bool) \<Rightarrow> bool" where
  \<comment> \<open>how the gate agrees with the set of owners \<open>P\<close> and the set of queued callers \<open>Q\<close>\<close>
  "gate_ok g P Q \<longleftrightarrow>
     distinct (waiters g) \<and> (\<forall>w. w \<in> set (waiters g) \<longleftrightarrow> Q w) \<and>
     (held g \<longleftrightarrow> (\<exists>w. P w)) \<and> (\<forall>v w. P v \<longrightarrow> P w \<longrightarrow> v = w) \<and>
     (\<not> held g \<longrightarrow> waiters g = [])"

definition gate_inv :: "gate_sys \<Rightarrow> bool" where
  "gate_inv s \<longleftrightarrow> gate_ok (gate s) (owns s) (queued s) \<and> (\<forall>w. pcs s w = Idle \<longrightarrow> \<not> ready s w)"

definition gate_hist_inv :: "gate_sys \<Rightarrow> bool" where
  "gate_hist_inv s \<longleftrightarrow>
     distinct (arrivals s) \<and> (\<forall>w. pcs s w = Idle \<longrightarrow> w \<notin> set (arrivals s)) \<and>
     set (abandoned s) \<subseteq> set (arrivals s) \<and>
     grants s @ waiters (gate s) = filter (\<lambda>w. w \<notin> set (abandoned s)) (arrivals s)"

lemma gate_invI:
  assumes "gate_ok g P Q" and "gate t = g" and "\<And>u. owns t u \<longleftrightarrow> P u" and "\<And>u. queued t u \<longleftrightarrow> Q u"
    and "\<And>u. pcs t u = Idle \<Longrightarrow> \<not> ready t u"
  shows "gate_inv t"
proof -
  have "owns t = P" and "queued t = Q" using assms(3,4) by auto
  with assms(1,2,5) show ?thesis by (simp add: gate_inv_def)
qed

lemma gate_invD:
  assumes "gate_inv s"
  shows "gate_ok (gate s) (owns s) (queued s)"
    and "pcs s u = Idle \<Longrightarrow> \<not> ready s u"
    and "w \<in> set (waiters (gate s)) \<longleftrightarrow> queued s w"
  using assms by (auto simp: gate_inv_def gate_ok_def)

lemma owner_unique: "gate_inv s \<Longrightarrow> owns s v \<Longrightarrow> owns s w \<Longrightarrow> v = w"
  by (auto simp: gate_inv_def gate_ok_def)

lemma held_iff_owner: "gate_inv s \<Longrightarrow> held (gate s) \<longleftrightarrow> (\<exists>w. owns s w)"
  by (auto simp: gate_inv_def gate_ok_def)

lemma queue_held: "gate_inv s \<Longrightarrow> w \<in> set (waiters (gate s)) \<Longrightarrow> held (gate s)"
  by (cases "held (gate s)") (simp_all add: gate_inv_def gate_ok_def)

lemma gate_inv_init: "gate_inv (gate_init n)"
  by (simp add: gate_inv_def gate_ok_def gate_init_def newFIFOGate_def owns_def queued_def)

lemma owns_queued_upd [simp]:
  "owns (s\<lparr>pcs := f\<rparr>) u = pc_owns (f u) (ready s u)"
  "queued (s\<lparr>pcs := f\<rparr>) u = pc_queued (f u) (ready s u)"
  "owns (s\<lparr>ctxs := c\<rparr>) = owns s" "queued (s\<lparr>ctxs := c\<rparr>) = queued s"
  by (auto simp: owns_def queued_def)

lemmas owns_queued_defs = owns_def queued_def

text \<open>
  The one step in which ownership changes hands: the owner \<open>w\<close> releases. Either nobody
  waits and the gate is free, or the head of the queue is the new owner.
\<close>

lemma hand_over_empty:
  "waiters (gate s) = [] \<Longrightarrow> hand_over s = s\<lparr>gate := (gate s)\<lparr>held := False\<rparr>\<rparr>"
  by (simp add: hand_over_def gate_release_def)

lemma hand_over_Cons:
  "waiters (gate s) = v # vs \<Longrightarrow>
     hand_over s = s\<lparr>gate := (gate s)\<lparr>waiters := vs\<rparr>, ready := (ready s)(v := True),
                    grants := grants s @ [v]\<rparr>"
  by (simp add: hand_over_def gate_release_def)

lemma hand_over_inv:
  assumes inv: "gate_inv s" and own: "owns s w" and not_q: "\<not> queued s w"
  shows "gate_inv (set_pc (hand_over s) w (Done r))"
proof (cases "waiters (gate s)")
  case Nil
  show ?thesis
  proof (rule gate_invI [where g = "(gate s)\<lparr>held := False\<rparr>" and P = "\<lambda>_. False" and Q = "\<lambda>_. False"])
    fix u
    show "owns (set_pc (hand_over s) w (Done r)) u \<longleftrightarrow> False"
      using gate_invD(1) [OF inv] own Nil by (auto simp: hand_over_empty gate_ok_def owns_def)
    show "queued (set_pc (hand_over s) w (Done r)) u \<longleftrightarrow> False"
      using gate_invD(1) [OF inv] Nil by (auto simp: hand_over_empty gate_ok_def queued_def)
  qed (use gate_invD(2) [OF inv] Nil in \<open>auto simp: hand_over_empty gate_ok_def split: if_splits\<close>)
next
  case (Cons v vs)
  have qv: "queued s v" and vs: "v \<notin> set vs" "distinct vs" and h: "held (gate s)"
    and only: "\<And>u. owns s u \<longleftrightarrow> u = w" and q: "\<And>u. queued s u \<longleftrightarrow> u = v \<or> u \<in> set vs"
    using gate_invD(1) [OF inv] own Cons by (auto simp: gate_ok_def)
  have "v \<noteq> w" using qv not_q by auto
  show ?thesis
  proof (rule gate_invI [where g = "(gate s)\<lparr>waiters := vs\<rparr>" and P = "\<lambda>u. u = v" and Q = "\<lambda>u. u \<in> set vs"])
    fix u
    show "owns (set_pc (hand_over s) w (Done r)) u \<longleftrightarrow> u = v"
      using only [of u] qv Cons \<open>v \<noteq> w\<close>
      by (cases "pcs s v") (auto simp: hand_over_Cons owns_def queued_def)
    show "queued (set_pc (hand_over s) w (Done r)) u \<longleftrightarrow> u \<in> set vs"
      using q [of u] q [of w] not_q vs Cons
      by (cases "pcs s u") (auto simp: hand_over_Cons queued_def)
    show "\<not> ready (set_pc (hand_over s) w (Done r)) u"
      if "pcs (set_pc (hand_over s) w (Done r)) u = Idle"
      using that gate_invD(2) [OF inv, of u] qv Cons
      by (auto simp: hand_over_Cons queued_def split: if_splits)
  qed (use Cons h vs in \<open>auto simp: hand_over_Cons gate_ok_def\<close>)
qed

text \<open>
  Every other step of a caller is an instance of one of four: it keeps the caller's claim
  on the gate, it takes the free gate, it joins the queue, or it leaves it.
\<close>

lemma move_keeps_inv:
  assumes "gate_inv s" and "pc_owns p (ready s w) = owns s w"
    and "pc_queued p (ready s w) = queued s w" and "p \<noteq> Idle"
  shows "gate_inv (set_pc s w p)"
  by (rule gate_invI [OF gate_invD(1) [OF assms(1)]])
    (use assms(2-4) gate_invD(2) [OF assms(1)] in \<open>auto simp: owns_queued_defs split: if_splits\<close>)

lemma take_free_inv:
  assumes inv: "gate_inv s" and free: "\<not> held (gate s)" and "pcs s w = Idle"
  shows "gate_inv (set_pc (s\<lparr>gate := (gate s)\<lparr>held := True\<rparr>\<rparr>) w Checking)"
proof (rule gate_invI [where g = "(gate s)\<lparr>held := True\<rparr>" and P = "\<lambda>u. u = w" and Q = "\<lambda>_. False"])
  fix u
  show "owns (set_pc (s\<lparr>gate := (gate s)\<lparr>held := True\<rparr>\<rparr>) w Checking) u \<longleftrightarrow> u = w"
    and "queued (set_pc (s\<lparr>gate := (gate s)\<lparr>held := True\<rparr>\<rparr>) w Checking) u \<longleftrightarrow> False"
    using gate_invD(1) [OF inv] free by (auto simp: gate_ok_def owns_queued_defs)
qed (use gate_invD [OF inv] free in \<open>auto simp: gate_ok_def split: if_splits\<close>)

lemma join_inv:
  assumes inv: "gate_inv s" and h: "held (gate s)" and idle: "pcs s w = Idle"
  shows "gate_inv (set_pc (s\<lparr>gate := (gate s)\<lparr>waiters := waiters (gate s) @ [w]\<rparr>, arrivals := xs\<rparr>) w Selecting)"
    (is "gate_inv ?t")
proof (rule gate_invI [where g = "(gate s)\<lparr>waiters := waiters (gate s) @ [w]\<rparr>" and P = "owns s"
      and Q = "\<lambda>u. queued s u \<or> u = w"])
  have nr: "\<not> ready s w" and "\<not> queued s w" and no: "\<not> owns s w"
    using gate_invD(2) [OF inv idle] idle by (simp_all add: queued_def owns_def)
  then show "gate_ok ((gate s)\<lparr>waiters := waiters (gate s) @ [w]\<rparr>) (owns s) (\<lambda>u. queued s u \<or> u = w)"
    using gate_invD(1) [OF inv] h by (auto simp: gate_ok_def)
  fix u
  show "owns ?t u \<longleftrightarrow> owns s u" and "queued ?t u \<longleftrightarrow> queued s u \<or> u = w"
    using nr no by (auto simp: owns_queued_defs)
qed (use gate_invD(2) [OF inv] in \<open>auto split: if_splits\<close>)

lemma leave_inv:
  assumes inv: "gate_inv s" and mem: "w \<in> set (waiters (gate s))"
  shows "gate_inv (set_pc (s\<lparr>gate := (gate s)\<lparr>waiters := remove1 w (waiters (gate s))\<rparr>, abandoned := xs\<rparr>) w (Done r))"
    (is "gate_inv ?t")
proof (rule gate_invI [where g = "(gate s)\<lparr>waiters := remove1 w (waiters (gate s))\<rparr>" and P = "owns s"
      and Q = "\<lambda>u. queued s u \<and> u \<noteq> w"])
  have "queued s w" using gate_invD(3) [OF inv] mem by simp
  then have no: "\<not> owns s w" by (cases "pcs s w") (auto simp: owns_def queued_def)
  show "gate_ok ((gate s)\<lparr>waiters := remove1 w (waiters (gate s))\<rparr>) (owns s) (\<lambda>u. queued s u \<and> u \<noteq> w)"
    using gate_invD(1) [OF inv] by (auto simp: gate_ok_def)
  fix u
  show "owns ?t u \<longleftrightarrow> owns s u" and "queued ?t u \<longleftrightarrow> queued s u \<and> u \<noteq> w"
    using no by (auto simp: owns_queued_defs)
qed (use gate_invD(2) [OF inv] in \<open>auto split: if_splits\<close>)

lemma gate_step_inv: "gate_step s t \<Longrightarrow> gate_inv s \<Longrightarrow> gate_inv t"
proof (induction rule: gate_step.induct)
  case (enter_free s w g)
  then show ?case
    using take_free_inv [of s w] by (auto simp: acquire_enter_def split: if_splits)
next
  case (enter_full s w g)
  then have "g = gate s" by (auto simp: acquire_enter_def split: if_splits)
  with enter_full show ?case
    using move_keeps_inv [of s _ w] by (simp add: owns_queued_defs)
next
  case (enter_queue s w g)
  then show ?case
    using join_inv [of s w] by (auto simp: acquire_enter_def split: if_splits)
next
  case (check_ok s w)
  then show ?case by (intro move_keeps_inv) (simp_all add: owns_queued_defs)
next
  case (check_err s w e)
  then show ?case by (intro move_keeps_inv) (simp_all add: owns_queued_defs)
next
  case (select_ready s w)
  then show ?case by (intro move_keeps_inv) (simp_all add: owns_queued_defs)
next
  case (select_done s w e)
  then show ?case by (intro move_keeps_inv) (simp_all add: owns_queued_defs)
next
  case (cancel_queued s w e g)
  then show ?case
    using leave_inv [of s w] by (auto simp: acquire_cancel_def split: if_splits)
next
  case (cancel_granted s w e g)
  then have g: "g = gate s" and "\<not> queued s w"
    using gate_invD(3) [of s w] by (auto simp: acquire_cancel_def split: if_splits)
  with cancel_granted have "ready s w" by (simp add: queued_def)
  with cancel_granted g show ?case
    using move_keeps_inv [of s "Undoing e" w] by (simp add: owns_queued_defs)
next
  case (undo s w e)
  then show ?case by (intro hand_over_inv) (simp_all add: owns_queued_defs)
next
  case (release s w)
  then show ?case by (intro hand_over_inv) (simp_all add: owns_queued_defs)
next
  case (env_cancel s w e)
  then show ?case by (simp add: gate_inv_def)
qed

lemma gate_reachable_inv: "gate_reachable n s \<Longrightarrow> gate_inv s"
  by (induction rule: gate_reachable.induct) (auto intro: gate_inv_init gate_step_inv)


subsection \<open>Arrival order and queue bound\<close>

lemma hand_over_frame [simp]:
  "arrivals (hand_over s) = arrivals s" "abandoned (hand_over s) = abandoned s"
  "pcs (hand_over s) = pcs s" "ctxs (hand_over s) = ctxs s"
  "maxWaiters (gate (hand_over s)) = maxWaiters (gate s)"
  "grants (hand_over s) @ waiters (gate (hand_over s)) = grants s @ waiters (gate s)"
  by (cases "waiters (gate s)"; simp add: hand_over_empty hand_over_Cons)+

lemma hand_over_length: "length (waiters (gate (hand_over s))) \<le> length (waiters (gate s))"
  by (cases "waiters (gate s)") (simp_all add: hand_over_empty hand_over_Cons)

lemma filter_remove1_suffix:
  assumes "xs @ ys = filter P zs" and "w \<in> set ys" and "distinct zs"
  shows "xs @ remove1 w ys = filter (\<lambda>u. P u \<and> u \<noteq> w) zs"
proof -
  have "distinct (xs @ ys)" using assms(1,3) by simp
  with assms(2) have "w \<notin> set xs" "distinct ys" by auto
  then have "filter (\<lambda>u. u \<noteq> w) xs = xs" and "filter (\<lambda>u. u \<noteq> w) ys = remove1 w ys"
    by (auto simp: filter_id_conv distinct_remove1_removeAll removeAll_filter_not_eq
        intro!: filter_cong)
  then have "xs @ remove1 w ys = filter (\<lambda>u. u \<noteq> w) (xs @ ys)" by simp
  also have "\<dots> = filter (\<lambda>u. P u \<and> u \<noteq> w) zs"
    unfolding assms(1) filter_filter by (rule filter_cong) auto
  finally show ?thesis .
qed

lemma gate_step_hist: "gate_step s t \<Longrightarrow> gate_inv s \<Longrightarrow> gate_hist_inv s \<Longrightarrow> gate_hist_inv t"
proof (induction rule: gate_step.induct)
  case (enter_queue s w g)
  then have g: "g = (gate s)\<lparr>waiters := waiters (gate s) @ [w]\<rparr>"
    by (auto simp: acquire_enter_def split: if_splits)
  from enter_queue have "w \<notin> set (arrivals s)" "w \<notin> set (abandoned s)"
    by (auto simp: gate_hist_inv_def)
  with enter_queue g show ?case by (auto simp: gate_hist_inv_def)
next
  case (cancel_queued s w e g)
  then have g: "g = (gate s)\<lparr>waiters := remove1 w (waiters (gate s))\<rparr>"
    and w: "w \<in> set (waiters (gate s))"
    by (auto simp: acquire_cancel_def split: if_splits)
  let ?P = "\<lambda>u. u \<notin> set (abandoned s)"
  have eq: "grants s @ waiters (gate s) = filter ?P (arrivals s)" and d: "distinct (arrivals s)"
    using cancel_queued.prems by (auto simp: gate_hist_inv_def)
  have "w \<in> set (filter ?P (arrivals s))" unfolding eq [symmetric] using w by simp
  then have "w \<in> set (arrivals s)" by simp
  moreover have "grants s @ remove1 w (waiters (gate s)) = filter (\<lambda>u. ?P u \<and> u \<noteq> w) (arrivals s)"
    using filter_remove1_suffix [OF eq w d] .
  ultimately show ?case
    using cancel_queued.prems g by (auto simp: gate_hist_inv_def conj_commute)
qed (auto simp: gate_hist_inv_def acquire_enter_def acquire_cancel_def split: if_splits)

lemma gate_reachable_hist: "gate_reachable n s \<Longrightarrow> gate_hist_inv s"
proof (induction rule: gate_reachable.induct)
  case start
  show ?case by (simp add: gate_hist_inv_def gate_init_def newFIFOGate_def)
next
  case (step s t)
  then show ?case using gate_step_hist gate_reachable_inv by blast
qed

lemma gate_reachable_bound:
  "gate_reachable n s \<Longrightarrow> maxWaiters (gate s) = n \<and> int (length (waiters (gate s))) \<le> max 0 n"
proof (induction rule: gate_reachable.induct)
  case start
  show ?case by (simp add: gate_init_def newFIFOGate_def)
next
  case (step s t)
  from step.hyps(2) step.IH show ?case
  proof (induction rule: gate_step.induct)
    case (undo s w e)
    then show ?case using hand_over_length [of s] by simp
  next
    case (release s w)
    then show ?case using hand_over_length [of s] by simp
  qed (auto simp: acquire_enter_def acquire_cancel_def length_remove1 split: if_splits)
qed


subsection \<open>Progress\<close>

text \<open>An owner is never stuck, and a few steps of its own bring it to its release.\<close>

fun pc_rank :: "gate_pc \<Rightarrow> nat" where
  "pc_rank Selecting = 3"
| "pc_rank Checking = 2"
| "pc_rank (Cancelling e) = 2"
| "pc_rank Holding = 1"
| "pc_rank (Undoing e) = 1"
| "pc_rank p = 0"

lemma owner_moves:
  assumes inv: "gate_inv s" and own: "owns s w" and "1 < pc_rank (pcs s w)"
  shows "\<exists>t. gate_step s t \<and> gate t = gate s \<and> owns t w \<and> pc_rank (pcs t w) < pc_rank (pcs s w)"
proof (cases "pcs s w")
  case Checking
  show ?thesis
  proof (cases "ctxs s w")
    case None
    with Checking show ?thesis by (auto intro!: exI [of _ "set_pc s w Holding"] gate_step.intros)
  next
    case (Some e)
    with Checking show ?thesis by (auto intro!: exI [of _ "set_pc s w (Undoing e)"] gate_step.intros)
  qed
next
  case Selecting
  with own have "ready s w" by (simp add: owns_def)
  with Selecting show ?thesis by (auto intro!: exI [of _ "set_pc s w Checking"] gate_step.intros)
next
  case (Cancelling e)
  with own have "\<not> queued s w" by (simp add: owns_queued_defs)
  then have "acquire_cancel (gate s) w = (gate s, False)"
    using gate_invD(3) [OF inv] by (simp add: acquire_cancel_def)
  then have "gate_step s (set_pc (s\<lparr>gate := gate s\<rparr>) w (Undoing e))"
    using Cancelling by (rule gate_step.cancel_granted [rotated])
  with Cancelling show ?thesis by (auto intro!: exI [of _ "set_pc s w (Undoing e)"])
qed (use assms in auto)

lemma owner_releases:
  assumes "gate_inv s" and "owns s w"
  shows "\<exists>t u. gate_step\<^sup>*\<^sup>* s t \<and> gate t = gate s \<and> gate_step t u \<and> gate_inv u \<and>
               gate u = fst (gate_release (gate s)) \<and>
               (\<forall>v. snd (gate_release (gate s)) = Some v \<longrightarrow> owns u v)"
  using assms
proof (induction "pc_rank (pcs s w)" arbitrary: s rule: less_induct)
  case less
  show ?case
  proof (cases "1 < pc_rank (pcs s w)")
    case True
    then obtain t where t: "gate_step s t" "gate t = gate s" "owns t w"
      "pc_rank (pcs t w) < pc_rank (pcs s w)"
      using owner_moves [OF less.prems] by blast
    then have "gate_inv t" using gate_step_inv less.prems(1) by blast
    then obtain t' u where "gate_step\<^sup>*\<^sup>* t t'" "gate t' = gate t" "gate_step t' u" "gate_inv u"
      "gate u = fst (gate_release (gate t))"
      "\<forall>v. snd (gate_release (gate t)) = Some v \<longrightarrow> owns u v"
      using less.hyps [OF t(4) _ t(3)] by blast
    with t show ?thesis by (metis converse_rtranclp_into_rtranclp)
  next
    case False
    then obtain r where step: "gate_step s (set_pc (hand_over s) w (Done r))"
      using less.prems(2) gate_step.undo [of s w] gate_step.release [of s w]
      by (cases "pcs s w") (auto simp: owns_def)
    let ?u = "set_pc (hand_over s) w (Done r)"
    have u: "gate_inv ?u" using step less.prems(1) by (rule gate_step_inv)
    have g: "gate ?u = fst (gate_release (gate s))"
      by (cases "waiters (gate s)") (simp_all add: hand_over_empty hand_over_Cons gate_release_def)
    have "owns ?u v" if granted: "snd (gate_release (gate s)) = Some v" for v
    proof -
      obtain vs where ws: "waiters (gate s) = v # vs"
        using granted by (cases "waiters (gate s)") (auto simp: gate_release_def)
      then have "queued s v" using gate_invD(3) [OF less.prems(1), of v] by simp
      moreover from this less.prems(2) have "v \<noteq> w"
        by (cases "pcs s v") (auto simp: owns_queued_defs)
      ultimately show ?thesis
        using ws by (cases "pcs s v") (auto simp: hand_over_Cons owns_queued_defs)
    qed
    with step u g show ?thesis by blast
  qed
qed

lemma queued_gets_granted:
  "gate_inv s \<Longrightarrow> waiters (gate s) = vs @ w # ws \<Longrightarrow> \<exists>t. gate_step\<^sup>*\<^sup>* s t \<and> owns t w"
proof (induction vs arbitrary: s)
  case Nil
  then obtain v where "owns s v" by (auto simp: gate_inv_def gate_ok_def)
  then obtain t u where "gate_step\<^sup>*\<^sup>* s t" "gate_step t u"
    "\<forall>x. snd (gate_release (gate s)) = Some x \<longrightarrow> owns u x"
    using owner_releases [OF Nil.prems(1)] by blast
  with Nil.prems(2) show ?case
    by (auto simp: gate_release_def intro: rtranclp.rtrancl_into_rtrancl)
next
  case (Cons x vs)
  then obtain v where "owns s v" by (auto simp: gate_inv_def gate_ok_def)
  then obtain t u where tu: "gate_step\<^sup>*\<^sup>* s t" "gate_step t u" "gate_inv u"
    "gate u = fst (gate_release (gate s))"
    using owner_releases [OF Cons.prems(1)] by blast
  then have "waiters (gate u) = vs @ w # ws"
    using Cons.prems(2) by (simp add: gate_release_def)
  with Cons.IH tu show ?case by (meson rtranclp.rtrancl_into_rtrancl rtranclp_trans)
qed


subsection \<open>The abstract semaphore\<close>

text \<open>
  What the gate promises: at most one owner, a queue of at most \<open>sem_cap\<close> callers in order
  of arrival, ownership passed to the head of the queue.
\<close>

record sem =
  sem_owner :: "nat option"
  sem_queue :: "nat list"
  sem_cap :: int

inductive sem_step :: "sem \<Rightarrow> sem \<Rightarrow> bool" where
  sem_take: "sem_owner a = None \<Longrightarrow> sem_step a (a\<lparr>sem_owner := Some w\<rparr>)"
| sem_join: "sem_owner a = Some v \<Longrightarrow> w \<notin> set (sem_queue a) \<Longrightarrow> w \<noteq> v \<Longrightarrow>
     int (length (sem_queue a)) < sem_cap a \<Longrightarrow> sem_step a (a\<lparr>sem_queue := sem_queue a @ [w]\<rparr>)"
| sem_quit: "w \<in> set (sem_queue a) \<Longrightarrow> sem_step a (a\<lparr>sem_queue := remove1 w (sem_queue a)\<rparr>)"
| sem_pass: "sem_owner a = Some v \<Longrightarrow> sem_queue a = w # ws \<Longrightarrow>
     sem_step a (a\<lparr>sem_owner := Some w, sem_queue := ws\<rparr>)"
| sem_free: "sem_owner a = Some v \<Longrightarrow> sem_queue a = [] \<Longrightarrow> sem_step a (a\<lparr>sem_owner := None\<rparr>)"

definition sem_init :: "int \<Rightarrow> sem" where
  "sem_init n = \<lparr>sem_owner = None, sem_queue = [], sem_cap = n\<rparr>"

definition sem_rel :: "gate_sys \<Rightarrow> sem \<Rightarrow> bool" where
  "sem_rel s a \<longleftrightarrow> sem_queue a = waiters (gate s) \<and> sem_cap a = maxWaiters (gate s) \<and>
     (\<forall>w. sem_owner a = Some w \<longleftrightarrow> owns s w)"

lemma sem_relD:
  assumes "gate_inv s" and "sem_rel s a"
  shows "sem_owner a = None \<longleftrightarrow> \<not> held (gate s)"
    and "owns s w \<Longrightarrow> sem_owner a = Some w" and "sem_queue a = waiters (gate s)"
    and "sem_cap a = maxWaiters (gate s)"
  using assms by (auto simp: sem_rel_def gate_inv_def gate_ok_def)

lemma hand_over_sem:
  assumes inv: "gate_inv s" and rel: "sem_rel s a" and own: "owns s w" and nq: "\<not> queued s w"
  shows "\<exists>b. sem_step a b \<and> sem_rel (set_pc (hand_over s) w (Done r)) b"
proof -
  note a = sem_relD [OF inv rel]
  let ?t = "set_pc (hand_over s) w (Done r)"
  have inv_t: "gate_inv ?t" using inv own nq by (rule hand_over_inv)
  show ?thesis
  proof (cases "waiters (gate s)")
    case Nil
    let ?b = "a\<lparr>sem_owner := None\<rparr>"
    have "sem_step a ?b" using a(2) [OF own] a(3) Nil by (auto intro: sem_step.sem_free)
    moreover have "\<not> held (gate ?t)" using Nil by (simp add: hand_over_empty)
    then have "\<not> owns ?t u" for u using held_iff_owner [OF inv_t] by blast
    then have "sem_rel ?t ?b" using a(3,4) Nil by (simp add: sem_rel_def hand_over_empty)
    ultimately show ?thesis by blast
  next
    case (Cons v vs)
    let ?b = "a\<lparr>sem_owner := Some v, sem_queue := vs\<rparr>"
    have step: "sem_step a ?b"
      using a(2) [OF own] a(3) Cons by (auto intro: sem_step.sem_pass)
    have "queued s v" using gate_invD(3) [OF inv, of v] Cons by simp
    with nq have "owns ?t v"
      using Cons by (cases "pcs s v") (auto simp: hand_over_Cons owns_queued_defs)
    then have "owns ?t u \<longleftrightarrow> v = u" for u
      using owner_unique [OF inv_t] by blast
    then have "sem_rel ?t ?b" using a(3,4) Cons by (simp add: sem_rel_def hand_over_Cons)
    with step show ?thesis by blast
  qed
qed

lemma sem_stutter:
  assumes "sem_rel s a" "waiters (gate t) = waiters (gate s)" "maxWaiters (gate t) = maxWaiters (gate s)" "\<And>w. owns t w = owns s w"
  shows "\<exists>b. sem_step\<^sup>=\<^sup>= a b \<and> sem_rel t b"
  using assms by (auto simp: sem_rel_def)

lemma enter_free_sem:
  assumes "acquire_enter (gate s) w = (g, Entered)" "gate_inv s" "sem_rel s a"
  shows "\<exists>b. sem_step\<^sup>=\<^sup>= a b \<and> sem_rel (set_pc (s\<lparr>gate := g\<rparr>) w Checking) b"
proof -
  note a = sem_relD [OF assms(2,3)]
  let ?b = "a\<lparr>sem_owner := Some w\<rparr>"
  have "\<not> held (gate s)" and g: "g = (gate s)\<lparr>held := True\<rparr>" using assms(1) by (auto simp: acquire_enter_def split: if_splits)
  then have "sem_step a ?b" using a(1) by (auto intro: sem_step.sem_take)
  moreover have "owns (set_pc (s\<lparr>gate := g\<rparr>) w Checking) u \<longleftrightarrow> w = u" for u
    using gate_invD(1) [OF assms(2)] \<open>\<not> held (gate s)\<close> by (auto simp: gate_ok_def owns_queued_defs)
  then have "sem_rel (set_pc (s\<lparr>gate := g\<rparr>) w Checking) ?b" using a(3,4) g by (simp add: sem_rel_def)
  ultimately show ?thesis by blast
qed

lemma enter_queue_sem:
  assumes "pcs s w = Idle" "acquire_enter (gate s) w = (g, Queued)" "gate_inv s" "sem_rel s a"
  shows "\<exists>b. sem_step\<^sup>=\<^sup>= a b \<and> sem_rel (set_pc (s\<lparr>gate := g, arrivals := arrivals s @ [w]\<rparr>) w Selecting) b"
proof -
  note a = sem_relD [OF assms(3,4)]
  have h: "held (gate s)" "int (length (waiters (gate s))) < maxWaiters (gate s)"
    and g: "g = (gate s)\<lparr>waiters := waiters (gate s) @ [w]\<rparr>"
    using assms(2) by (auto simp: acquire_enter_def split: if_splits)
  have nr: "\<not> ready s w" and nq: "\<not> queued s w" and no: "\<not> owns s w"
    using gate_invD(2) [OF assms(3)] assms(1) by (simp_all add: owns_queued_defs)
  then obtain v where v: "owns s v" "v \<noteq> w" using gate_invD(1) [OF assms(3)] h by (auto simp: gate_ok_def)
  have "w \<notin> set (waiters (gate s))" using nq gate_invD(3) [OF assms(3)] by simp
  then have "sem_step a (a\<lparr>sem_queue := sem_queue a @ [w]\<rparr>)"
    by (intro sem_step.sem_join [of a v w]) (use a(2) [OF v(1)] v(2) h a(3,4) in simp_all)
  moreover have "sem_rel (set_pc (s\<lparr>gate := g, arrivals := arrivals s @ [w]\<rparr>) w Selecting)
      (a\<lparr>sem_queue := sem_queue a @ [w]\<rparr>)"
    using assms(4) g nr no by (auto simp: sem_rel_def owns_queued_defs)
  ultimately show ?thesis by blast
qed

lemma cancel_queued_sem:
  assumes "pcs s w = Cancelling e" "acquire_cancel (gate s) w = (g, True)" "gate_inv s" "sem_rel s a"
  shows "\<exists>b. sem_step\<^sup>=\<^sup>= a b \<and> sem_rel (set_pc (s\<lparr>gate := g, abandoned := abandoned s @ [w]\<rparr>) w (Done (Some (ErrCtx e)))) b"
proof -
  note a = sem_relD [OF assms(3,4)]
  have w: "w \<in> set (waiters (gate s))" and g: "g = (gate s)\<lparr>waiters := remove1 w (waiters (gate s))\<rparr>"
    using assms(2) by (auto simp: acquire_cancel_def split: if_splits)
  then have "queued s w" using gate_invD(3) [OF assms(3)] by simp
  then have no: "\<not> owns s w" using assms(1) by (simp add: owns_queued_defs)
  have "sem_step a (a\<lparr>sem_queue := remove1 w (sem_queue a)\<rparr>)" using w a(3) by (intro sem_step.sem_quit) simp
  moreover have "sem_rel (set_pc (s\<lparr>gate := g, abandoned := abandoned s @ [w]\<rparr>) w (Done (Some (ErrCtx e))))
      (a\<lparr>sem_queue := remove1 w (sem_queue a)\<rparr>)"
    using assms(4) g no by (auto simp: sem_rel_def owns_queued_defs)
  ultimately show ?thesis by blast
qed

lemma gate_sem_step:
  assumes "gate_step s t" "gate_inv s" "sem_rel s a"
  shows "\<exists>b. sem_step\<^sup>=\<^sup>= a b \<and> sem_rel t b"
  using assms(1)
proof cases
  case (enter_free w g)
  thus ?thesis using enter_free_sem assms(2,3) by blast
next
  case (enter_queue w g)
  thus ?thesis using enter_queue_sem assms(2,3) by blast
next
  case (cancel_queued w e g)
  thus ?thesis using cancel_queued_sem assms(2,3) by blast
next
  case (enter_full w g)
  hence "g = gate s" by (auto simp: acquire_enter_def split: if_splits)
  thus ?thesis using enter_full by (intro sem_stutter [OF assms(3)]) (simp_all add: owns_queued_defs)
next
  case (cancel_granted w e g)
  hence "g = gate s" "\<not> queued s w" using gate_invD(3) [OF assms(2), of w] by (auto simp: acquire_cancel_def split: if_splits)
  thus ?thesis using cancel_granted by (intro sem_stutter [OF assms(3)]) (simp_all add: owns_queued_defs)
next
  case (undo w e)
  thus ?thesis using hand_over_sem [of s a w] assms(2,3) by (auto simp: owns_queued_defs)
next
  case (release w)
  thus ?thesis using hand_over_sem [of s a w] assms(2,3) by (auto simp: owns_queued_defs)
qed (intro sem_stutter [OF assms(3)]; simp add: owns_queued_defs)+


inductive sem_reachable :: "int \<Rightarrow> sem \<Rightarrow> bool" for n where
  sem_start: "sem_reachable n (sem_init n)"
| sem_next: "sem_reachable n a \<Longrightarrow> sem_step a b \<Longrightarrow> sem_reachable n b"

lemma gate_sem_reachable: "gate_reachable n s \<Longrightarrow> \<exists>a. sem_reachable n a \<and> sem_rel s a"
proof (induction rule: gate_reachable.induct)
  case start
  have "sem_rel (gate_init n) (sem_init n)"
    by (simp add: sem_rel_def sem_init_def gate_init_def newFIFOGate_def owns_def)
  then show ?case using sem_reachable.sem_start by blast
next
  case (step s t)
  then obtain a where a: "sem_reachable n a" "sem_rel s a" by blast
  then obtain b where "sem_step\<^sup>=\<^sup>= a b" "sem_rel t b"
    using gate_sem_step [OF step.hyps(2) gate_reachable_inv [OF step.hyps(1)]] by blast
  with a show ?case by (auto intro: sem_reachable.sem_next)
qed


subsection \<open>Runs as sequences of events\<close>

text \<open>The same steps as a partial function of an event, so that a run can be evaluated.\<close>

datatype gate_event =
    EvEnter nat | EvCheck nat | EvReady nat | EvCtxDone nat | EvLockCancel nat | EvRelease nat
  | EvEnvCancel nat ctx_err

fun gate_exec :: "gate_sys \<Rightarrow> gate_event \<Rightarrow> gate_sys option" where
  "gate_exec s (EvEnter w) =
     (if pcs s w \<noteq> Idle then None
      else case acquire_enter (gate s) w of
        (g, Entered) \<Rightarrow> Some (set_pc (s\<lparr>gate := g\<rparr>) w Checking)
      | (g, QueueFull) \<Rightarrow> Some (set_pc (s\<lparr>gate := g\<rparr>) w (Done (Some ErrQueueFull)))
      | (g, Queued) \<Rightarrow> Some (set_pc (s\<lparr>gate := g, arrivals := arrivals s @ [w]\<rparr>) w Selecting))"
| "gate_exec s (EvCheck w) =
     (if pcs s w \<noteq> Checking then None
      else Some (set_pc s w (case ctxs s w of None \<Rightarrow> Holding | Some e \<Rightarrow> Undoing e)))"
| "gate_exec s (EvReady w) =
     (if pcs s w = Selecting \<and> ready s w then Some (set_pc s w Checking) else None)"
| "gate_exec s (EvCtxDone w) =
     (if pcs s w \<noteq> Selecting then None
      else map_option (\<lambda>e. set_pc s w (Cancelling e)) (ctxs s w))"
| "gate_exec s (EvLockCancel w) =
     (case pcs s w of
        Cancelling e \<Rightarrow> Some (case acquire_cancel (gate s) w of
            (g, True) \<Rightarrow> set_pc (s\<lparr>gate := g, abandoned := abandoned s @ [w]\<rparr>) w (Done (Some (ErrCtx e)))
          | (g, False) \<Rightarrow> set_pc (s\<lparr>gate := g\<rparr>) w (Undoing e))
      | _ \<Rightarrow> None)"
| "gate_exec s (EvRelease w) =
     (case pcs s w of
        Undoing e \<Rightarrow> Some (set_pc (hand_over s) w (Done (Some (ErrCtx e))))
      | Holding \<Rightarrow> Some (set_pc (hand_over s) w (Done None))
      | _ \<Rightarrow> None)"
| "gate_exec s (EvEnvCancel w e) =
     (if ctxs s w = None then Some (s\<lparr>ctxs := (ctxs s)(w := Some e)\<rparr>) else None)"

fun gate_run :: "gate_sys \<Rightarrow> gate_event list \<Rightarrow> gate_sys option" where
  "gate_run s [] = Some s"
| "gate_run s (e # es) = (case gate_exec s e of None \<Rightarrow> None | Some t \<Rightarrow> gate_run t es)"

lemmas gate_step_rules = gate_step.intros [simplified]

lemma gate_exec_step: "gate_exec s e = Some t \<Longrightarrow> gate_step s t"
proof (cases e)
  case (EvEnter w)
  moreover assume "gate_exec s e = Some t"
  ultimately show ?thesis
    by (auto split: if_splits prod.splits enter_result.splits
        intro: gate_step_rules)
next
  case (EvLockCancel w)
  moreover assume "gate_exec s e = Some t"
  ultimately show ?thesis
    by (auto split: gate_pc.splits prod.splits bool.splits
        intro: gate_step_rules)
qed (auto split: if_splits gate_pc.splits option.splits
    intro: gate_step_rules)

lemma gate_run_reachable:
  "gate_reachable n s \<Longrightarrow> gate_run s es = Some t \<Longrightarrow> gate_reachable n t"
  by (induction es arbitrary: s)
    (auto split: option.splits dest: gate_exec_step intro: gate_reachable.step)

lemmas gate_run_init = gate_run_reachable [OF gate_reachable.start]


subsection \<open>The interface of the gate\<close>

text \<open>
  What the components behind a gate rely on, one critical section at a time. The client's
  lemma is the FIFO law: the \<open>k\<close>-th release hands the gate to the \<open>k\<close>-th caller in the queue.
\<close>

locale fifo_gate =
  fixes enter :: "'g \<Rightarrow> nat \<Rightarrow> 'g \<times> enter_result"
    and cancel :: "'g \<Rightarrow> nat \<Rightarrow> 'g \<times> bool"
    and leave :: "'g \<Rightarrow> 'g \<times> nat option"
    and busy :: "'g \<Rightarrow> bool"
    and queue :: "'g \<Rightarrow> nat list"
    and cap :: "'g \<Rightarrow> int"
    and invar :: "'g \<Rightarrow> bool"
  assumes enter_free: "invar g \<Longrightarrow> \<not> busy g \<Longrightarrow> enter g w = (g', r) \<Longrightarrow>
        r = Entered \<and> busy g' \<and> queue g' = queue g"
    and enter_full: "invar g \<Longrightarrow> busy g \<Longrightarrow> cap g \<le> int (length (queue g)) \<Longrightarrow>
        enter g w = (g, QueueFull)"
    and enter_queue: "invar g \<Longrightarrow> busy g \<Longrightarrow> int (length (queue g)) < cap g \<Longrightarrow> enter g w = (g', r) \<Longrightarrow>
        r = Queued \<and> busy g' \<and> queue g' = queue g @ [w]"
    and cancel_queue: "invar g \<Longrightarrow> cancel g w = (g', b) \<Longrightarrow>
        (b \<longleftrightarrow> w \<in> set (queue g)) \<and> queue g' = remove1 w (queue g) \<and> busy g' = busy g"
    and leave_empty: "invar g \<Longrightarrow> queue g = [] \<Longrightarrow> leave g = (g', h) \<Longrightarrow>
        h = None \<and> \<not> busy g' \<and> queue g' = []"
    and leave_next: "invar g \<Longrightarrow> queue g = w # ws \<Longrightarrow> leave g = (g', h) \<Longrightarrow>
        h = Some w \<and> busy g' = busy g \<and> queue g' = ws"
    and invar_enter: "invar g \<Longrightarrow> w \<notin> set (queue g) \<Longrightarrow> invar (fst (enter g w))"
    and invar_cancel: "invar g \<Longrightarrow> invar (fst (cancel g w))"
    and invar_leave: "invar g \<Longrightarrow> invar (fst (leave g))"
    and invar_free: "invar g \<Longrightarrow> \<not> busy g \<Longrightarrow> queue g = []"
begin

lemma leaves:
  "invar g \<Longrightarrow> k \<le> length (queue g) \<Longrightarrow>
     invar (((\<lambda>h. fst (leave h)) ^^ k) g) \<and> queue (((\<lambda>h. fst (leave h)) ^^ k) g) = drop k (queue g)"
proof (induction k)
  case 0
  then show ?case by simp
next
  case (Suc k)
  let ?h = "((\<lambda>h. fst (leave h)) ^^ k) g"
  from Suc have IH: "invar ?h" "queue ?h = drop k (queue g)" by simp_all
  then have "queue ?h = queue g ! k # drop (Suc k) (queue g)"
    using Suc.prems(2) by (simp add: Cons_nth_drop_Suc)
  then have "queue (fst (leave ?h)) = drop (Suc k) (queue g)"
    using leave_next [OF IH(1), of "queue g ! k" _ "fst (leave ?h)" "snd (leave ?h)"] by simp
  with IH(1) show ?case by (simp add: invar_leave)
qed

lemma kth_release_grants_kth:
  assumes "invar g" and "k < length (queue g)"
  shows "snd (leave (((\<lambda>h. fst (leave h)) ^^ k) g)) = Some (queue g ! k)"
proof -
  let ?h = "((\<lambda>h. fst (leave h)) ^^ k) g"
  have h: "invar ?h" "queue ?h = queue g ! k # drop (Suc k) (queue g)"
    using leaves [of g k] assms by (simp_all add: Cons_nth_drop_Suc)
  then show ?thesis using leave_next [OF h, of "fst (leave ?h)" "snd (leave ?h)"] by simp
qed

lemma never_overfull:
  assumes "invar g" and "int (length (queue g)) \<le> cap g"
  shows "int (length (queue (fst (enter g w)))) \<le> cap g"
proof (cases "busy g")
  case True
  show ?thesis
  proof (cases "cap g \<le> int (length (queue g))")
    case True
    with \<open>busy g\<close> show ?thesis using enter_full [of g w] assms by simp
  next
    case False
    with \<open>busy g\<close> show ?thesis
      using enter_queue [of g w "fst (enter g w)" "snd (enter g w)"] assms(1) by simp
  qed
next
  case False
  then show ?thesis
    using enter_free [of g w "fst (enter g w)" "snd (enter g w)"] assms by simp
qed

end

definition gate_wf :: "fifoGate \<Rightarrow> bool" where
  "gate_wf g \<longleftrightarrow> distinct (waiters g) \<and> (\<not> held g \<longrightarrow> waiters g = [])"

interpretation fg: fifo_gate acquire_enter acquire_cancel gate_release held waiters maxWaiters gate_wf
  by unfold_locales
    (auto simp: acquire_enter_def acquire_cancel_def gate_release_def gate_wf_def
      remove1_idem split: if_splits list.splits)

subsection \<open>Properties\<close>

text \<open>
  A run used by the witnesses below: callers 1, 2 and 3 queue up behind caller 0, the
  context of caller 2 is cancelled and it gives up, caller 4 finds the queue full, caller 0
  releases and caller 1 enters.
\<close>

definition example_run :: "gate_event list" where
  "example_run =
     [EvEnter 0, EvCheck 0, EvEnter 1, EvEnter 2, EvEnter 3, EvEnter 4, EvEnvCancel 2 Canceled,
      EvCtxDone 2, EvLockCancel 2, EvRelease 0, EvReady 1, EvCheck 1]"

definition example_state :: gate_sys where
  "example_state = the (gate_run (gate_init 3) example_run)"

lemma example_run_state:
  "gate_run (gate_init 3) example_run = Some example_state"
  "pcs example_state 1 = Holding" "waiters (gate example_state) = [3]" "grants example_state = [1]"
  "arrivals example_state = [1, 2, 3]" "abandoned example_state = [2]"
  "pcs example_state 4 = Done (Some ErrQueueFull)"
  by (simp_all add: example_state_def example_run_def gate_init_def newFIFOGate_def
      acquire_enter_def acquire_cancel_def hand_over_def gate_release_def)

lemmas example_reachable = gate_run_init [OF example_run_state(1)]



text \<open>
  First in, first out: the callers that were handed the gate, in the order they were
  handed it, followed by those still queued, are exactly the callers that queued up, in the
  order they arrived, without those that gave up because their context ended.
\<close>

theorem gate_fifo_order:
  assumes "gate_reachable n s"
  shows "grants s @ waiters (gate s) = filter (\<lambda>w. w \<notin> set (abandoned s)) (arrivals s)"
  using gate_reachable_hist [OF assms] by (simp add: gate_hist_inv_def)

text \<open>
  No lost wake-up: from every reachable state, a caller that waits in the queue can still
  be handed the gate by steps of the callers alone, whoever holds the gate and however many
  contexts were cancelled on the way; the gate is never free while somebody waits.
\<close>

theorem gate_no_lost_wakeup:
  assumes "gate_reachable n s" and "w \<in> set (waiters (gate s))"
  shows "held (gate s) \<and> (\<exists>t. gate_step\<^sup>*\<^sup>* s t \<and> owns t w)"
proof -
  have inv: "gate_inv s" using assms(1) by (rule gate_reachable_inv)
  obtain vs ws where "waiters (gate s) = vs @ w # ws" using assms(2) by (meson split_list)
  then have "\<exists>t. gate_step\<^sup>*\<^sup>* s t \<and> owns t w" by (rule queued_gets_granted [OF inv])
  moreover have "held (gate s)" using inv assms(2) by (rule queue_held)
  ultimately show ?thesis by blast
qed



text \<open>
  Bounded waiting: the caller at position \<open>k\<close> of the queue is the one handed the gate by
  the release after \<open>k\<close> others.
\<close>

theorem gate_release_order:
  assumes "gate_wf g" and "k < length (waiters g)"
  shows "snd (gate_release (((\<lambda>h. fst (gate_release h)) ^^ k) g)) = Some (waiters g ! k)"
  using assms by (rule fg.kth_release_grants_kth)

end
