(* ===== verification/Budget.thy ===== *)
theory Budget
  imports Nirn_Prelude
begin

section \<open>Resource budgets\<close>

text \<open>
  \<^verbatim>\<open>resourceBudget\<close> of \<^verbatim>\<open>internal/proxy/proxy.go\<close>: the process-wide counters behind the
  in-flight limit, the bucket-state limit and the retry-capture limit. \<^verbatim>\<open>limit\<close> and \<^verbatim>\<open>used\<close> are
  \<^verbatim>\<open>int64\<close>, kept here as 64-bit words and compared as signed numbers, because the order of
  the tests in \<^verbatim>\<open>reserve\<close> is what keeps the subtraction and the addition from wrapping.

  \<open>reserve\<close> and \<open>release\<close> are the operations without interference; \<open>budget_step\<close>
  interleaves the atomic load, the compare-and-swap and the atomic add of any number of
  goroutines.
\<close>

subsection \<open>Operations\<close>

record resourceBudget =
  limit :: i64
  used :: i64

definition newResourceBudget :: "i64 \<Rightarrow> resourceBudget" where
  "newResourceBudget l = \<lparr>limit = l, used = 0\<rparr>"

definition exhausted :: "resourceBudget \<Rightarrow> i64 \<Rightarrow> i64 \<Rightarrow> bool" where
  \<comment> \<open>the test of \<^verbatim>\<open>reserve\<close> on the value \<open>u\<close> it loaded from \<^verbatim>\<open>used\<close>\<close>
  "exhausted b amount u \<longleftrightarrow> sint (limit b) < sint u \<or> sint (limit b - u) < sint amount"

definition reserve :: "resourceBudget \<Rightarrow> i64 \<Rightarrow> resourceBudget \<times> bool" where
  "reserve b amount =
     (if sint amount \<le> 0 then (b, True)
      else if exhausted b amount (used b) then (b, False)
      else (b\<lparr>used := used b + amount\<rparr>, True))"

definition release :: "resourceBudget \<Rightarrow> i64 \<Rightarrow> resourceBudget" where
  "release b amount = (if 0 < sint amount then b\<lparr>used := used b - amount\<rparr> else b)"

definition budget_wf :: "resourceBudget \<Rightarrow> bool" where
  "budget_wf b \<longleftrightarrow> 0 \<le> sint (used b) \<and> sint (used b) \<le> sint (limit b)"


subsection \<open>No wrap-around\<close>

lemma sint_i64_range: "- (2 ^ 63) \<le> sint (x :: i64)" "sint (x :: i64) < 2 ^ 63"
  using sint_ge [of x] sint_less [of x] by simp_all

lemma sint_add_exact:
  "- (2 ^ 63) \<le> sint x + sint y \<Longrightarrow> sint x + sint y < 2 ^ 63 \<Longrightarrow> sint (x + y :: i64) = sint x + sint y"
  by (simp add: sint_word_ariths signed_take_bit_int_eq_self)

lemma sint_sub_exact:
  "- (2 ^ 63) \<le> sint x - sint y \<Longrightarrow> sint x - sint y < 2 ^ 63 \<Longrightarrow> sint (x - y :: i64) = sint x - sint y"
  by (simp add: sint_word_ariths signed_take_bit_int_eq_self)

lemma sint_word_of_int_exact:
  "- (2 ^ 63) \<le> n \<Longrightarrow> n < 2 ^ 63 \<Longrightarrow> sint (word_of_int n :: i64) = n"
  by (simp add: sint_sbintrunc' signed_take_bit_int_eq_self)

lemma exhausted_iff:
  assumes "budget_wf b"
  shows "exhausted b amount (used b) \<longleftrightarrow> sint (limit b) < sint (used b) + sint amount"
  using assms sint_i64_range [of "limit b"]
  by (auto simp: exhausted_def budget_wf_def sint_sub_exact)

lemma reserve_cases:
  assumes "budget_wf b" and "0 < sint amount"
  obtains (full) "sint (limit b) < sint (used b) + sint amount" and "reserve b amount = (b, False)"
  | (ok) "sint (used b) + sint amount \<le> sint (limit b)" and "snd (reserve b amount)"
      and "sint (used (fst (reserve b amount))) = sint (used b) + sint amount"
      and "limit (fst (reserve b amount)) = limit b"
proof (cases "sint (limit b) < sint (used b) + sint amount")
  case True
  then have "reserve b amount = (b, False)"
    using assms by (simp add: reserve_def exhausted_iff)
  with True full show ?thesis by blast
next
  case False
  then have "sint (used b + amount) = sint (used b) + sint amount"
    using assms sint_i64_range [of "limit b"] by (simp add: sint_add_exact budget_wf_def)
  with False ok assms show ?thesis by (simp add: reserve_def exhausted_iff)
qed

lemma release_exact:
  assumes "budget_wf b" and "0 \<le> sint amount" and "sint amount \<le> sint (used b)"
  shows "sint (used (release b amount)) = sint (used b) - sint amount"
    and "limit (release b amount) = limit b" and "budget_wf (release b amount)"
proof -
  show u: "sint (used (release b amount)) = sint (used b) - sint amount"
    using assms sint_i64_range [of "used b"] by (auto simp: release_def sint_sub_exact budget_wf_def)
  show l: "limit (release b amount) = limit b" by (simp add: release_def)
  show "budget_wf (release b amount)" unfolding budget_wf_def u l
    using assms by (simp add: budget_wf_def)
qed


subsection \<open>The interface of a budget\<close>

text \<open>
  What the components that draw on a budget rely on, in unbounded integers: a reservation is
  granted exactly if it fits, and what is reserved is returned by \<open>give\<close>. The client's lemma:
  as long as every component returns no more than it took, the level is the sum of what is out.
\<close>

locale capacity =
  fixes take :: "'b \<Rightarrow> int \<Rightarrow> 'b \<times> bool"
    and give :: "'b \<Rightarrow> int \<Rightarrow> 'b"
    and level :: "'b \<Rightarrow> int"
    and cap :: "'b \<Rightarrow> int"
    and invar :: "'b \<Rightarrow> bool"
    and max_size :: int
  assumes take_granted: "invar b \<Longrightarrow> 0 \<le> n \<Longrightarrow> n \<le> max_size \<Longrightarrow> snd (take b n) \<longleftrightarrow> level b + n \<le> cap b"
    and take_level: "invar b \<Longrightarrow> 0 \<le> n \<Longrightarrow> n \<le> max_size \<Longrightarrow>
        level (fst (take b n)) = (if level b + n \<le> cap b then level b + n else level b)"
    and take_cap: "cap (fst (take b n)) = cap b"
    and give_level: "invar b \<Longrightarrow> 0 \<le> n \<Longrightarrow> n \<le> max_size \<Longrightarrow> n \<le> level b \<Longrightarrow> level (give b n) = level b - n"
    and give_cap: "cap (give b n) = cap b"
    and invar_take: "invar b \<Longrightarrow> 0 \<le> n \<Longrightarrow> n \<le> max_size \<Longrightarrow> invar (fst (take b n))"
    and invar_give: "invar b \<Longrightarrow> 0 \<le> n \<Longrightarrow> n \<le> max_size \<Longrightarrow> n \<le> level b \<Longrightarrow> invar (give b n)"
    and invar_bounds: "invar b \<Longrightarrow> 0 \<le> level b \<and> level b \<le> cap b"
begin

lemma take_refused: "invar b \<Longrightarrow> 0 \<le> n \<Longrightarrow> n \<le> max_size \<Longrightarrow> \<not> snd (take b n) \<Longrightarrow> level (fst (take b n)) = level b"
  using take_granted take_level by simp

lemma take_then_give:
  assumes "invar b" "0 \<le> n" "n \<le> max_size" "snd (take b n)"
  shows "level (give (fst (take b n)) n) = level b"
proof -
  have "level (fst (take b n)) = level b + n" using assms take_granted take_level by simp
  then show ?thesis
    using assms give_level [OF invar_take [OF assms(1-3)], of n] invar_bounds [OF assms(1)] by simp
qed

lemma settle:
  \<comment> \<open>changing what a component holds from \<open>m\<close> to \<open>n\<close>: reserve the difference, or return it\<close>
  assumes "invar b" "0 \<le> m" "0 \<le> n" "m \<le> level b" "m \<le> max_size" "n - m \<le> max_size"
    and "b' = (if m < n then fst (take b (n - m)) else if n < m then give b (m - n) else b)"
    and "m < n \<Longrightarrow> snd (take b (n - m))"
  shows "level b' = level b - m + n \<and> invar b' \<and> cap b' = cap b"
  using assms take_granted [of b "n - m"] take_level [of b "n - m"] take_cap
    give_level [of b "m - n"] give_cap invar_take [of b "n - m"] invar_give [of b "m - n"]
  by (cases m n rule: linorder_cases) auto

end

definition reserve_int :: "resourceBudget \<Rightarrow> int \<Rightarrow> resourceBudget \<times> bool" where
  "reserve_int b n = reserve b (word_of_int n)"

definition release_int :: "resourceBudget \<Rightarrow> int \<Rightarrow> resourceBudget" where
  "release_int b n = release b (word_of_int n)"

interpretation rb: capacity reserve_int release_int "\<lambda>b. sint (used b)" "\<lambda>b. sint (limit b)" budget_wf "2 ^ 63 - 1"
proof unfold_locales
  fix b :: resourceBudget and n :: int
  have sz: "sint (word_of_int n :: i64) = n" if "0 \<le> n" "n \<le> 2 ^ 63 - 1"
    using that by (intro sint_word_of_int_exact) auto
  have lim: "limit (fst (reserve b s)) = limit b" "limit (release b s) = limit b" for s
    by (simp_all add: reserve_def release_def)
  then show "sint (limit (fst (reserve_int b n))) = sint (limit b)"
    "sint (limit (release_int b n)) = sint (limit b)"
    by (simp_all add: reserve_int_def release_int_def)
  assume wf: "budget_wf b"
  show "0 \<le> sint (used b) \<and> sint (used b) \<le> sint (limit b)"
    using wf by (simp add: budget_wf_def)
  assume n: "0 \<le> n" "n \<le> 2 ^ 63 - 1"
  note s = sz [OF n]
  have gl: "snd (reserve_int b n) = (sint (used b) + n \<le> sint (limit b)) \<and>
        sint (used (fst (reserve_int b n))) =
          (if sint (used b) + n \<le> sint (limit b) then sint (used b) + n else sint (used b))"
  proof (cases "n = 0")
    case True
    then show ?thesis using wf by (simp add: reserve_int_def reserve_def budget_wf_def)
  next
    case False
    with n s have "0 < sint (word_of_int n :: i64)" by simp
    with wf show ?thesis
      by (cases rule: reserve_cases) (use s in \<open>simp_all add: reserve_int_def\<close>)
  qed
  then show "snd (reserve_int b n) = (sint (used b) + n \<le> sint (limit b))"
    and "sint (used (fst (reserve_int b n))) =
          (if sint (used b) + n \<le> sint (limit b) then sint (used b) + n else sint (used b))"
    by blast+
  then show "budget_wf (fst (reserve_int b n))"
    using wf n lim by (auto simp: budget_wf_def reserve_int_def)
  assume "n \<le> sint (used b)"
  then show "sint (used (release_int b n)) = sint (used b) - n" and "budget_wf (release_int b n)"
    using release_exact [OF wf, of "word_of_int n"] n s by (simp_all add: release_int_def)
qed


subsection \<open>Concurrent goroutines\<close>

text \<open>
  One goroutine: it calls \<^verbatim>\<open>reserve(n)\<close>, and if that succeeds, later \<^verbatim>\<open>release(n)\<close>.
  \<open>Loaded n u\<close> stands between \<^verbatim>\<open>used.Load()\<close>, which gave \<open>u\<close>, and the compare-and-swap.
\<close>

datatype reserve_pc = Start i64 | Loaded i64 i64 | Reserved i64 | Refused i64 | Released i64

record budget_sys =
  budget :: resourceBudget
  workers :: "reserve_pc list"

abbreviation set_worker :: "budget_sys \<Rightarrow> nat \<Rightarrow> reserve_pc \<Rightarrow> budget_sys" where
  "set_worker s i p \<equiv> s\<lparr>workers := (workers s)[i := p]\<rparr>"

inductive budget_step :: "budget_sys \<Rightarrow> budget_sys \<Rightarrow> bool" where
  nothing: "i < length (workers s) \<Longrightarrow> workers s ! i = Start n \<Longrightarrow> sint n \<le> 0 \<Longrightarrow>
     budget_step s (set_worker s i (Reserved n))"
| load: "i < length (workers s) \<Longrightarrow> workers s ! i = Start n \<Longrightarrow> 0 < sint n \<Longrightarrow>
     budget_step s (set_worker s i (Loaded n (used (budget s))))"
| refuse: "i < length (workers s) \<Longrightarrow> workers s ! i = Loaded n u \<Longrightarrow> exhausted (budget s) n u \<Longrightarrow>
     budget_step s (set_worker s i (Refused n))"
| swap: "i < length (workers s) \<Longrightarrow> workers s ! i = Loaded n u \<Longrightarrow> \<not> exhausted (budget s) n u \<Longrightarrow>
     used (budget s) = u \<Longrightarrow>
     budget_step s (set_worker (s\<lparr>budget := (budget s)\<lparr>used := u + n\<rparr>\<rparr>) i (Reserved n))"
| swap_failed: "i < length (workers s) \<Longrightarrow> workers s ! i = Loaded n u \<Longrightarrow> \<not> exhausted (budget s) n u \<Longrightarrow>
     used (budget s) \<noteq> u \<Longrightarrow> budget_step s (set_worker s i (Start n))"
| give_back: "i < length (workers s) \<Longrightarrow> workers s ! i = Reserved n \<Longrightarrow>
     budget_step s (set_worker (s\<lparr>budget := release (budget s) n\<rparr>) i (Released n))"

inductive budget_reachable :: "i64 \<Rightarrow> i64 list \<Rightarrow> budget_sys \<Rightarrow> bool" for l ns where
  start: "budget_reachable l ns \<lparr>budget = newResourceBudget l, workers = map Start ns\<rparr>"
| step: "budget_reachable l ns s \<Longrightarrow> budget_step s t \<Longrightarrow> budget_reachable l ns t"

fun holding :: "reserve_pc \<Rightarrow> int" where
  "holding (Reserved n) = max 0 (sint n)"
| "holding _ = 0"

fun loaded_positive :: "reserve_pc \<Rightarrow> bool" where
  "loaded_positive (Loaded n u) = (0 < sint n)"
| "loaded_positive _ = True"

definition budget_inv :: "budget_sys \<Rightarrow> bool" where
  "budget_inv s \<longleftrightarrow> budget_wf (budget s) \<and>
     sint (used (budget s)) = (\<Sum>p \<leftarrow> workers s. holding p) \<and> (\<forall>p \<in> set (workers s). loaded_positive p)"

lemma sum_list_map_update:
  fixes f :: "'a \<Rightarrow> int"
  assumes "i < length xs"
  shows "(\<Sum>x \<leftarrow> xs[i := y]. f x) = (\<Sum>x \<leftarrow> xs. f x) - f (xs ! i) + f y"
  using assms
  by (induction xs arbitrary: i) (auto split: nat.splits)

lemma holding_nonneg: "0 \<le> holding p"
  by (cases p) auto

lemma holding_sum_nonneg: "0 \<le> (\<Sum>p \<leftarrow> xs. holding p)"
  by (induction xs) (auto intro: add_nonneg_nonneg simp: holding_nonneg)

lemma holding_le_sum: "i < length xs \<Longrightarrow> holding (xs ! i) \<le> (\<Sum>p \<leftarrow> xs. holding p)"
  by (induction xs arbitrary: i)
    (auto simp: nth_Cons holding_sum_nonneg holding_nonneg intro: add_increasing split: nat.splits)

lemma budget_step_inv: "budget_step s t \<Longrightarrow> budget_inv s \<Longrightarrow> budget_inv t"
proof (induction rule: budget_step.induct)
  case (swap i s n u)
  have pos: "0 < sint n" and wf: "budget_wf (budget s)"
    using swap.hyps swap.prems nth_mem [OF swap.hyps(1)] by (auto simp: budget_inv_def)
  have "reserve (budget s) n = ((budget s)\<lparr>used := u + n\<rparr>, True)"
    using swap.hyps pos by (simp add: reserve_def)
  with wf pos have "sint (u + n) = sint u + sint n" "sint u + sint n \<le> sint (limit (budget s))"
    using swap.hyps by (auto elim: reserve_cases)
  then show ?case
    using swap.hyps swap.prems pos
    by (auto simp: budget_inv_def budget_wf_def sum_list_map_update dest: set_update_subset_insert [THEN subsetD])
next
  case (give_back i s n)
  have wf: "budget_wf (budget s)" using give_back.prems by (simp add: budget_inv_def)
  have le: "max 0 (sint n) \<le> sint (used (budget s))"
    using holding_le_sum [OF give_back.hyps(1)] give_back.hyps(2) give_back.prems
    by (simp add: budget_inv_def)
  show ?case
  proof (cases "0 < sint n")
    case True
    with le give_back show ?thesis
      using release_exact [OF wf, of n]
      by (auto simp: budget_inv_def sum_list_map_update dest: set_update_subset_insert [THEN subsetD])
  next
    case False
    then have "release (budget s) n = budget s" by (simp add: release_def)
    with False give_back show ?thesis
      by (auto simp: budget_inv_def sum_list_map_update dest: set_update_subset_insert [THEN subsetD])
  qed
qed (auto simp: budget_inv_def sum_list_map_update dest: set_update_subset_insert [THEN subsetD])

lemma budget_step_limit: "budget_step s t \<Longrightarrow> limit (budget t) = limit (budget s)"
  by (induction rule: budget_step.induct) (simp_all add: release_def)

lemma budget_reachable_inv:
  "budget_reachable l ns s \<Longrightarrow> 0 \<le> sint l \<Longrightarrow> budget_inv s \<and> limit (budget s) = l"
proof (induction rule: budget_reachable.induct)
  case start
  have "(\<Sum>p \<leftarrow> map Start ns. holding p) = 0" by (induction ns) auto
  with start show ?case by (auto simp: budget_inv_def newResourceBudget_def budget_wf_def)
next
  case (step s t)
  then show ?case by (auto intro: budget_step_inv simp: budget_step_limit)
qed


subsection \<open>Properties\<close>

text \<open>
  C35. Exactness at 64 bits: for a well-formed budget (\<open>0 \<le> used \<le> limit\<close>) and any positive
  amount, even one near the end of the \<^verbatim>\<open>int64\<close> range, \<^verbatim>\<open>reserve\<close> succeeds exactly if the
  amount still fits as an unbounded integer, adds exactly that amount when it does, changes
  nothing when it does not, and releasing the amount afterwards restores \<^verbatim>\<open>used\<close>.
\<close>

theorem reserve_release_exact:
  assumes "budget_wf b" and "0 < sint amount"
  shows "(snd (reserve b amount) \<longleftrightarrow> sint (used b) + sint amount \<le> sint (limit b)) \<and>
         (snd (reserve b amount) \<longrightarrow> sint (used (fst (reserve b amount))) = sint (used b) + sint amount) \<and>
         (\<not> snd (reserve b amount) \<longrightarrow> fst (reserve b amount) = b) \<and>
         budget_wf (fst (reserve b amount)) \<and>
         (snd (reserve b amount) \<longrightarrow> release (fst (reserve b amount)) amount = b)"
  using assms
proof (cases rule: reserve_cases)
  case full
  then show ?thesis using assms(1) by simp
next
  case ok
  then have "fst (reserve b amount) = b\<lparr>used := used b + amount\<rparr>"
    using assms by (simp add: reserve_def split: if_splits)
  then have "release (fst (reserve b amount)) amount = b"
    using assms(2) by (simp add: release_def)
  with ok show ?thesis using assms by (auto simp: budget_wf_def)
qed

theorem reserve_release_exact_witness:
  "budget_wf \<lparr>limit = 9223372036854775807, used = 9223372036854775800\<rparr> \<and> 0 < sint (8 :: i64) \<and>
   \<not> snd (reserve \<lparr>limit = 9223372036854775807, used = 9223372036854775800\<rparr> 8)"
proof -
  let ?b = "\<lparr>limit = 9223372036854775807, used = 9223372036854775800\<rparr>"
  have h: "budget_wf ?b" "0 < sint (8 :: i64)" by (simp_all add: budget_wf_def)
  with reserve_release_exact [OF h] show ?thesis by simp
qed

text \<open>
  The budget under contention: whatever the interleaving of the loads, compare-and-swaps
  and releases of any number of goroutines, \<^verbatim>\<open>used\<close> is exactly the sum of the reservations
  held at that moment, and that sum never exceeds the limit.
\<close>

theorem budget_never_overcommitted:
  assumes "budget_reachable l ns s" and "0 \<le> sint l"
  shows "sint (used (budget s)) = (\<Sum>p \<leftarrow> workers s. holding p) \<and>
         (\<Sum>p \<leftarrow> workers s. holding p) \<le> sint l"
  using budget_reachable_inv [OF assms] by (auto simp: budget_inv_def budget_wf_def)

end
