(* ===== verification/Guard.thy ===== *)
theory Guard
  imports Nirn_Prelude
begin

section \<open>The invalid-request guard\<close>

text \<open>
  \<^verbatim>\<open>invalidRequestGuard\<close> of \<^verbatim>\<open>internal/proxy/ratelimit.go\<close>: the safety budget below Discord's
  limit on responses 401, 403 and 429 per ten minutes. Every outbound attempt first reserves
  a slot; \<^verbatim>\<open>complete\<close> returns it and, if the response was invalid, records its time. The
  record \<open>invalidRequestGuard\<close> keeps the slice \<open>timestamps\<close> with the index \<open>head\<close> of the
  first live entry, as the code does; \<open>retained\<close> is what the pair stands for.
\<close>

subsection \<open>State and operations\<close>

definition InvalidRequestSafetyLimit :: int where "InvalidRequestSafetyLimit = 9500"
definition invalidRequestWindow :: duration where "invalidRequestWindow = 10 * Minute"

record invalidRequestGuard =
  g_limit :: int
  g_window :: duration
  timestamps :: "time list"
  head :: nat
  reserved :: int

definition newInvalidRequestGuard :: "int \<Rightarrow> duration \<Rightarrow> invalidRequestGuard" where
  "newInvalidRequestGuard l w =
     \<lparr>g_limit = l, g_window = w, timestamps = [], head = 0, reserved = 0\<rparr>"

text \<open>The loop of \<^verbatim>\<open>prune\<close>: advance \<open>head\<close> over the entries that are not after \<open>oldest\<close>.\<close>

function advance :: "time list \<Rightarrow> time \<Rightarrow> nat \<Rightarrow> nat" where
  "advance ts oldest h =
     (if h < length ts \<and> \<not> (oldest < ts ! h) then advance ts oldest (Suc h) else h)"
  by pat_completeness auto
termination
  by (relation "measure (\<lambda>(ts, oldest, h). length ts - h)") auto

declare advance.simps [simp del]

definition prune :: "invalidRequestGuard \<Rightarrow> time \<Rightarrow> invalidRequestGuard" where
  "prune g now =
     (let oldest = now - g_window g; h = advance (timestamps g) oldest (head g) in
      if 4096 < h \<and> length (timestamps g) < h * 2
      then g\<lparr>timestamps := drop h (timestamps g), head := 0\<rparr>
      else g\<lparr>head := h\<rparr>)"

definition live :: "invalidRequestGuard \<Rightarrow> int" where
  \<comment> \<open>\<^verbatim>\<open>len(g.timestamps)-g.head+g.reserved\<close>\<close>
  "live g = int (length (timestamps g)) - int (head g) + reserved g"

definition available :: "invalidRequestGuard \<Rightarrow> time \<Rightarrow> invalidRequestGuard \<times> bool" where
  "available g now = (let g' = prune g now in (g', live g' < g_limit g'))"

definition guard_reserve :: "invalidRequestGuard \<Rightarrow> time \<Rightarrow> invalidRequestGuard \<times> bool" where
  "guard_reserve g now =
     (let g' = prune g now in
      if g_limit g' \<le> live g' then (g', False)
      else (g'\<lparr>reserved := reserved g' + 1\<rparr>, True))"

definition complete :: "invalidRequestGuard \<Rightarrow> time \<Rightarrow> bool \<Rightarrow> invalidRequestGuard" where
  "complete g now invalid =
     (let g' = g\<lparr>reserved := reserved g - 1\<rparr>;
          g'' = (if invalid then g'\<lparr>timestamps := timestamps g' @ [now]\<rparr> else g')
      in prune g'' now)"


subsection \<open>What the slice stands for\<close>

definition retained :: "invalidRequestGuard \<Rightarrow> time list" where
  "retained g = drop (head g) (timestamps g)"

definition guard_wf :: "invalidRequestGuard \<Rightarrow> bool" where
  "guard_wf g \<longleftrightarrow> head g \<le> length (timestamps g)"

lemma advance_spec:
  "h \<le> length ts \<Longrightarrow> h \<le> advance ts oldest h \<and> advance ts oldest h \<le> length ts \<and>
     drop (advance ts oldest h) ts = dropWhile (\<lambda>t. t \<le> oldest) (drop h ts)"
proof (induction ts oldest h rule: advance.induct)
  case (1 ts oldest h)
  show ?case
  proof (cases "h < length ts \<and> \<not> oldest < ts ! h")
    case True
    then have "drop h ts = ts ! h # drop (Suc h) ts" by (simp add: Cons_nth_drop_Suc)
    with True 1 show ?thesis by (simp add: advance.simps [of ts oldest h])
  next
    case False
    then have "dropWhile (\<lambda>t. t \<le> oldest) (drop h ts) = drop h ts"
      using 1 by (cases "drop h ts") (auto dest: nth_via_drop)
    with False 1 show ?thesis by (subst (1 2 3) advance.simps [of ts oldest h]) auto
  qed
qed

lemma prune_frame [simp]:
  "g_limit (prune g now) = g_limit g" "g_window (prune g now) = g_window g"
  "reserved (prune g now) = reserved g"
  by (simp_all add: prune_def Let_def)

lemma prune_retained:
  assumes "guard_wf g"
  shows "guard_wf (prune g now)"
    and "retained (prune g now) = dropWhile (\<lambda>t. t \<le> now - g_window g) (retained g)"
  using assms advance_spec [of "head g" "timestamps g" "now - g_window g"]
  by (auto simp: prune_def retained_def guard_wf_def Let_def)

lemma live_retained: "guard_wf g \<Longrightarrow> live g = int (length (retained g)) + reserved g"
  by (simp add: live_def retained_def guard_wf_def)

lemma prune_memory:
  assumes "guard_wf g"
  shows "length (timestamps (prune g now)) \<le> max (2 * length (retained (prune g now))) (4096 + length (retained (prune g now)))"
  using assms advance_spec [of "head g" "timestamps g" "now - g_window g"]
  by (auto simp: prune_def retained_def guard_wf_def Let_def)



subsection \<open>The guard in use\<close>

text \<open>
  Any number of goroutines call the guard. Each reads the clock before it takes the lock
  (\<^verbatim>\<open>time.Now()\<close> is an argument of the call), so the stamp \<open>t\<close> a section runs with may be
  older than the clock, and stamps need not arrive in order; but a goroutine reads the stamp
  of its \<^verbatim>\<open>complete\<close> after its own \<^verbatim>\<open>reserve\<close> ran. \<open>pending\<close> holds, for every reservation that
  is out, the clock when it was granted; \<open>recorded\<close> is the history of all invalid responses.
\<close>

record guard_sys =
  grd :: invalidRequestGuard
  clock :: time
  pending :: "time list"
  recorded :: "time list"

inductive guard_step :: "guard_sys \<Rightarrow> guard_sys \<Rightarrow> bool" where
  tick: "clock s \<le> c \<Longrightarrow> guard_step s (s\<lparr>clock := c\<rparr>)"
| look: "t \<le> clock s \<Longrightarrow> guard_step s (s\<lparr>grd := fst (available (grd s) t)\<rparr>)"
| reserve_ok: "t \<le> clock s \<Longrightarrow> guard_reserve (grd s) t = (g, True) \<Longrightarrow>
     guard_step s (s\<lparr>grd := g, pending := clock s # pending s\<rparr>)"
| reserve_refused: "t \<le> clock s \<Longrightarrow> guard_reserve (grd s) t = (g, False) \<Longrightarrow>
     guard_step s (s\<lparr>grd := g\<rparr>)"
| complete_one: "c \<in> set (pending s) \<Longrightarrow> c \<le> t \<Longrightarrow> t \<le> clock s \<Longrightarrow>
     guard_step s (s\<lparr>grd := complete (grd s) t invalid, pending := remove1 c (pending s),
                    recorded := recorded s @ (if invalid then [t] else [])\<rparr>)"

inductive guard_reachable :: "int \<Rightarrow> duration \<Rightarrow> guard_sys \<Rightarrow> bool" for l w where
  start: "guard_reachable l w \<lparr>grd = newInvalidRequestGuard l w, clock = c, pending = [], recorded = []\<rparr>"
| step: "guard_reachable l w s \<Longrightarrow> guard_step s t \<Longrightarrow> guard_reachable l w t"

definition in_window :: "duration \<Rightarrow> time \<Rightarrow> time list \<Rightarrow> nat" where
  \<comment> \<open>how many of the times lie in the window of length \<open>w\<close> that ends at \<open>T\<close>\<close>
  "in_window w T ts = length (filter (\<lambda>t. T - w < t \<and> t \<le> T) ts)"

definition granted_by :: "time \<Rightarrow> time list \<Rightarrow> nat" where
  "granted_by T cs = length (filter (\<lambda>c. c \<le> T) cs)"

definition guard_inv :: "int \<Rightarrow> duration \<Rightarrow> guard_sys \<Rightarrow> bool" where
  "guard_inv l w s \<longleftrightarrow>
     guard_wf (grd s) \<and> g_limit (grd s) = l \<and> g_window (grd s) = w \<and>
     reserved (grd s) = int (length (pending s)) \<and> live (grd s) \<le> l \<and>
     (\<exists>pre. recorded s = pre @ retained (grd s) \<and> (\<forall>t \<in> set pre. t \<le> clock s - w)) \<and>
     (\<forall>T. int (in_window w T (recorded s)) + int (granted_by T (pending s)) \<le> l)"

lemma in_window_simps [simp]:
  "in_window w T [] = 0" "in_window w T (xs @ ys) = in_window w T xs + in_window w T ys"
  "in_window w T [t] = (if T - w < t \<and> t \<le> T then 1 else 0)"
  by (simp_all add: in_window_def)

lemma in_window_le: "in_window w T ts \<le> length ts"
  by (simp add: in_window_def)

lemma in_window_old: "\<forall>t \<in> set ts. t \<le> T - w \<Longrightarrow> in_window w T ts = 0"
  by (induction ts) (auto simp: in_window_def)

lemma granted_by_remove1:
  "c \<in> set cs \<Longrightarrow> granted_by T cs = granted_by T (remove1 c cs) + (if c \<le> T then 1 else 0)"
  by (induction cs) (auto simp: granted_by_def)

lemma granted_by_le: "granted_by T cs \<le> length cs"
  by (simp add: granted_by_def)

text \<open>Pruning with a stamp no later than the clock keeps the invariant.\<close>

lemma prune_inv:
  assumes "guard_wf g" and "recorded s = pre @ retained g" and "\<forall>t \<in> set pre. t \<le> clock s - g_window g"
    and "t \<le> clock s"
  shows "\<exists>pre'. recorded s = pre' @ retained (prune g t) \<and> (\<forall>t \<in> set pre'. t \<le> clock s - g_window g)"
proof -
  let ?old = "\<lambda>u. u \<le> t - g_window g"
  have "recorded s = (pre @ takeWhile ?old (retained g)) @ retained (prune g t)"
    using assms(2) prune_retained(2) [OF assms(1), of t] by simp
  moreover have "\<forall>u \<in> set (pre @ takeWhile ?old (retained g)). u \<le> clock s - g_window g"
    using assms(3,4) by (auto dest!: set_takeWhileD)
  ultimately show ?thesis by blast
qed

lemma live_prune_le: "guard_wf g \<Longrightarrow> live (prune g t) \<le> live g"
  using prune_retained [of g t] length_dropWhile_le [of _ "retained g"]
  by (simp add: live_retained)

lemma guard_inv_prune:
  assumes "guard_inv l w s" and "t \<le> clock s"
  shows "guard_inv l w (s\<lparr>grd := prune (grd s) t\<rparr>)"
proof -
  obtain pre where "recorded s = pre @ retained (grd s)" "\<forall>t \<in> set pre. t \<le> clock s - g_window (grd s)"
    using assms(1) by (auto simp: guard_inv_def)
  then have "\<exists>pre'. recorded s = pre' @ retained (prune (grd s) t) \<and> (\<forall>t \<in> set pre'. t \<le> clock s - g_window (grd s))"
    using assms by (intro prune_inv) (auto simp: guard_inv_def)
  then show ?thesis
    using assms(1) prune_retained(1) [of "grd s" t] live_prune_le [of "grd s" t]
    by (auto simp: guard_inv_def)
qed

lemma guard_inv_reserve:
  assumes inv: "guard_inv l w s" and room: "live (grd s) < l"
  shows "guard_inv l w (s\<lparr>grd := (grd s)\<lparr>reserved := reserved (grd s) + 1\<rparr>, pending := clock s # pending s\<rparr>)"
    (is "guard_inv l w ?t")
proof -
  let ?g = "grd s"
  have wf: "guard_wf ?g" using inv by (simp add: guard_inv_def)
  have ret: "retained (?g\<lparr>reserved := n\<rparr>) = retained ?g" "guard_wf (?g\<lparr>reserved := n\<rparr>)"
    "live (?g\<lparr>reserved := n\<rparr>) = live ?g - reserved ?g + n" for n
    using wf by (simp_all add: retained_def guard_wf_def live_def)
  have win: "int (in_window w T (recorded s)) + int (granted_by T (clock s # pending s)) \<le> l" for T
  proof (cases "clock s \<le> T")
    case True
    obtain pre where pre: "recorded s = pre @ retained ?g" "\<forall>t \<in> set pre. t \<le> clock s - w"
      using inv by (auto simp: guard_inv_def)
    then have "in_window w T pre = 0" using True by (intro in_window_old) auto
    then have "in_window w T (recorded s) \<le> length (retained ?g)"
      using pre(1) in_window_le by simp
    moreover have "granted_by T (clock s # pending s) \<le> Suc (length (pending s))"
      using granted_by_le [of T "clock s # pending s"] by simp
    moreover have "int (length (retained ?g)) + int (length (pending s)) < l"
      using room inv wf by (simp add: guard_inv_def live_retained)
    ultimately show ?thesis by linarith
  next
    case False
    then show ?thesis using inv by (simp add: guard_inv_def granted_by_def)
  qed
  then show ?thesis using inv room ret by (auto simp: guard_inv_def)
qed

lemma guard_inv_finish:
  assumes inv: "guard_inv l w s" and c: "c \<in> set (pending s)" "c \<le> t" "t \<le> clock s"
  shows "guard_inv l w (s\<lparr>grd := (grd s)\<lparr>reserved := reserved (grd s) - 1,
                             timestamps := timestamps (grd s) @ (if invalid then [t] else [])\<rparr>,
                         pending := remove1 c (pending s),
                         recorded := recorded s @ (if invalid then [t] else [])\<rparr>)"
    (is "guard_inv l w ?t")
proof -
  let ?g = "grd s" and ?new = "if invalid then [t] else []"
  have wf: "guard_wf ?g" using inv by (simp add: guard_inv_def)
  have ret: "retained (grd ?t) = retained ?g @ ?new" "guard_wf (grd ?t)"
    using wf by (simp_all add: retained_def guard_wf_def)
  have len: "length (pending s) = Suc (length (remove1 c (pending s)))"
    using c(1) by (simp add: length_remove1) (metis Suc_pred length_pos_if_in_set)
  have res: "reserved (grd ?t) = int (length (pending ?t))"
    using inv len by (simp add: guard_inv_def)
  have live: "live (grd ?t) \<le> l"
    using inv wf ret by (simp add: guard_inv_def live_retained)
  have "int (in_window w T (recorded s @ ?new)) + int (granted_by T (remove1 c (pending s))) \<le> l" for T
    using inv granted_by_remove1 [OF c(1), of T] c(2)
    by (auto simp: guard_inv_def split: if_splits dest!: spec [of _ T])
  moreover obtain pre where "recorded s = pre @ retained ?g" "\<forall>t \<in> set pre. t \<le> clock s - w"
    using inv by (auto simp: guard_inv_def)
  then have "\<exists>pre. recorded ?t = pre @ retained (grd ?t) \<and> (\<forall>t \<in> set pre. t \<le> clock ?t - w)"
    using ret(1) by auto
  ultimately show ?thesis
    using inv ret(2) res live by (simp add: guard_inv_def)
qed

lemma complete_eq:
  "complete g now invalid =
     prune (g\<lparr>reserved := reserved g - 1, timestamps := timestamps g @ (if invalid then [now] else [])\<rparr>) now"
  by (simp add: complete_def Let_def)

lemma guard_inv_live:
  assumes "guard_inv l w s"
  shows "int (length (retained (grd s))) + reserved (grd s) \<le> l" and "0 \<le> reserved (grd s)"
proof -
  have "live (grd s) = int (length (retained (grd s))) + reserved (grd s)"
    using assms by (intro live_retained) (simp add: guard_inv_def)
  then show "int (length (retained (grd s))) + reserved (grd s) \<le> l"
    using assms by (simp add: guard_inv_def)
  show "0 \<le> reserved (grd s)" using assms by (simp add: guard_inv_def)
qed

lemma guard_step_inv: "guard_step s t \<Longrightarrow> guard_inv l w s \<Longrightarrow> guard_inv l w t"
proof (induction rule: guard_step.induct)
  case (tick s c)
  then show ?case by (fastforce simp: guard_inv_def)
next
  case (look t s)
  then show ?case using guard_inv_prune by (simp add: available_def Let_def)
next
  case (reserve_ok t s g)
  let ?p = "prune (grd s) t"
  have inv: "guard_inv l w (s\<lparr>grd := ?p\<rparr>)" using reserve_ok guard_inv_prune by blast
  have "live ?p < l" "g = ?p\<lparr>reserved := reserved ?p + 1\<rparr>"
    using reserve_ok inv by (auto simp: guard_reserve_def Let_def guard_inv_def split: if_splits)
  with guard_inv_reserve [OF inv] show ?case by simp
next
  case (reserve_refused t s g)
  then have "g = prune (grd s) t" by (auto simp: guard_reserve_def Let_def split: if_splits)
  with reserve_refused guard_inv_prune show ?case by blast
next
  case (complete_one c s t invalid)
  let ?new = "if invalid then [t] else []"
  let ?h = "(grd s)\<lparr>reserved := reserved (grd s) - 1, timestamps := timestamps (grd s) @ ?new\<rparr>"
  let ?s = "s\<lparr>grd := ?h, pending := remove1 c (pending s), recorded := recorded s @ ?new\<rparr>"
  have "guard_inv l w ?s" using guard_inv_finish complete_one by blast
  then have "guard_inv l w (?s\<lparr>grd := prune (grd ?s) t\<rparr>)"
    using complete_one.hyps by (intro guard_inv_prune) simp_all
  then show ?case by (cases s; cases invalid) (simp_all add: complete_eq)
qed

lemma guard_reachable_inv: "guard_reachable l w s \<Longrightarrow> 0 \<le> l \<Longrightarrow> guard_inv l w s"
proof (induction rule: guard_reachable.induct)
  case (start c)
  then show ?case
    by (simp add: guard_inv_def newInvalidRequestGuard_def guard_wf_def live_def retained_def granted_by_def)
next
  case (step s t)
  then show ?case using guard_step_inv by blast
qed

lemma guard_memory_step:
  assumes "guard_step s t" and "guard_wf (grd s)"
  shows "timestamps (grd t) = timestamps (grd s) \<or>
         length (timestamps (grd t)) \<le> max (2 * length (retained (grd t))) (4096 + length (retained (grd t)))"
  using assms
proof (induction rule: guard_step.induct)
  case (look t s)
  then show ?case using prune_memory by (simp add: available_def Let_def)
next
  case (reserve_ok t s g)
  then have "g = (prune (grd s) t)\<lparr>reserved := reserved (prune (grd s) t) + 1\<rparr>"
    by (auto simp: guard_reserve_def Let_def split: if_splits)
  then show ?case using prune_memory [OF reserve_ok.prems, of t] by (simp add: retained_def)
next
  case (reserve_refused t s g)
  then have "g = prune (grd s) t" by (auto simp: guard_reserve_def Let_def split: if_splits)
  then show ?case using prune_memory [OF reserve_refused.prems, of t] by simp
next
  case (complete_one c s t invalid)
  let ?h = "(grd s)\<lparr>reserved := reserved (grd s) - 1, timestamps := timestamps (grd s) @ (if invalid then [t] else [])\<rparr>"
  have "guard_wf ?h" using complete_one.prems by (simp add: guard_wf_def)
  from prune_memory [OF this, of t] show ?case by (cases invalid) (simp_all add: complete_eq)
qed simp

lemma guard_reachable_memory:
  "guard_reachable l w s \<Longrightarrow> 0 \<le> l \<Longrightarrow> int (length (timestamps (grd s))) \<le> max (2 * l) (4096 + l)"
proof (induction rule: guard_reachable.induct)
  case (start c)
  then show ?case by (simp add: newInvalidRequestGuard_def)
next
  case (step s t)
  have inv: "guard_inv l w s" "guard_inv l w t"
    using step.hyps step.prems guard_reachable_inv guard_step_inv by blast+
  then have "int (length (retained (grd t))) \<le> l"
    using guard_inv_live [OF inv(2)] by linarith
  with guard_memory_step [OF step.hyps(2)] inv(1) step.IH [OF step.prems] show ?case
    by (auto simp: guard_inv_def)
qed


subsection \<open>Properties\<close>

text \<open>
  The safety budget: with any number of goroutines, clock readings that may be stale when
  the lock is taken, and any mix of valid and invalid responses, no window of the configured
  length ever holds more recorded invalid responses than the limit, and those recorded in it
  plus the attempts that are out never exceed the limit either.
\<close>

theorem invalid_responses_bounded:
  assumes "guard_reachable l w s" and "0 \<le> l"
  shows "int (in_window w T (recorded s)) \<le> l \<and>
         int (in_window w (clock s) (recorded s)) + reserved (grd s) \<le> l"
proof -
  have inv: "guard_inv l w s" using assms by (rule guard_reachable_inv)
  have all: "int (in_window w T (recorded s)) + int (granted_by T (pending s)) \<le> l" for T
    using inv by (simp add: guard_inv_def)
  obtain pre where pre: "recorded s = pre @ retained (grd s)" "\<forall>t \<in> set pre. t \<le> clock s - w"
    using inv by (auto simp: guard_inv_def)
  then have "in_window w (clock s) (recorded s) \<le> length (retained (grd s))"
    using in_window_old [of pre "clock s" w] in_window_le by simp
  moreover have "int (length (retained (grd s))) + reserved (grd s) \<le> l"
    using inv by (rule guard_inv_live)
  ultimately show ?thesis using all [of T] by linarith
qed

text \<open>
  Bounded memory: the slice of timestamps, dead entries in front of \<^verbatim>\<open>head\<close> included, never
  grows beyond \<open>max (2 * limit) (limit + 4096)\<close> entries.
\<close>

theorem guard_memory_bounded:
  assumes "guard_reachable l w s" and "0 \<le> l"
  shows "int (length (timestamps (grd s))) \<le> max (2 * l) (4096 + l)"
  using assms by (rule guard_reachable_memory)

text \<open>
  The guard decides as its specification says, which knows neither the index nor the
  compaction: the retained times after a call are those of before without the expired front,
  and \<^verbatim>\<open>reserve\<close> succeeds exactly if the retained times and the reservations leave a slot. In
  particular capacity comes back by itself: once every retained time is out of the window,
  \<^verbatim>\<open>reserve\<close> succeeds if fewer reservations than the limit are out.
\<close>

theorem guard_reserve_spec:
  assumes "guard_wf g"
  shows "(snd (guard_reserve g now) \<longleftrightarrow>
            int (length (dropWhile (\<lambda>t. t \<le> now - g_window g) (retained g))) + reserved g < g_limit g) \<and>
         retained (fst (guard_reserve g now)) = dropWhile (\<lambda>t. t \<le> now - g_window g) (retained g) \<and>
         reserved (fst (guard_reserve g now)) = reserved g + (if snd (guard_reserve g now) then 1 else 0) \<and>
         ((\<forall>t \<in> set (retained g). t \<le> now - g_window g) \<and> reserved g < g_limit g \<longrightarrow> snd (guard_reserve g now))"
proof -
  note p = prune_retained [OF assms, of now]
  have live: "live (prune g now) = int (length (dropWhile (\<lambda>t. t \<le> now - g_window g) (retained g))) + reserved g"
    using p by (simp add: live_retained)
  have "live (prune g now) = reserved g" if "\<forall>t \<in> set (retained g). t \<le> now - g_window g"
  proof -
    have "dropWhile (\<lambda>t. t \<le> now - g_window g) (retained g) = []" using that by simp
    with live show ?thesis by simp
  qed
  moreover have iff: "snd (guard_reserve g now) \<longleftrightarrow> live (prune g now) < g_limit g"
    by (simp add: guard_reserve_def Let_def not_le)
  ultimately have "(\<forall>t \<in> set (retained g). t \<le> now - g_window g) \<and> reserved g < g_limit g \<longrightarrow> snd (guard_reserve g now)"
    by simp
  moreover have "retained (fst (guard_reserve g now)) = retained (prune g now)"
    "reserved (fst (guard_reserve g now)) = reserved g + (if snd (guard_reserve g now) then 1 else 0)"
    by (simp_all add: guard_reserve_def Let_def retained_def)
  ultimately show ?thesis using iff live p(2) by simp
qed

end
