(* ===== verification/Cooldown.thy ===== *)
theory Cooldown
  imports Nirn_Prelude "HOL-Library.Multiset"
begin

section \<open>The interface of a cooldown\<close>

text \<open>
  A bucket and a pacer both carry an instant before which nothing may be sent, and a channel
  that is replaced whenever that instant moves. The contract: a block moves the instant to
  the later of the two, and replaces the channel exactly if it moved it. What the waiting
  goroutines get from it: blocks may be set in any order, none shortens the cooldown, and a
  goroutine whose channel was not closed still holds the current instant.
\<close>

locale cooldown =
  fixes block :: "'s \<Rightarrow> 'e \<Rightarrow> 's"
    and target :: "'e \<Rightarrow> time"
    and until :: "'s \<Rightarrow> time"
    and generation :: "'s \<Rightarrow> nat"
    and retry_after :: "'s \<Rightarrow> time \<Rightarrow> duration"
  assumes until_block: "until (block s e) = max (until s) (target e)"
    and generation_block: "generation (block s e) = generation s + (if until s < target e then 1 else 0)"
    and retry_after_eq: "retry_after s now = (if now < until s then time_Sub (until s) now else 0)"
begin

lemma until_fold: "until (fold (\<lambda>e s. block s e) es s) = fold max (map target es) (until s)"
proof (induction es arbitrary: s)
  case (Cons e es)
  then show ?case by (simp add: until_block max.commute)
qed simp

lemma until_fold_mono: "until s \<le> until (fold (\<lambda>e s. block s e) es s)"
proof (induction es arbitrary: s)
  case (Cons e es)
  have "until s \<le> until (block s e)" by (simp add: until_block)
  also have "\<dots> \<le> until (fold (\<lambda>e s. block s e) es (block s e))" by (rule Cons.IH)
  finally show ?case by simp
qed simp

lemma until_fold_ge: "e \<in> set es \<Longrightarrow> target e \<le> until (fold (\<lambda>e s. block s e) es s)"
proof (induction es arbitrary: s)
  case (Cons x es)
  show ?case
  proof (cases "e \<in> set es")
    case True
    then show ?thesis using Cons.IH by simp
  next
    case False
    then have "target e \<le> until (block s x)" using Cons.prems by (auto simp: until_block)
    also have "\<dots> \<le> until (fold (\<lambda>e s. block s e) es (block s x))" by (rule until_fold_mono)
    finally show ?thesis by simp
  qed
qed simp

lemma until_fold_least:
  "until s \<le> b \<Longrightarrow> (\<And>e. e \<in> set es \<Longrightarrow> target e \<le> b) \<Longrightarrow> until (fold (\<lambda>e s. block s e) es s) \<le> b"
  by (induction es arbitrary: s) (auto simp: until_block)

lemma order_irrelevant:
  assumes "mset es = mset es'"
  shows "until (fold (\<lambda>e s. block s e) es s) = until (fold (\<lambda>e s. block s e) es' s)"
proof -
  have "set es = set es'" using assms by (rule mset_eq_setD)
  then show ?thesis
    by (intro order_antisym until_fold_least) (auto intro: until_fold_ge until_fold_mono)
qed

lemma generation_fold_mono: "generation s \<le> generation (fold (\<lambda>e s. block s e) es s)"
proof (induction es arbitrary: s)
  case (Cons e es)
  have "generation s \<le> generation (block s e)" by (simp add: generation_block)
  also have "\<dots> \<le> generation (fold (\<lambda>e s. block s e) es (block s e))" by (rule Cons.IH)
  finally show ?case by simp
qed simp

lemma unnoticed_unchanged:
  "generation (fold (\<lambda>e s. block s e) es s) = generation s \<Longrightarrow> until (fold (\<lambda>e s. block s e) es s) = until s"
proof (induction es arbitrary: s)
  case (Cons e es)
  then have eq: "generation (fold (\<lambda>e s. block s e) es (block s e)) = generation s" by simp
  with generation_fold_mono [of "block s e" es] have "generation (block s e) \<le> generation s" by simp
  then have same: "\<not> until s < target e" by (auto simp: generation_block split: if_splits)
  then have "generation (block s e) = generation s" "until (block s e) = until s"
    by (simp_all add: generation_block until_block)
  with Cons.IH [of "block s e"] eq show ?case by simp
qed simp

lemma retry_after_pos: "0 < retry_after s now \<longleftrightarrow> now < until s"
  by (simp add: retry_after_eq)

end

end
