(* ===== verification/Pacer.thy ===== *)
theory Pacer
  imports Gate Cooldown
begin

section \<open>The global pacer\<close>

text \<open>
  \<^verbatim>\<open>pacer\<close> of \<^verbatim>\<open>internal/proxy/ratelimit.go\<close>: it spaces the requests of one credential evenly
  and holds them back while Discord's global limit is in force. \<open>pacer_poll\<close> is the section of
  \<^verbatim>\<open>waitFor\<close> under \<^verbatim>\<open>p.mu\<close>; \<open>waitFor_loop\<close> is the loop around it, over the observations the
  environment supplies (context, clock readings, blocks set meanwhile by other goroutines,
  what ended the sleep); \<open>waitFor\<close> puts the FIFO gate around the loop. The wake-up channel is
  the number of times it was replaced.
\<close>

subsection \<open>State and operations\<close>

definition discordGlobalLimit :: nat where "discordGlobalLimit = 50"
definition minimumRetryDelay :: duration where "minimumRetryDelay = 50 * Millisecond"
definition globalPacingSlack :: int where "globalPacingSlack = 200"

record pacer =
  p_gate :: fifoGate
  interval :: duration
  p_next :: time
  blockedUntil :: time
  p_wake :: nat

definition pacing_interval :: "nat \<Rightarrow> duration" where
  \<comment> \<open>integer division of positive operands: rounding down, as in Go\<close>
  "pacing_interval lim =
     (let i = (Second + int lim - 1) div int lim in i + i div globalPacingSlack)"

definition newPacer :: "nat \<Rightarrow> int \<Rightarrow> pacer" where
  "newPacer lim maxw =
     (let lim' = (if lim = 0 then discordGlobalLimit else lim) in
      \<lparr>p_gate = newFIFOGate maxw, interval = pacing_interval lim', p_next = time_zero,
       blockedUntil = time_zero, p_wake = 0\<rparr>)"

datatype poll_result = Granted | MustWait time duration

definition pacer_poll :: "pacer \<Rightarrow> time \<Rightarrow> pacer \<times> poll_result" where
  "pacer_poll p now =
     (let readyAt = (if p_next p < blockedUntil p then blockedUntil p else p_next p) in
      if \<not> (now < readyAt) then (p\<lparr>p_next := now + interval p\<rparr>, Granted)
      else (p, MustWait readyAt (time_Sub (blockedUntil p) now)))"

definition blockFor :: "pacer \<Rightarrow> duration \<Rightarrow> time \<Rightarrow> pacer" where
  "blockFor p delay now =
     (let delay' = (if delay < minimumRetryDelay then minimumRetryDelay else delay);
          readyAt = now + delay'
      in if blockedUntil p < readyAt then p\<lparr>blockedUntil := readyAt, p_wake := Suc (p_wake p)\<rparr> else p)"

definition pacer_retryAfter :: "pacer \<Rightarrow> time \<Rightarrow> duration" where
  "pacer_retryAfter p now =
     (if \<not> (now < blockedUntil p) then 0 else time_Sub (blockedUntil p) now)"

definition pacer_blocked :: "pacer \<Rightarrow> time \<Rightarrow> bool" where
  "pacer_blocked p now \<longleftrightarrow> 0 < pacer_retryAfter p now"

text \<open>
  One iteration of the loop as the environment shows it: \<^verbatim>\<open>ctx.Err()\<close>, the blocks other
  goroutines set since the last one (delay and time), \<^verbatim>\<open>time.Now()\<close> under the lock, the clock
  reading of \<^verbatim>\<open>time.Until(deadline)\<close>, and the event that ends the sleep.
\<close>

record pacer_obs =
  po_ctx :: "ctx_err option"
  po_blocks :: "(duration \<times> time) list"
  po_now :: time
  po_now_deadline :: time
  po_event :: wake_event

definition apply_blocks :: "pacer \<Rightarrow> (duration \<times> time) list \<Rightarrow> pacer" where
  "apply_blocks p bs = fold (\<lambda>(d, t) p. blockFor p d t) bs p"

fun waitFor_loop ::
  "time option \<Rightarrow> duration \<Rightarrow> pacer \<Rightarrow> pacer_obs list \<Rightarrow> (pacer \<times> (ctx_err + duration)) option" where
  "waitFor_loop deadline rsv p [] = None"
| "waitFor_loop deadline rsv p (ob # obs) =
     (case po_ctx ob of
        Some e \<Rightarrow> Some (p, Inl e)
      | None \<Rightarrow>
          (case pacer_poll (apply_blocks p (po_blocks ob)) (po_now ob) of
             (p', Granted) \<Rightarrow> Some (p', Inr 0)
           | (p', MustWait readyAt blockedDelay) \<Rightarrow>
               if 0 < blockedDelay \<and> misses_deadline deadline blockedDelay rsv (po_now_deadline ob)
               then Some (p', Inr blockedDelay)
               else (case po_event ob of
                       CtxDone e \<Rightarrow> Some (p', Inl e)
                     | TimerFired \<Rightarrow> waitFor_loop deadline rsv p' obs
                     | WakeClosed \<Rightarrow> waitFor_loop deadline rsv p' obs)))"

definition waitFor ::
  "gate_error option \<Rightarrow> time option \<Rightarrow> duration \<Rightarrow> pacer \<Rightarrow> pacer_obs list \<Rightarrow>
     (pacer \<times> (gate_error + duration)) option" where
  \<comment> \<open>the first argument is what \<^verbatim>\<open>p.gate.acquire(ctx)\<close> returned; the deferred release ends the call\<close>
  "waitFor acq deadline rsv p obs =
     (case acq of
        Some e \<Rightarrow> Some (p, Inl e)
      | None \<Rightarrow>
          (case waitFor_loop deadline rsv p obs of
             None \<Rightarrow> None
           | Some (p', r) \<Rightarrow> Some (p'\<lparr>p_gate := fst (gate_release (p_gate p'))\<rparr>, map_sum ErrCtx id r)))"

text \<open>\<^verbatim>\<open>wait\<close>: \<^verbatim>\<open>waitFor\<close> without a reserve; a delay that misses the deadline is waited out until the context ends.\<close>

definition pacer_wait_result :: "ctx_err \<Rightarrow> ctx_err + duration \<Rightarrow> ctx_err option" where
  "pacer_wait_result ctx_end r =
     (case r of Inl e \<Rightarrow> Some e | Inr d \<Rightarrow> if d = 0 then None else Some ctx_end)"


subsection \<open>Arithmetic of the interval\<close>

lemma pacing_interval_covers:
  assumes "0 < lim"
  shows "Second \<le> pacing_interval lim * int lim" and "0 < pacing_interval lim"
proof -
  let ?i = "(Second + int lim - 1) div int lim"
  have pos: "0 < int lim" using assms by simp
  have "Second + int lim - 1 - (Second + int lim - 1) mod int lim = ?i * int lim"
    by (simp add: minus_mod_eq_div_mult)
  moreover have "(Second + int lim - 1) mod int lim < int lim" using pos by simp
  ultimately have "Second \<le> ?i * int lim" by linarith
  moreover have i: "0 < ?i" using pos by (simp add: pos_imp_zdiv_pos_iff Second_def)
  moreover have le: "?i \<le> pacing_interval lim"
    using i by (simp add: pacing_interval_def Let_def globalPacingSlack_def pos_imp_zdiv_nonneg_iff)
  ultimately show "0 < pacing_interval lim" and "Second \<le> pacing_interval lim * int lim"
    using pos by (auto intro: order_trans mult_right_mono)
qed

lemma newPacer_interval:
  "interval (newPacer lim maxw) = pacing_interval (if lim = 0 then 50 else lim)"
  by (simp add: newPacer_def Let_def discordGlobalLimit_def)


subsection \<open>Blocks and grants\<close>

lemma blockFor_simps [simp]:
  "interval (blockFor p d t) = interval p" "p_next (blockFor p d t) = p_next p"
  "p_gate (blockFor p d t) = p_gate p"
  "blockedUntil (blockFor p d t) = max (blockedUntil p) (t + max d minimumRetryDelay)"
  by (auto simp: blockFor_def Let_def)

interpretation pc: cooldown "\<lambda>p (d, t). blockFor p d t" "\<lambda>(d, t). t + max d minimumRetryDelay"
  blockedUntil p_wake pacer_retryAfter
  by unfold_locales (auto simp: blockFor_def pacer_retryAfter_def Let_def)

lemma apply_blocks_fold: "apply_blocks p bs = fold (\<lambda>b p. case b of (d, t) \<Rightarrow> blockFor p d t) bs p"
  by (simp add: apply_blocks_def split_def)

lemmas apply_blocks_mono = pc.until_fold_mono [folded apply_blocks_fold]

lemma apply_blocks_simps [simp]:
  "interval (apply_blocks p bs) = interval p" "p_next (apply_blocks p bs) = p_next p"
  "p_gate (apply_blocks p bs) = p_gate p"
  by (induction bs arbitrary: p) (auto simp: apply_blocks_def)

lemma pacer_poll_granted:
  "pacer_poll p now = (p', Granted) \<longleftrightarrow>
     p_next p \<le> now \<and> blockedUntil p \<le> now \<and> p' = p\<lparr>p_next := now + interval p\<rparr>"
  by (auto simp: pacer_poll_def Let_def)

lemma pacer_poll_waits:
  "pacer_poll p now = (p', MustWait r d) \<longleftrightarrow>
     now < max (p_next p) (blockedUntil p) \<and> p' = p \<and> r = max (p_next p) (blockedUntil p) \<and>
     d = time_Sub (blockedUntil p) now"
  by (auto simp: pacer_poll_def Let_def)

lemma waitFor_loop_granted:
  assumes "waitFor_loop deadline rsv p obs = Some (p', Inr 0)"
  shows "\<exists>ob \<in> set obs. p_next p \<le> po_now ob \<and> p_next p' = po_now ob + interval p \<and>
           blockedUntil p \<le> blockedUntil p' \<and> blockedUntil p' \<le> po_now ob \<and> interval p' = interval p"
  using assms
proof (induction obs arbitrary: p)
  case Nil
  then show ?case by simp
next
  case (Cons ob obs)
  let ?q = "apply_blocks p (po_blocks ob)"
  have ctx: "po_ctx ob = None" using Cons.prems by (auto split: option.splits)
  show ?case
  proof (cases "pacer_poll ?q (po_now ob)")
    case (Pair q r)
    show ?thesis
    proof (cases r)
      case Granted
      with Pair have q: "p_next p \<le> po_now ob" "blockedUntil ?q \<le> po_now ob"
        "q = ?q\<lparr>p_next := po_now ob + interval p\<rparr>"
        by (auto simp: pacer_poll_granted)
      have "p' = q" using Cons.prems ctx Pair Granted by simp
      with q apply_blocks_mono [of p "po_blocks ob"] show ?thesis by (intro bexI [of _ ob]) simp_all
    next
      case (MustWait rr d)
      with Pair have q: "q = ?q" by (simp add: pacer_poll_waits)
      have "waitFor_loop deadline rsv ?q obs = Some (p', Inr 0)"
        using Cons.prems ctx Pair MustWait q by (auto split: if_splits wake_event.splits)
      from Cons.IH [OF this] apply_blocks_mono [of p "po_blocks ob"] show ?thesis by auto
    qed
  qed
qed

lemma waitFor_loop_delay:
  assumes "waitFor_loop deadline rsv p obs = Some (p', Inr d)" and "d \<noteq> 0"
  shows "0 < d \<and> (\<exists>ob \<in> set obs. misses_deadline deadline d rsv (po_now_deadline ob) \<and>
           po_now ob < blockedUntil p' \<and> d = time_Sub (blockedUntil p') (po_now ob) \<and> p_next p' = p_next p)"
  using assms(1)
proof (induction obs arbitrary: p)
  case Nil
  then show ?case by simp
next
  case (Cons ob obs)
  let ?q = "apply_blocks p (po_blocks ob)"
  have ctx: "po_ctx ob = None" using Cons.prems by (auto split: option.splits)
  obtain q r where Pair: "pacer_poll ?q (po_now ob) = (q, r)" by force
  with Cons.prems ctx assms(2) obtain rr b where r: "r = MustWait rr b" by (cases r) auto
  with Pair have q: "q = ?q" "b = time_Sub (blockedUntil ?q) (po_now ob)"
    by (simp_all add: pacer_poll_waits)
  show ?case
  proof (cases "0 < b \<and> misses_deadline deadline b rsv (po_now_deadline ob)")
    case True
    with Cons.prems ctx Pair r have "p' = q" "d = b" by simp_all
    with True q show ?thesis by (intro conjI bexI [of _ ob]) simp_all
  next
    case False
    then have "waitFor_loop deadline rsv ?q obs = Some (p', Inr d)"
      using Cons.prems ctx Pair r q by (auto split: if_splits wake_event.splits)
    from Cons.IH [OF this] show ?thesis by auto
  qed
qed

text \<open>
  The loop returns no later than the first iteration that sees the context ended, or the
  clock past the next slot and past every block set so far.
\<close>

lemma apply_blocks_append: "apply_blocks p (bs @ cs) = apply_blocks (apply_blocks p bs) cs"
  by (simp add: apply_blocks_def)

lemma waitFor_loop_returns:
  assumes "i < length obs" and "po_ctx (obs ! i) \<noteq> None \<or> (\<exists>e. po_event (obs ! i) = CtxDone e) \<or>
      p_next p \<le> po_now (obs ! i) \<and>
      blockedUntil (apply_blocks p (concat (map po_blocks (take (Suc i) obs)))) \<le> po_now (obs ! i)"
  shows "\<exists>r. waitFor_loop deadline rsv p obs = Some r"
  using assms
proof (induction obs arbitrary: i p)
  case Nil
  then show ?case by simp
next
  case (Cons ob obs)
  let ?q = "apply_blocks p (po_blocks ob)"
  obtain q r where Pair: "pacer_poll ?q (po_now ob) = (q, r)" by force
  show ?case
  proof (cases r)
    case Granted
    with Pair show ?thesis by (auto split: option.splits)
  next
    case (MustWait rr d)
    with Pair have q: "q = ?q" "po_now ob < max (p_next p) (blockedUntil ?q)"
      by (simp_all add: pacer_poll_waits)
    show ?thesis
    proof (cases i)
      case 0
      with Cons.prems q Pair MustWait show ?thesis by (auto split: option.splits wake_event.splits)
    next
      case (Suc k)
      then have "\<exists>x. waitFor_loop deadline rsv ?q obs = Some x"
        using Cons.prems by (intro Cons.IH [of k]) (auto simp: apply_blocks_append)
      with Pair MustWait q(1) show ?thesis by (auto split: option.splits wake_event.splits)
    qed
  qed
qed


subsection \<open>The pacer in use\<close>

text \<open>
  Goroutines poll and block the pacer in any order; both read the clock under \<^verbatim>\<open>p.mu\<close>. The
  history lists the grants and the blocks in the order they happened.
\<close>

datatype pacer_event = Grant time | Block time

record pacer_sys =
  pcr :: pacer
  p_clock :: time
  p_hist :: "pacer_event list"

inductive pacer_step :: "pacer_sys \<Rightarrow> pacer_sys \<Rightarrow> bool" where
  p_tick: "p_clock s \<le> c \<Longrightarrow> pacer_step s (s\<lparr>p_clock := c\<rparr>)"
| p_grant: "pacer_poll (pcr s) (p_clock s) = (p', Granted) \<Longrightarrow>
     pacer_step s (s\<lparr>pcr := p', p_hist := p_hist s @ [Grant (p_clock s)]\<rparr>)"
| p_denied: "pacer_poll (pcr s) (p_clock s) = (p', MustWait r d) \<Longrightarrow> pacer_step s (s\<lparr>pcr := p'\<rparr>)"
| p_block: "pacer_step s (s\<lparr>pcr := blockFor (pcr s) d (p_clock s),
     p_hist := p_hist s @ [Block (p_clock s + max d minimumRetryDelay)]\<rparr>)"

inductive pacer_reachable :: "nat \<Rightarrow> int \<Rightarrow> pacer_sys \<Rightarrow> bool" for lim maxw where
  p_start: "pacer_reachable lim maxw \<lparr>pcr = newPacer lim maxw, p_clock = c, p_hist = []\<rparr>"
| p_next_step: "pacer_reachable lim maxw s \<Longrightarrow> pacer_step s t \<Longrightarrow> pacer_reachable lim maxw t"

fun paced :: "duration \<Rightarrow> pacer_event \<Rightarrow> pacer_event \<Rightarrow> bool" where
  "paced d (Grant a) (Grant b) = (a + d \<le> b)"
| "paced d (Block u) (Grant b) = (u \<le> b)"
| "paced d e (Block u) = True"

definition pacer_inv :: "duration \<Rightarrow> pacer_sys \<Rightarrow> bool" where
  "pacer_inv d s \<longleftrightarrow> 0 < d \<and> interval (pcr s) = d \<and> sorted_wrt (paced d) (p_hist s) \<and>
     (\<forall>a. Grant a \<in> set (p_hist s) \<longrightarrow> a + d \<le> p_next (pcr s)) \<and>
     (\<forall>u. Block u \<in> set (p_hist s) \<longrightarrow> u \<le> blockedUntil (pcr s))"

lemma pacer_inv_grant:
  assumes "pacer_inv d s" and "p_next (pcr s) \<le> now" and "blockedUntil (pcr s) \<le> now"
  shows "pacer_inv d (s\<lparr>pcr := (pcr s)\<lparr>p_next := now + interval (pcr s)\<rparr>, p_hist := p_hist s @ [Grant now]\<rparr>)"
proof -
  have "paced d e (Grant now)" if "e \<in> set (p_hist s)" for e
    using assms that by (cases e) (force simp: pacer_inv_def)+
  moreover have "a \<le> now" if "Grant a \<in> set (p_hist s)" for a
    using assms that by (force simp: pacer_inv_def)
  ultimately show ?thesis
    using assms by (auto simp: pacer_inv_def sorted_wrt_append)
qed

lemma pacer_step_inv: "pacer_step s t \<Longrightarrow> pacer_inv d s \<Longrightarrow> pacer_inv d t"
proof (induction rule: pacer_step.induct)
  case (p_grant s p')
  then show ?case using pacer_inv_grant by (simp add: pacer_poll_granted)
next
  case (p_denied s p' r d)
  then show ?case by (simp add: pacer_poll_waits pacer_inv_def)
next
  case (p_block s d)
  then show ?case by (auto simp: pacer_inv_def sorted_wrt_append)
qed (simp add: pacer_inv_def)

lemma pacer_reachable_inv:
  "pacer_reachable lim maxw s \<Longrightarrow> pacer_inv (interval (newPacer lim maxw)) s"
proof (induction rule: pacer_reachable.induct)
  case (p_start c)
  show ?case
    using pacing_interval_covers(2) [of 50] pacing_interval_covers(2) [of lim]
    by (simp add: pacer_inv_def newPacer_interval)
next
  case (p_next_step s t)
  then show ?case using pacer_step_inv by blast
qed

definition grant_times :: "pacer_event list \<Rightarrow> time list" where
  "grant_times h = List.map_filter (\<lambda>e. case e of Grant a \<Rightarrow> Some a | Block _ \<Rightarrow> None) h"

lemma grant_times_simps [simp]:
  "grant_times [] = []" "grant_times (Grant a # h) = a # grant_times h"
  "grant_times (Block u # h) = grant_times h"
  by (simp_all add: grant_times_def List.map_filter_simps)

lemma set_grant_times: "a \<in> set (grant_times h) \<longleftrightarrow> Grant a \<in> set h"
proof (induction h)
  case (Cons e h)
  then show ?case by (cases e) auto
qed simp

lemma grant_times_spaced:
  "sorted_wrt (paced d) h \<Longrightarrow> sorted_wrt (\<lambda>a b. a + d \<le> b) (grant_times h)"
proof (induction h)
  case (Cons e h)
  show ?case
  proof (cases e)
    case (Grant a)
    have "a + d \<le> b" if "Grant b \<in> set h" for b
      using Cons.prems that Grant by (auto dest!: bspec [of _ _ "Grant b"])
    with Cons Grant show ?thesis by (auto simp: set_grant_times)
  qed (use Cons in auto)
qed simp

lemma sorted_wrt_filter_spaced:
  "sorted_wrt P xs \<Longrightarrow> sorted_wrt P (filter Q xs)"
  by (induction xs) auto

lemma spaced_span:
  fixes d :: int
  assumes "sorted_wrt (\<lambda>a b. a + d \<le> b) (x # xs)" and "0 \<le> d"
  shows "x + d * int (length xs) \<le> last (x # xs)"
  using assms(1)
proof (induction xs arbitrary: x)
  case (Cons y ys)
  then have "y + d * int (length ys) \<le> last (y # ys)" and "x + d \<le> y" by auto
  then show ?case by (simp add: algebra_simps)
qed simp

lemma spaced_window:
  fixes d :: int
  assumes sp: "sorted_wrt (\<lambda>a b. a + d \<le> b) ts" and "0 < d" and "len \<le> d * int n" and "0 < len"
  shows "length (filter (\<lambda>t. T \<le> t \<and> t < T + len) ts) \<le> n"
proof (cases "filter (\<lambda>t. T \<le> t \<and> t < T + len) ts")
  case (Cons x xs)
  have "sorted_wrt (\<lambda>a b. a + d \<le> b) (x # xs)"
    using sorted_wrt_filter_spaced [OF sp, of "\<lambda>t. T \<le> t \<and> t < T + len"] Cons by simp
  then have span: "x + d * int (length xs) \<le> last (x # xs)" using \<open>0 < d\<close> by (intro spaced_span) auto
  have "set (x # xs) \<subseteq> {T ..< T + len}"
    using Cons [symmetric] by auto
  then have "T \<le> x" and "last (x # xs) < T + len"
    using last_in_set [of "x # xs"] by auto
  with span have "d * int (length xs) < d * int n" using assms(3) by linarith
  then have "length xs < n" using \<open>0 < d\<close> by simp
  then show ?thesis using Cons by simp
qed simp


subsection \<open>Properties\<close>

text \<open>
  A run for the witnesses: at time 1000 the first request is granted, the second is denied,
  then Discord reports a global limit of 70 milliseconds.
\<close>

definition pacer_example :: pacer_sys where
  "pacer_example =
     \<lparr>pcr = blockFor ((newPacer 50 8)\<lparr>p_next := 20101000\<rparr>) (70 * Millisecond) 1000, p_clock = 1000,
      p_hist = [Grant 1000, Block 70001000]\<rparr>"

lemma pacing_interval_50: "pacing_interval 50 = 20100000"
  by (simp add: pacing_interval_def Second_def globalPacingSlack_def)

lemma pacer_example_reachable: "pacer_reachable 50 8 pacer_example"
proof -
  have r0: "pacer_reachable 50 8 \<lparr>pcr = newPacer 50 8, p_clock = 1000, p_hist = []\<rparr>"
    by (rule pacer_reachable.p_start)
  have "pacer_poll (newPacer 50 8) 1000 = ((newPacer 50 8)\<lparr>p_next := 20101000\<rparr>, Granted)"
    by (simp add: pacer_poll_granted newPacer_interval pacing_interval_50)
      (simp add: newPacer_def time_zero_def)
  then have "pacer_step \<lparr>pcr = newPacer 50 8, p_clock = 1000, p_hist = []\<rparr>
      \<lparr>pcr = (newPacer 50 8)\<lparr>p_next := 20101000\<rparr>, p_clock = 1000, p_hist = [Grant 1000]\<rparr>"
    using pacer_step.p_grant [of "\<lparr>pcr = newPacer 50 8, p_clock = 1000, p_hist = []\<rparr>"] by simp
  with r0 have r1: "pacer_reachable 50 8
      \<lparr>pcr = (newPacer 50 8)\<lparr>p_next := 20101000\<rparr>, p_clock = 1000, p_hist = [Grant 1000]\<rparr>"
    by (rule pacer_reachable.p_next_step)
  have "pacer_step \<lparr>pcr = (newPacer 50 8)\<lparr>p_next := 20101000\<rparr>, p_clock = 1000, p_hist = [Grant 1000]\<rparr> pacer_example"
    using pacer_step.p_block [of "\<lparr>pcr = (newPacer 50 8)\<lparr>p_next := 20101000\<rparr>, p_clock = 1000, p_hist = [Grant 1000]\<rparr>" "70 * Millisecond"]
    by (simp add: pacer_example_def minimumRetryDelay_def Millisecond_def)
  with r1 show ?thesis by (rule pacer_reachable.p_next_step)
qed

text \<open>
  C11. Burst-free pacing: whatever goroutines poll the pacer and whatever blocks are set, a
  window of one second never contains more grants than the configured limit (50 when the
  limit is zero), for every limit and every start of the window.
\<close>

theorem pacer_rolling_limit:
  assumes "pacer_reachable lim maxw s"
  shows "length (filter (\<lambda>t. T \<le> t \<and> t < T + Second) (grant_times (p_hist s))) \<le> (if lim = 0 then 50 else lim)"
proof -
  let ?n = "if lim = 0 then 50 else lim" and ?d = "interval (newPacer lim maxw)"
  have inv: "pacer_inv ?d s" using assms by (rule pacer_reachable_inv)
  have "Second \<le> ?d * int ?n"
    using pacing_interval_covers(1) [of ?n] by (simp add: newPacer_interval)
  then show ?thesis
    using inv by (intro spaced_window [where d = ?d]) (auto simp: pacer_inv_def Second_def intro: grant_times_spaced)
qed

theorem pacer_rolling_limit_witness:
  "pacer_reachable 50 8 pacer_example \<and> grant_times (p_hist pacer_example) = [1000] \<and>
   length (filter (\<lambda>t. 0 \<le> t \<and> t < 0 + Second) (grant_times (p_hist pacer_example))) \<le> 50"
  using pacer_rolling_limit [OF pacer_example_reachable, of 0] pacer_example_reachable
  by (simp add: pacer_example_def)

text \<open>
  A global cooldown is never cut short: after a block of \<open>d\<close> nanoseconds is set at time
  \<open>t\<close>, every later grant is at \<open>t + max d 50ms\<close> or after, whatever shorter or longer blocks
  come in between.
\<close>

theorem pacer_respects_blocks:
  assumes "pacer_reachable lim maxw s" and "p_hist s = xs @ Block u # ys" and "Grant g \<in> set ys"
  shows "u \<le> g"
proof -
  have "sorted_wrt (paced (interval (newPacer lim maxw))) (xs @ Block u # ys)"
    using pacer_reachable_inv [OF assms(1)] assms(2) by (simp add: pacer_inv_def)
  with assms(3) show ?thesis by (auto simp: sorted_wrt_append dest!: bspec [of _ _ "Grant g"])
qed

text \<open>
  What \<^verbatim>\<open>waitFor\<close> returns: a delay of zero means the slot is taken, at an observed time past
  the previous slot and past every block, and the next slot is one interval later; a positive
  delay means the block in force would not leave the reserve before the deadline, and no slot
  was taken.
\<close>

theorem waitFor_result:
  assumes "waitFor None deadline rsv p obs = Some (p', Inr d)"
  shows "if d = 0
         then \<exists>ob \<in> set obs. p_next p \<le> po_now ob \<and> blockedUntil p \<le> po_now ob \<and>
                p_next p' = po_now ob + interval p
         else 0 < d \<and> p_next p' = p_next p \<and>
              (\<exists>ob \<in> set obs. misses_deadline deadline d rsv (po_now_deadline ob) \<and> po_now ob < blockedUntil p')"
proof -
  obtain q r where loop: "waitFor_loop deadline rsv p obs = Some (q, r)"
    and p': "p' = q\<lparr>p_gate := fst (gate_release (p_gate q))\<rparr>" and r: "map_sum ErrCtx id r = Inr d"
    using assms by (cases "waitFor_loop deadline rsv p obs") (auto simp: waitFor_def)
  have q: "waitFor_loop deadline rsv p obs = Some (q, Inr d)" using loop r by (cases r) simp_all
  show ?thesis
  proof (cases "d = 0")
    case True
    then show ?thesis using waitFor_loop_granted [of deadline rsv p obs q] q p' by fastforce
  next
    case False
    then show ?thesis using waitFor_loop_delay [OF q] p' by auto
  qed
qed

definition blocked_obs :: pacer_obs where
  \<comment> \<open>ten seconds of block observed with two seconds left\<close>
  "blocked_obs = \<lparr>po_ctx = None, po_blocks = [(10 * Second, 0)], po_now = 0, po_now_deadline = 0, po_event = TimerFired\<rparr>"

text \<open>
  \<^verbatim>\<open>waitFor\<close> returns: an iteration that finds its context ended, or whose clock is past the
  next slot and past every block set until then, is the last one.
\<close>

theorem waitFor_returns:
  assumes "i < length obs" and "po_ctx (obs ! i) \<noteq> None \<or> (\<exists>e. po_event (obs ! i) = CtxDone e) \<or>
      p_next p \<le> po_now (obs ! i) \<and>
      blockedUntil (apply_blocks p (concat (map po_blocks (take (Suc i) obs)))) \<le> po_now (obs ! i)"
  shows "\<exists>r. waitFor None deadline rsv p obs = Some r"
proof -
  obtain q r where "waitFor_loop deadline rsv p obs = Some (q, r)"
    using waitFor_loop_returns [OF assms] by force
  then show ?thesis by (simp add: waitFor_def)
qed

end
