(* ===== verification/Bucket.thy ===== *)
theory Bucket
  imports Gate Cooldown
begin

section \<open>Buckets\<close>

text \<open>
  \<^verbatim>\<open>bucketState\<close> of \<^verbatim>\<open>internal/proxy/scheduler.go\<close>: the FIFO gate of one rate-limit bucket, the
  instant before which the bucket is blocked, and the counters that tell when the bucket can
  be forgotten. The clock reading of every \<^verbatim>\<open>time.Now()\<close> is an argument. The wake-up channel
  is the number of times it was replaced.
\<close>

subsection \<open>State and operations\<close>

definition clientIdleTimeout :: duration where "clientIdleTimeout = 10 * Minute"

record bucketState =
  b_gate :: fifoGate
  active :: int
  lastUsed :: time
  readyAt :: time
  b_wake :: nat

definition touch :: "bucketState \<Rightarrow> time \<Rightarrow> bucketState" where
  "touch b now = b\<lparr>lastUsed := now\<rparr>"

definition newBucketState :: "int \<Rightarrow> time \<Rightarrow> bucketState" where
  "newBucketState maxw now =
     touch \<lparr>b_gate = newFIFOGate maxw, active = 0, lastUsed = 0, readyAt = time_zero, b_wake = 0\<rparr> now"

definition bucket_acquire :: "bucketState \<Rightarrow> nat \<Rightarrow> time \<Rightarrow> bucketState \<times> enter_result" where
  \<comment> \<open>\<^verbatim>\<open>acquire\<close> until it holds the gate, blocks in the queue, or fails because the queue is full\<close>
  "bucket_acquire b w now =
     (let b1 = touch (b\<lparr>active := active b + 1\<rparr>) now in
      case acquire_enter (b_gate b1) w of
        (g, QueueFull) \<Rightarrow> (b1\<lparr>b_gate := g, active := active b1 - 1\<rparr>, QueueFull)
      | (g, r) \<Rightarrow> (b1\<lparr>b_gate := g\<rparr>, r))"

definition bucket_acquire_cancelled :: "bucketState \<Rightarrow> nat \<Rightarrow> bucketState \<times> nat option" where
  \<comment> \<open>the rest of \<^verbatim>\<open>acquire\<close> when the context of a queued caller ends: it leaves the queue, or,
      when it was handed the gate meanwhile, releases it at once; then \<^verbatim>\<open>active\<close> is decremented\<close>
  "bucket_acquire_cancelled b w =
     (case acquire_cancel (b_gate b) w of
        (g, True) \<Rightarrow> (b\<lparr>b_gate := g, active := active b - 1\<rparr>, None)
      | (g, False) \<Rightarrow>
          (case gate_release g of (g', next) \<Rightarrow> (b\<lparr>b_gate := g', active := active b - 1\<rparr>, next)))"

definition bucket_release :: "bucketState \<Rightarrow> time \<Rightarrow> bucketState \<times> nat option" where
  "bucket_release b now =
     (let b1 = touch b now; b2 = b1\<lparr>active := active b1 - 1\<rparr> in
      case gate_release (b_gate b2) of (g, next) \<Rightarrow> (b2\<lparr>b_gate := g\<rparr>, next))"

definition blockUntil :: "bucketState \<Rightarrow> time \<Rightarrow> bucketState" where
  "blockUntil b t = (if readyAt b < t then b\<lparr>readyAt := t, b_wake := Suc (b_wake b)\<rparr> else b)"

definition bucket_merge :: "bucketState \<Rightarrow> bucketState \<Rightarrow> bucketState" where
  "bucket_merge b other = blockUntil b (readyAt other)"

definition retryAfter :: "bucketState \<Rightarrow> time \<Rightarrow> duration" where
  "retryAfter b now = (if \<not> (now < readyAt b) then 0 else time_Sub (readyAt b) now)"

definition blocked :: "bucketState \<Rightarrow> time \<Rightarrow> bool" where
  "blocked b now \<longleftrightarrow> 0 < retryAfter b now"

definition bucket_idle :: "bucketState \<Rightarrow> time \<Rightarrow> bool" where
  "bucket_idle b now \<longleftrightarrow> \<not> blocked b now \<and> active b = 0 \<and> clientIdleTimeout < time_Sub now (lastUsed b)"


subsection \<open>Waiting for a bucket\<close>

text \<open>
  One iteration of \<^verbatim>\<open>wait\<close> as the environment shows it: \<^verbatim>\<open>ctx.Err()\<close>, the instant read under
  \<^verbatim>\<open>b.mu\<close>, the clock readings of \<^verbatim>\<open>time.Until(readyAt)\<close> and \<^verbatim>\<open>time.Until(deadline)\<close>, and the event
  that ends the sleep.
\<close>

record wait_obs =
  wo_ctx :: "ctx_err option"
  wo_readyAt :: time
  wo_now :: time
  wo_now_deadline :: time
  wo_event :: wake_event

fun bucket_wait :: "time option \<Rightarrow> duration \<Rightarrow> wait_obs list \<Rightarrow> (ctx_err + duration) option" where
  "bucket_wait deadline rsv [] = None"
| "bucket_wait deadline rsv (ob # obs) =
     (case wo_ctx ob of
        Some e \<Rightarrow> Some (Inl e)
      | None \<Rightarrow>
          (let delay = time_Sub (wo_readyAt ob) (wo_now ob) in
           if delay \<le> 0 then Some (Inr 0)
           else if misses_deadline deadline delay rsv (wo_now_deadline ob) then Some (Inr delay)
           else (case wo_event ob of
                   TimerFired \<Rightarrow> bucket_wait deadline rsv obs
                 | WakeClosed \<Rightarrow> bucket_wait deadline rsv obs
                 | CtxDone e \<Rightarrow> Some (Inl e))))"


subsection \<open>Lemmas\<close>

lemma touch_simps [simp]:
  "b_gate (touch b now) = b_gate b" "active (touch b now) = active b" "readyAt (touch b now) = readyAt b"
  "b_wake (touch b now) = b_wake b" "lastUsed (touch b now) = now"
  by (simp_all add: touch_def)

lemma blockUntil_simps [simp]:
  "b_gate (blockUntil b t) = b_gate b" "active (blockUntil b t) = active b"
  "lastUsed (blockUntil b t) = lastUsed b" "readyAt (blockUntil b t) = max (readyAt b) t"
  by (auto simp: blockUntil_def)

interpretation bc: cooldown blockUntil id readyAt b_wake retryAfter
  by unfold_locales (auto simp: blockUntil_def retryAfter_def)

lemma blocked_iff [simp]: "blocked b now \<longleftrightarrow> now < readyAt b"
  by (simp add: blocked_def bc.retry_after_pos)

lemma bucket_merge_readyAt [simp]: "readyAt (bucket_merge b other) = max (readyAt b) (readyAt other)"
  by (simp add: bucket_merge_def)

lemma bucket_acquire_cases:
  assumes "bucket_acquire b w now = (b', r)"
  shows "r = QueueFull \<Longrightarrow> active b' = active b" and "r \<noteq> QueueFull \<Longrightarrow> active b' = active b + 1"
    and "lastUsed b' = now" and "readyAt b' = readyAt b" and "acquire_enter (b_gate b) w = (b_gate b', r)"
  using assms by (auto simp: bucket_acquire_def Let_def split: prod.splits enter_result.splits)

lemma bucket_release_simps:
  assumes "bucket_release b now = (b', next)"
  shows "active b' = active b - 1" and "lastUsed b' = now" and "readyAt b' = readyAt b"
    and "gate_release (b_gate b) = (b_gate b', next)"
  using assms by (auto simp: bucket_release_def Let_def split: prod.splits)

lemma bucket_wait_zero:
  "bucket_wait deadline rsv obs = Some (Inr 0) \<Longrightarrow>
     \<exists>ob \<in> set obs. wo_ctx ob = None \<and> wo_readyAt ob \<le> wo_now ob"
  by (induction obs)
    (auto simp: Let_def split: option.splits if_splits wake_event.splits)

lemma bucket_wait_delay:
  "bucket_wait deadline rsv obs = Some (Inr d) \<Longrightarrow> d \<noteq> 0 \<Longrightarrow>
     0 < d \<and> (\<exists>ob \<in> set obs. wo_now ob < wo_readyAt ob \<and> d = time_Sub (wo_readyAt ob) (wo_now ob) \<and>
                misses_deadline deadline d rsv (wo_now_deadline ob))"
  by (induction obs)
    (auto simp: Let_def split: option.splits if_splits wake_event.splits)

lemma bucket_wait_returns:
  "i < length obs \<Longrightarrow> wo_ctx (obs ! i) \<noteq> None \<or> wo_readyAt (obs ! i) \<le> wo_now (obs ! i) \<or>
     (\<exists>e. wo_event (obs ! i) = CtxDone e) \<Longrightarrow> \<exists>r. bucket_wait deadline rsv obs = Some r"
proof (induction obs arbitrary: i)
  case (Cons ob obs)
  show ?case
  proof (cases i)
    case 0
    with Cons.prems show ?thesis by (auto simp: Let_def split: option.splits wake_event.splits)
  next
    case (Suc k)
    with Cons show ?thesis by (auto simp: Let_def split: option.splits wake_event.splits)
  qed
qed simp



subsection \<open>Properties\<close>

text \<open>
  A route never leaves a blocked bucket early: when \<^verbatim>\<open>wait\<close> returns a delay of zero, the
  instant it last read under the lock had passed and the context was alive; when it returns a
  positive delay, that is the remaining cooldown, and it would not leave the reserve before
  the deadline.
\<close>

theorem bucket_wait_result:
  assumes "bucket_wait deadline rsv obs = Some (Inr d)"
  shows "if d = 0 then \<exists>ob \<in> set obs. wo_ctx ob = None \<and> wo_readyAt ob \<le> wo_now ob
         else 0 < d \<and> (\<exists>ob \<in> set obs. wo_now ob < wo_readyAt ob \<and> d = time_Sub (wo_readyAt ob) (wo_now ob) \<and>
                misses_deadline deadline d rsv (wo_now_deadline ob))"
  using assms bucket_wait_zero bucket_wait_delay by auto

text \<open>
  Cooldowns compose: whatever cooldowns concurrent responses set on a bucket, in whatever
  order, the bucket ends up blocked until the latest of them and its own, and a waiting
  goroutine whose wake-up channel was not closed by them still waits for the right instant.
\<close>

theorem bucket_cooldowns:
  assumes "mset ts = mset ts'" and "b' = fold (\<lambda>t b. blockUntil b t) ts b"
  shows "readyAt b' = readyAt (fold (\<lambda>t b. blockUntil b t) ts' b) \<and>
         readyAt b \<le> readyAt b' \<and> (\<forall>t \<in> set ts. t \<le> readyAt b') \<and>
         (b_wake b' = b_wake b \<longrightarrow> readyAt b' = readyAt b)"
  using bc.order_irrelevant [OF assms(1), of b] bc.until_fold_mono [of b ts] bc.until_fold_ge [of _ ts b]
    bc.unnoticed_unchanged [of ts b] assms(2)
  by auto

end
