(* ===== verification/Go_Strings.thy ===== *)
theory Go_Strings
  imports Nirn_Prelude
begin

section \<open>Strings of the Go standard library\<close>

text \<open>
  A Go string is a sequence of bytes, here a \<open>string\<close>, a list of 8-bit characters. These are
  the functions of the packages \<^verbatim>\<open>strings\<close>, \<^verbatim>\<open>strconv\<close> and \<^verbatim>\<open>unicode/utf8\<close> that the program calls,
  for the arguments it calls them with (one-byte separators, base 10, ASCII patterns).
\<close>

subsection \<open>Package strings\<close>

fun Split :: "char \<Rightarrow> string \<Rightarrow> string list" where
  "Split c [] = [[]]"
| "Split c (x # xs) = (if x = c then [] # Split c xs else (x # hd (Split c xs)) # tl (Split c xs))"

fun Join :: "char \<Rightarrow> string list \<Rightarrow> string" where
  "Join c [] = []"
| "Join c [p] = p"
| "Join c (p # ps) = p @ c # Join c ps"

definition Cut :: "char \<Rightarrow> string \<Rightarrow> string \<times> string \<times> bool" where
  "Cut c s = (if c \<in> set s then (takeWhile (\<lambda>x. x \<noteq> c) s, tl (dropWhile (\<lambda>x. x \<noteq> c) s), True)
              else (s, [], False))"

definition HasPrefix :: "string \<Rightarrow> string \<Rightarrow> bool" where
  "HasPrefix s p \<longleftrightarrow> take (length p) s = p"

definition TrimPrefix :: "string \<Rightarrow> string \<Rightarrow> string" where
  "TrimPrefix s p = (if HasPrefix s p then drop (length p) s else s)"

definition IndexByte :: "string \<Rightarrow> char \<Rightarrow> nat option" where
  \<comment> \<open>\<^verbatim>\<open>None\<close> stands for -1\<close>
  "IndexByte s c = (if c \<in> set s then Some (length (takeWhile (\<lambda>x. x \<noteq> c) s)) else None)"

definition ascii_lower :: "char \<Rightarrow> char" where
  "ascii_lower c = (let n = of_char c :: nat in if 65 \<le> n \<and> n \<le> 90 then char_of (n + 32) else c)"

definition ToLower :: "string \<Rightarrow> string" where
  \<comment> \<open>on ASCII; bytes above 127 are left as they are\<close>
  "ToLower s = map ascii_lower s"

text \<open>
  \<^verbatim>\<open>strings.EqualFold(s, t)\<close> for an ASCII pattern \<open>t\<close>: besides the case of ASCII letters, Unicode
  folding identifies \<open>s\<close> with U+017F (bytes 197 191) and \<open>k\<close> with U+212A (226 132 170).
\<close>

fun EqualFold :: "string \<Rightarrow> string \<Rightarrow> bool" where
  "EqualFold [] [] = True"
| "EqualFold [] (t # ts) = False"
| "EqualFold (s # ss) [] = False"
| "EqualFold (s # ss) (t # ts) =
     (if ascii_lower s = ascii_lower t then EqualFold ss ts
      else if ascii_lower t = CHR ''s'' \<and> s = char_of (197 :: nat) \<and> ss \<noteq> [] \<and> hd ss = char_of (191 :: nat)
      then EqualFold (drop 1 ss) ts
      else if ascii_lower t = CHR ''k'' \<and> s = char_of (226 :: nat) \<and> 2 \<le> length ss \<and>
              ss ! 0 = char_of (132 :: nat) \<and> ss ! 1 = char_of (170 :: nat)
      then EqualFold (drop 2 ss) ts
      else False)"

text \<open>
  The white space of \<^verbatim>\<open>unicode.IsSpace\<close> as byte sequences: six ASCII characters, U+0085, U+00A0,
  U+1680, U+2000 to U+200A, U+2028, U+2029, U+202F, U+205F and U+3000.
\<close>

definition space_codes :: "nat list list" where
  "space_codes =
     map (\<lambda>n. [n]) [9, 10, 11, 12, 13, 32] @ [[194, 133], [194, 160], [225, 154, 128]] @
     map (\<lambda>n. [226, 128, n]) [128 ..< 139] @
     [[226, 128, 168], [226, 128, 169], [226, 128, 175], [226, 129, 159], [227, 128, 128]]"

definition leading_space :: "string \<Rightarrow> nat" where
  \<comment> \<open>length of the white-space character the string starts with, 0 if none\<close>
  "leading_space s =
     (case find (\<lambda>sp. map of_char (take (length sp) s) = sp) space_codes of
        None \<Rightarrow> 0 | Some sp \<Rightarrow> length sp)"

definition trailing_space :: "string \<Rightarrow> nat" where
  "trailing_space s =
     (case find (\<lambda>sp. map of_char (drop (length s - length sp) s) = sp) space_codes of
        None \<Rightarrow> 0 | Some sp \<Rightarrow> length sp)"

function TrimLeftSpace :: "string \<Rightarrow> string" where
  "TrimLeftSpace s =
     (let n = leading_space s in if 0 < n \<and> n \<le> length s then TrimLeftSpace (drop n s) else s)"
  by pat_completeness auto
termination by (relation "measure length") (auto simp: Let_def)

function TrimRightSpace :: "string \<Rightarrow> string" where
  "TrimRightSpace s =
     (let n = trailing_space s in
      if 0 < n \<and> n \<le> length s then TrimRightSpace (take (length s - n) s) else s)"
  by pat_completeness auto
termination by (relation "measure length") (auto simp: Let_def)

declare TrimLeftSpace.simps [simp del] TrimRightSpace.simps [simp del]

definition TrimSpace :: "string \<Rightarrow> string" where
  "TrimSpace s = TrimRightSpace (TrimLeftSpace s)"


subsection \<open>Package strconv\<close>

definition is_digit :: "char \<Rightarrow> bool" where
  "is_digit c \<longleftrightarrow> (let n = of_char c :: nat in 48 \<le> n \<and> n \<le> 57)"

definition digit_value :: "char \<Rightarrow> nat" where
  "digit_value c = of_char c - 48"

definition digits_value :: "string \<Rightarrow> nat" where
  "digits_value s = foldl (\<lambda>acc c. acc * 10 + digit_value c) 0 s"

definition ParseUint :: "string \<Rightarrow> nat \<Rightarrow> nat option" where
  \<comment> \<open>base 10; \<open>None\<close> is a syntax or range error\<close>
  "ParseUint s bits =
     (if s = [] \<or> \<not> list_all is_digit s then None
      else let n = digits_value s in if n < 2 ^ bits then Some n else None)"

definition ParseInt :: "string \<Rightarrow> nat \<Rightarrow> int option" where
  "ParseInt s bits =
     (case s of
        [] \<Rightarrow> None
      | c # cs \<Rightarrow>
          let neg = (c = CHR ''-''); body = (if c = CHR ''+'' \<or> c = CHR ''-'' then cs else s) in
          case ParseUint body bits of
            None \<Rightarrow> None
          | Some n \<Rightarrow>
              if \<not> neg \<and> 2 ^ (bits - 1) \<le> n then None
              else if neg \<and> 2 ^ (bits - 1) < n then None
              else Some (if neg then - int n else int n))"

definition Atoi :: "string \<Rightarrow> int option" where
  "Atoi s = ParseInt s 64"

definition ParseBool :: "string \<Rightarrow> bool option" where
  "ParseBool s =
     (if s \<in> {''1'', ''t'', ''T'', ''TRUE'', ''true'', ''True''} then Some True
      else if s \<in> {''0'', ''f'', ''F'', ''FALSE'', ''false'', ''False''} then Some False
      else None)"

fun format_nat :: "nat \<Rightarrow> string" where
  "format_nat n = (if n < 10 then [char_of (n + 48)] else format_nat (n div 10) @ [char_of (n mod 10 + 48)])"

declare format_nat.simps [simp del]

definition Itoa :: "int \<Rightarrow> string" where
  "Itoa i = (if i < 0 then CHR ''-'' # format_nat (nat (- i)) else format_nat (nat i))"


subsection \<open>Package utf8\<close>

definition byte_in :: "nat \<Rightarrow> nat \<Rightarrow> char \<Rightarrow> bool" where
  "byte_in lo hi c \<longleftrightarrow> lo \<le> of_char c \<and> of_char c \<le> hi"

definition first_byte :: "char \<Rightarrow> nat \<times> nat \<times> nat" where
  \<comment> \<open>the tables \<^verbatim>\<open>first\<close> and \<^verbatim>\<open>acceptRanges\<close>: the size of the sequence, 0 if no sequence starts
     with this byte, and the range of its second byte\<close>
  "first_byte c =
     (if byte_in 0 127 c then (1, 128, 191)
      else if byte_in 194 223 c then (2, 128, 191)
      else if byte_in 224 224 c then (3, 160, 191)
      else if byte_in 237 237 c then (3, 128, 159)
      else if byte_in 225 239 c then (3, 128, 191)
      else if byte_in 240 240 c then (4, 144, 191)
      else if byte_in 241 243 c then (4, 128, 191)
      else if byte_in 244 244 c then (4, 128, 143)
      else (0, 128, 191))"

definition accepts :: "nat \<Rightarrow> nat \<Rightarrow> nat \<Rightarrow> string \<Rightarrow> bool" where
  "accepts m lo hi cs \<longleftrightarrow> length cs = m \<and>
     (case cs of [] \<Rightarrow> True | c # cs' \<Rightarrow> byte_in lo hi c \<and> list_all (byte_in 128 191) cs')"

definition rune_len :: "string \<Rightarrow> nat" where
  \<comment> \<open>bytes of the well-formed UTF-8 sequence a string starts with, 0 if it is ill-formed\<close>
  "rune_len s =
     (case s of
        [] \<Rightarrow> 0
      | c # cs \<Rightarrow> let (n, lo, hi) = first_byte c in if accepts (n - 1) lo hi (take (n - 1) cs) then n else 0)"

function ValidString :: "string \<Rightarrow> bool" where
  "ValidString s =
     (if s = [] then True else let n = rune_len s in if n = 0 then False else ValidString (drop n s))"
  by pat_completeness auto
termination by (relation "measure length") (auto simp: Let_def)

function RuneCount :: "string \<Rightarrow> nat" where
  \<comment> \<open>an ill-formed byte counts as one rune\<close>
  "RuneCount s = (if s = [] then 0 else Suc (RuneCount (drop (max 1 (rune_len s)) s)))"
  by pat_completeness auto
termination by (relation "measure length") auto

function valid_utf8_from :: "bool \<Rightarrow> string \<Rightarrow> string \<Rightarrow> string" where
  \<comment> \<open>\<open>bad\<close>: the bytes just before were ill-formed, so the replacement was written already\<close>
  "valid_utf8_from bad repl s =
     (if s = [] then []
      else let n = rune_len s in
        if n = 0 then (if bad then [] else repl) @ valid_utf8_from True repl (drop 1 s)
        else take n s @ valid_utf8_from False repl (drop n s))"
  by pat_completeness auto
termination by (relation "measure (\<lambda>(bad, repl, s). length s)") (auto simp: Let_def)

declare ValidString.simps [simp del] RuneCount.simps [simp del] valid_utf8_from.simps [simp del]

definition ToValidUTF8 :: "string \<Rightarrow> string \<Rightarrow> string" where
  "ToValidUTF8 s repl = valid_utf8_from False repl s"


subsection \<open>Laws\<close>

lemma Split_nonempty [simp]: "Split c s \<noteq> []"
  by (induction s) auto

lemma hd_Split: "hd (Split c s) = takeWhile (\<lambda>x. x \<noteq> c) s"
  by (induction s) auto

lemma Split_no_sep [simp]: "c \<notin> set s \<Longrightarrow> Split c s = [s]"
  by (induction s) auto

lemma Split_append [simp]: "Split c (a @ c # b) = Split c a @ Split c b"
  by (induction a) auto

lemma Split_parts: "p \<in> set (Split c s) \<Longrightarrow> c \<notin> set p"
proof (induction s arbitrary: p)
  case (Cons x xs)
  obtain q qs where q: "Split c xs = q # qs" using Split_nonempty by (cases "Split c xs") blast+
  have "\<forall>r \<in> set (q # qs). c \<notin> set r" using Cons.IH q by simp
  thus ?case using Cons.prems q by (auto split: if_splits)
qed simp

lemma Join_nonempty: "p \<noteq> [] \<Longrightarrow> Join c (p # ps) \<noteq> []"
  by (cases ps) auto

lemma Split_Join: "\<lbrakk>ps \<noteq> []; \<And>p. p \<in> set ps \<Longrightarrow> c \<notin> set p\<rbrakk> \<Longrightarrow> Split c (Join c ps) = ps"
  by (induction c ps rule: Join.induct) auto

lemma Join_Split: "Join c (Split c s) = s"
proof (induction s)
  case (Cons x xs)
  obtain q qs where "Split c xs = q # qs" using Split_nonempty by (cases "Split c xs") blast+
  thus ?case using Cons by (cases qs) auto
qed simp

lemma set_Join: "set (Join c ps) \<subseteq> insert c (\<Union> (set ` set ps))"
  by (induction c ps rule: Join.induct) auto

lemma HasPrefix_append [simp]: "HasPrefix (p @ s) p"
  by (simp add: HasPrefix_def)

lemma HasPrefixE: "HasPrefix s p \<Longrightarrow> \<exists>y. s = p @ y"
  unfolding HasPrefix_def by (metis append_take_drop_id)

lemma takeWhile_sep [simp]: "c \<notin> set a \<Longrightarrow> takeWhile (\<lambda>x. x \<noteq> c) (a @ c # b) = a"
  by (induction a) auto

lemma TrimPrefix_append [simp]: "TrimPrefix (p @ s) p = s"
  by (simp add: TrimPrefix_def)

lemma TrimPrefix_id: "\<not> HasPrefix s p \<Longrightarrow> TrimPrefix s p = s"
  by (simp add: TrimPrefix_def)

lemma Cut_append [simp]: "c \<notin> set a \<Longrightarrow> Cut c (a @ c # b) = (a, b, True)"
  by (induction a) (auto simp: Cut_def)

lemma Cut_none [simp]: "c \<notin> set a \<Longrightarrow> Cut c a = (a, [], False)"
  by (simp add: Cut_def)

lemma of_char_digit: "d < 10 \<Longrightarrow> of_char (char_of (d + 48 :: nat)) = (d + 48 :: nat)"
  by (simp add: take_bit_eq_mod)

lemma is_digit_char [simp]: "d < 10 \<Longrightarrow> is_digit (char_of (d + 48 :: nat))"
  unfolding is_digit_def Let_def by (subst (1 2) of_char_digit) auto

lemma digit_value_char [simp]: "d < 10 \<Longrightarrow> digit_value (char_of (d + 48 :: nat)) = d"
  unfolding digit_value_def by (subst of_char_digit) auto

lemma format_nat_digits [simp]: "list_all is_digit (format_nat n)"
proof (induction n rule: less_induct)
  case (less n) thus ?case by (subst format_nat.simps) simp
qed

lemma format_nat_nonempty [simp]: "format_nat n \<noteq> []"
  by (subst format_nat.simps) simp

lemma digits_value_format [simp]: "digits_value (format_nat n) = n"
proof (induction n rule: less_induct)
  case (less n) thus ?case
    by (subst format_nat.simps) (simp add: digits_value_def)
qed

lemma ParseUint_format: "n < 2 ^ b \<Longrightarrow> ParseUint (format_nat n) b = Some n"
  by (simp add: ParseUint_def)

lemma ParseInt_Itoa:
  assumes "- (2 ^ 63) \<le> n" "n < 2 ^ 63"
  shows "ParseInt (Itoa n) 64 = Some n"
proof (cases "n < 0")
  case True
  have "nat (- n) \<le> 2 ^ 63" using assms(1) by simp
  thus ?thesis using True by (simp add: Itoa_def ParseInt_def ParseUint_format Let_def)
next
  case False
  obtain c cs where c: "format_nat (nat n) = c # cs" using format_nat_nonempty by (cases "format_nat (nat n)") auto
  have "is_digit c" using format_nat_digits [of "nat n"] by (simp add: c)
  hence s: "c \<noteq> CHR ''+''" "c \<noteq> CHR ''-''" by (auto simp: is_digit_def)
  have "nat n < 2 ^ 63" using assms(2) by simp
  moreover have "ParseUint (c # cs) 64 = Some (nat n)" using ParseUint_format [of "nat n" 64] assms(2) by (simp add: c)
  ultimately show ?thesis using False s by (simp add: Itoa_def c ParseInt_def Let_def)
qed

lemma format_nat_inj: "format_nat m = format_nat n \<longleftrightarrow> m = n"
  using digits_value_format by metis

lemma not_digit: "\<not> is_digit CHR ''/''" "\<not> is_digit CHR '':''" "\<not> is_digit CHR ''?''" "\<not> is_digit CHR ''@''"
  by (simp_all add: is_digit_def)

lemma digits_no_sep: "list_all is_digit s \<Longrightarrow> CHR ''/'' \<notin> set s \<and> CHR '':'' \<notin> set s \<and> CHR ''?'' \<notin> set s"
  by (auto simp: list_all_iff not_digit)


text \<open>A well-formed UTF-8 sequence is recognised from its own bytes, and an ASCII byte ends one.\<close>

lemma rune_len_Cons:
  "first_byte c = (n, lo, hi) \<Longrightarrow>
   rune_len (c # cs) = (if accepts (n - 1) lo hi (take (n - 1) cs) then n else 0)"
  by (simp add: rune_len_def)

lemma rune_len_ascii: "of_char c \<le> (127 :: nat) \<Longrightarrow> rune_len (c # cs) = 1"
  by (simp add: rune_len_def first_byte_def byte_in_def accepts_def)

lemma accepts_length: "accepts m lo hi (take m cs) \<Longrightarrow> m \<le> length cs"
  by (auto simp: accepts_def)

lemma rune_len_le: "rune_len s \<le> length s"
proof (cases s)
  case (Cons c cs)
  obtain n lo hi where "first_byte c = (n, lo, hi)" by (rule prod_cases3)
  thus ?thesis using Cons accepts_length [of "n - 1" lo hi cs] by (auto simp: rune_len_Cons)
qed (simp add: rune_len_def)

lemma rune_len_take:
  assumes "rune_len s = n" "n \<noteq> 0"
  shows "rune_len (take n s @ r) = n"
proof -
  obtain c cs where s: "s = c # cs" using assms by (cases s) (auto simp: rune_len_def)
  obtain m lo hi where m: "first_byte c = (m, lo, hi)" by (rule prod_cases3)
  have acc: "accepts (n - 1) lo hi (take (n - 1) cs)" and mn: "m = n"
    using assms s m by (auto simp: rune_len_Cons split: if_splits)
  have tk: "take (n - 1) (take (n - 1) cs @ r) = take (n - 1) cs"
    using accepts_length [OF acc] by simp
  have "take n s @ r = c # take (n - 1) cs @ r" using s assms(2) by (cases n) auto
  thus ?thesis using rune_len_Cons [OF m, of "take (n - 1) cs @ r", unfolded mn tk] acc by simp
qed

lemma first_byte_low: "first_byte c = (n, lo, hi) \<Longrightarrow> 128 \<le> lo"
  by (auto simp: first_byte_def split: if_splits)

lemma accepts_no_ascii: "\<lbrakk>accepts m lo hi cs; 128 \<le> lo; c \<in> set cs\<rbrakk> \<Longrightarrow> 128 \<le> (of_char c :: nat)"
  by (auto simp: accepts_def byte_in_def list_all_iff split: list.splits)

lemma rune_len_slash:
  assumes "a \<noteq> []"
  shows "rune_len (a @ CHR ''/'' # b) = rune_len a"
proof -
  obtain c cs where a: "a = c # cs" using assms by (cases a) auto
  obtain n lo hi where n: "first_byte c = (n, lo, hi)" by (rule prod_cases3)
  show ?thesis
  proof (cases "n - 1 \<le> length cs")
    case False
    hence "CHR ''/'' \<in> set (take (n - 1) (cs @ CHR ''/'' # b))" by (auto simp: take_Cons')
    hence "\<not> accepts (n - 1) lo hi (take (n - 1) (cs @ CHR ''/'' # b))"
      using accepts_no_ascii [OF _ first_byte_low [OF n]] by fastforce
    moreover have "\<not> accepts (n - 1) lo hi (take (n - 1) cs)" using False accepts_length by blast
    ultimately show ?thesis using a n by (simp add: rune_len_Cons)
  qed (use a n in \<open>simp add: rune_len_Cons\<close>)
qed

lemma ValidString_rune: "\<lbrakk>rune_len s = n; n \<noteq> 0\<rbrakk> \<Longrightarrow> ValidString (take n s @ r) = ValidString r"
  by (subst ValidString.simps) (use rune_len_take [of s n r] rune_len_le [of s] in \<open>auto simp: Let_def\<close>)

lemma ValidString_ascii: "of_char x \<le> (127 :: nat) \<Longrightarrow> ValidString (x # r) = ValidString r"
  by (subst ValidString.simps) (simp add: rune_len_ascii)

lemma ValidString_Nil [simp]: "ValidString []"
  by (subst ValidString.simps) simp

lemma valid_utf8_from_Nil [simp]: "valid_utf8_from bad repl [] = []"
  by (subst valid_utf8_from.simps) simp

lemma valid_utf8_from_bad:
  "\<lbrakk>s \<noteq> []; rune_len s = 0\<rbrakk> \<Longrightarrow>
   valid_utf8_from bad repl s = (if bad then [] else repl) @ valid_utf8_from True repl (drop 1 s)"
  by (subst valid_utf8_from.simps) simp

lemma valid_utf8_from_rune:
  "\<lbrakk>s \<noteq> []; rune_len s = n; n \<noteq> 0\<rbrakk> \<Longrightarrow>
   valid_utf8_from bad repl s = take n s @ valid_utf8_from False repl (drop n s)"
  by (subst valid_utf8_from.simps) simp

lemma utf8_induct [case_names Nil bad rune]:
  assumes "\<And>bad. P bad []"
    and "\<And>bad s. \<lbrakk>s \<noteq> []; rune_len s = 0; P True (drop 1 s)\<rbrakk> \<Longrightarrow> P bad s"
    and "\<And>bad s n. \<lbrakk>s \<noteq> []; rune_len s = n; n \<noteq> 0; P False (drop n s)\<rbrakk> \<Longrightarrow> P bad s"
  shows "P bad (s :: string)"
proof (induction "length s" arbitrary: bad s rule: less_induct)
  case less
  show ?case
  proof (cases "s = [] \<or> rune_len s = 0")
    case True
    thus ?thesis using assms(1,2) less by (cases "s = []") auto
  next
    case False
    hence "P False (drop (rune_len s) s)" using less by simp
    thus ?thesis using False assms(3) [of s "rune_len s" bad] by simp
  qed
qed

lemma ToValidUTF8_valid: "ValidString (ToValidUTF8 s ''@'')"
proof -
  have "ValidString (valid_utf8_from bad ''@'' s)" for bad
    by (induction bad s rule: utf8_induct)
      (simp_all add: valid_utf8_from_bad valid_utf8_from_rune ValidString_rune ValidString_ascii)
  thus ?thesis by (simp add: ToValidUTF8_def)
qed

lemma ToValidUTF8_unchanged:
  "CHR ''@'' \<notin> set (ToValidUTF8 s ''@'') \<Longrightarrow> ToValidUTF8 s ''@'' = s"
proof -
  have "CHR ''@'' \<notin> set (valid_utf8_from bad ''@'' s) \<Longrightarrow> \<not> bad \<Longrightarrow> valid_utf8_from bad ''@'' s = s" for bad
    by (induction bad s rule: utf8_induct) (auto simp: valid_utf8_from_bad valid_utf8_from_rune)
  thus "CHR ''@'' \<notin> set (ToValidUTF8 s ''@'') \<Longrightarrow> ToValidUTF8 s ''@'' = s"
    by (simp add: ToValidUTF8_def)
qed

lemma valid_utf8_slash:
  "valid_utf8_from bad repl (a @ CHR ''/'' # b) =
   valid_utf8_from bad repl a @ CHR ''/'' # valid_utf8_from False repl b"
proof (induction bad a rule: utf8_induct)
  case (Nil bad)
  have "rune_len (CHR ''/'' # b) = 1" by (rule rune_len_ascii) simp
  thus ?case by (simp add: valid_utf8_from_rune [where n = 1])
next
  case (bad bad a)
  moreover have "rune_len (a @ CHR ''/'' # b) = 0" using bad rune_len_slash by simp
  moreover have "drop 1 (a @ CHR ''/'' # b) = drop 1 a @ CHR ''/'' # b" using bad by (cases a) auto
  ultimately show ?case by (simp add: valid_utf8_from_bad del: drop_append)
next
  case (rune bad a n)
  moreover have "rune_len (a @ CHR ''/'' # b) = n" using rune rune_len_slash by simp
  moreover have "n \<le> length a" using rune rune_len_le by blast
  ultimately show ?case by (simp add: valid_utf8_from_rune)
qed

lemma valid_utf8_no_slash:
  "CHR ''/'' \<notin> set a \<Longrightarrow> CHR ''/'' \<notin> set (valid_utf8_from bad ''@'' a)"
proof (induction bad a rule: utf8_induct)
  case (bad bad a) thus ?case by (auto simp: valid_utf8_from_bad dest: in_set_dropD)
next
  case (rune bad a n) thus ?case by (auto simp: valid_utf8_from_rune dest: in_set_dropD in_set_takeD)
qed simp

lemma Split_valid_utf8:
  "Split CHR ''/'' (ToValidUTF8 s ''@'') = map (\<lambda>p. ToValidUTF8 p ''@'') (Split CHR ''/'' s)"
proof -
  have "\<lbrakk>ps \<noteq> []; \<And>p. p \<in> set ps \<Longrightarrow> CHR ''/'' \<notin> set p\<rbrakk> \<Longrightarrow>
    Split CHR ''/'' (ToValidUTF8 (Join CHR ''/'' ps) ''@'') = map (\<lambda>p. ToValidUTF8 p ''@'') ps" for ps
    by (induction "CHR ''/''" ps rule: Join.induct)
      (simp_all add: ToValidUTF8_def valid_utf8_slash valid_utf8_no_slash)
  from this [of "Split CHR ''/'' s", OF Split_nonempty Split_parts] show ?thesis by (simp add: Join_Split)
qed

end
