(* ===== verification/Go_Encoding.thy ===== *)
theory Go_Encoding
  imports Go_Strings
begin

unbundle bit_operations_syntax

section \<open>Encodings and digests of the Go standard library\<close>

text \<open>
  What the program uses of \<^verbatim>\<open>encoding/base64\<close> (decoding, which skips line breaks and does not
  check trailing bits), \<^verbatim>\<open>encoding/hex\<close>, \<^verbatim>\<open>encoding/binary\<close>, \<^verbatim>\<open>hash/crc64\<close> (polynomial ISO, table
  entries computed where Go looks them up) and \<^verbatim>\<open>crypto/sha256\<close> (FIPS 180-4).
\<close>

subsection \<open>base64\<close>

definition code_in :: "char \<Rightarrow> nat \<Rightarrow> nat \<Rightarrow> bool" where
  "code_in c lo hi \<longleftrightarrow> lo \<le> of_char c \<and> of_char c \<le> hi"

definition std_value :: "char \<Rightarrow> nat option" where
  "std_value c =
     (if code_in c 65 90 then Some (of_char c - 65)
      else if code_in c 97 122 then Some (of_char c - 71)
      else if code_in c 48 57 then Some (of_char c + 4)
      else if c = CHR ''+'' then Some 62
      else if c = CHR ''/'' then Some 63 else None)"

definition url_value :: "char \<Rightarrow> nat option" where
  "url_value c =
     (if c = CHR ''-'' then Some 62 else if c = CHR ''_'' then Some 63
      else if c = CHR ''+'' \<or> c = CHR ''/'' then None else std_value c)"

definition quantum_bytes :: "nat \<Rightarrow> nat \<Rightarrow> nat \<Rightarrow> nat \<Rightarrow> nat \<Rightarrow> string" where
  \<comment> \<open>the first \<open>n\<close> of the three bytes four 6-bit digits stand for\<close>
  "quantum_bytes n a b c d =
     (let v = a * 262144 + b * 4096 + c * 64 + d in
      take n [char_of (v div 65536), char_of (v div 256 mod 256), char_of (v mod 256)])"

fun decode_quanta :: "(char \<Rightarrow> nat option) \<Rightarrow> bool \<Rightarrow> string \<Rightarrow> string option" where
  "decode_quanta val pad [] = Some []"
| "decode_quanta val pad [a] = None"
| "decode_quanta val pad [a, b] =
     (case (val a, val b) of
        (Some x, Some y) \<Rightarrow> if pad then None else Some (quantum_bytes 1 x y 0 0)
      | _ \<Rightarrow> None)"
| "decode_quanta val pad [a, b, c] =
     (case (val a, val b, val c) of
        (Some x, Some y, Some z) \<Rightarrow> if pad then None else Some (quantum_bytes 2 x y z 0)
      | _ \<Rightarrow> None)"
| "decode_quanta val pad (a # b # c # d # rest) =
     (case (val a, val b) of
        (Some x, Some y) \<Rightarrow>
          (case val c of
             Some z \<Rightarrow>
               (case val d of
                  Some u \<Rightarrow> map_option (\<lambda>tl. quantum_bytes 3 x y z u @ tl) (decode_quanta val pad rest)
                | None \<Rightarrow> if pad \<and> d = CHR ''='' \<and> rest = [] then Some (quantum_bytes 2 x y z 0) else None)
           | None \<Rightarrow>
               if pad \<and> c = CHR ''='' \<and> d = CHR ''='' \<and> rest = [] then Some (quantum_bytes 1 x y 0 0) else None)
      | _ \<Rightarrow> None)"

definition strip_breaks :: "string \<Rightarrow> string" where
  "strip_breaks s = filter (\<lambda>c. of_char c \<noteq> (10 :: nat) \<and> of_char c \<noteq> (13 :: nat)) s"

definition RawStdDecode :: "string \<Rightarrow> string option" where
  "RawStdDecode s = decode_quanta std_value False (strip_breaks s)"

definition RawURLDecode :: "string \<Rightarrow> string option" where
  "RawURLDecode s = decode_quanta url_value False (strip_breaks s)"

definition StdDecode :: "string \<Rightarrow> string option" where
  "StdDecode s = decode_quanta std_value True (strip_breaks s)"

lemmas base64_eval = StdDecode_def RawStdDecode_def RawURLDecode_def strip_breaks_def std_value_def
  url_value_def code_in_def quantum_bytes_def char_of_def bit_Suc_0_iff


subsection \<open>hex\<close>

definition hex_digit :: "nat \<Rightarrow> char" where
  "hex_digit n = (if n < 10 then char_of (n + 48) else char_of (n + 87))"

definition hex_encode :: "8 word list \<Rightarrow> string" where
  "hex_encode bs = concat (map (\<lambda>b. [hex_digit (unat b div 16), hex_digit (unat b mod 16)]) bs)"

definition hex_value :: "char \<Rightarrow> nat option" where
  "hex_value c =
     (if code_in c 48 57 then Some (of_char c - 48)
      else if code_in c 97 102 then Some (of_char c - 87)
      else if code_in c 65 70 then Some (of_char c - 55) else None)"

fun hex_decode :: "string \<Rightarrow> 8 word list option" where
  "hex_decode [] = Some []"
| "hex_decode [a] = None"
| "hex_decode (a # b # rest) =
     (case (hex_value a, hex_value b) of
        (Some x, Some y) \<Rightarrow> map_option (\<lambda>tl. word_of_nat (x * 16 + y) # tl) (hex_decode rest)
      | _ \<Rightarrow> None)"


subsection \<open>crc64\<close>

definition crc64_shift :: "u64 \<Rightarrow> u64" where
  "crc64_shift c = (if c AND 1 = 1 then drop_bit 1 c XOR 0xD800000000000000 else drop_bit 1 c)"

definition crc64_entry :: "u64 \<Rightarrow> u64" where
  \<comment> \<open>the entry of the table for a byte\<close>
  "crc64_entry i = (crc64_shift ^^ 8) i"

definition crc64_byte :: "u64 \<Rightarrow> char \<Rightarrow> u64" where
  "crc64_byte c v = crc64_entry ((c XOR of_char v) AND 255) XOR drop_bit 8 c"

definition crc64_Checksum :: "string \<Rightarrow> u64" where
  "crc64_Checksum s = NOT (foldl crc64_byte (NOT 0) s)"

text \<open>Evaluation, innermost first.\<close>

named_theorems crc64_eval

lemma crc64_shift_eval [crc64_eval]:
  "crc64_shift 0 = 0" "crc64_shift 1 = 0xD800000000000000"
  "crc64_shift (numeral k) =
     (if numeral k AND 1 = (1 :: u64) then drop_bit 1 (numeral k) XOR 0xD800000000000000
      else drop_bit 1 (numeral k))"
  by (simp_all add: crc64_shift_def)

lemma crc64_entry_eval [crc64_eval]:
  "crc64_entry i = crc64_shift (crc64_shift (crc64_shift (crc64_shift
     (crc64_shift (crc64_shift (crc64_shift (crc64_shift i)))))))"
  by (simp add: crc64_entry_def eval_nat_numeral)

lemma crc64_byte_eval [crc64_eval]:
  "crc64_byte (- 1) v = crc64_entry ((- 1 XOR of_char v) AND 255) XOR 72057594037927935"
  "crc64_byte (numeral k) v = crc64_entry ((numeral k XOR of_char v) AND 255) XOR drop_bit 8 (numeral k)"
  by (simp_all add: crc64_byte_def mask_eq_exp_minus_1)

lemma crc64_Checksum_test: "crc64_Checksum ''test data'' = 10232006911339297906"
  by (simp add: crc64_Checksum_def crc64_eval)


subsection \<open>binary.BigEndian\<close>

definition BigEndian_Uint64 :: "8 word list \<Rightarrow> u64" where
  "BigEndian_Uint64 bs = foldl (\<lambda>acc b. push_bit 8 acc OR ucast b) 0 (take 8 bs)"


subsection \<open>sha256\<close>

definition sha_round_constants :: "32 word list" where
  "sha_round_constants =
  [1116352408, 1899447441, 3049323471, 3921009573, 961987163, 1508970993, 2453635748,
   2870763221, 3624381080, 310598401, 607225278, 1426881987, 1925078388, 2162078206,
   2614888103, 3248222580, 3835390401, 4022224774, 264347078, 604807628, 770255983,
   1249150122, 1555081692, 1996064986, 2554220882, 2821834349, 2952996808, 3210313671,
   3336571891, 3584528711, 113926993, 338241895, 666307205, 773529912, 1294757372,
   1396182291, 1695183700, 1986661051, 2177026350, 2456956037, 2730485921, 2820302411,
   3259730800, 3345764771, 3516065817, 3600352804, 4094571909, 275423344, 430227734,
   506948616, 659060556, 883997877, 958139571, 1322822218, 1537002063, 1747873779,
   1955562222, 2024104815, 2227730452, 2361852424, 2428436474, 2756734187, 3204031479,
   3329325298]"

definition sha_initial :: "32 word list" where
  "sha_initial = [1779033703, 3144134277, 1013904242, 2773480762, 1359893119, 2600822924, 528734635, 1541459225]"

definition rotr32 :: "nat \<Rightarrow> 32 word \<Rightarrow> 32 word" where
  "rotr32 n x = drop_bit n x OR push_bit (32 - n) x"

fun sha_pad :: "8 word list \<Rightarrow> 8 word list" where
  \<comment> \<open>a one bit, zeros up to 56 modulo 64, the length in bits\<close>
  "sha_pad m =
     (let n = length m; zeros = (119 - n mod 64) mod 64; bits = word_of_nat (8 * n) :: u64 in
      m @ [128] @ replicate zeros 0 @ map (\<lambda>i. ucast (drop_bit (8 * i) bits)) (rev [0 ..< 8]))"

fun be32_words :: "8 word list \<Rightarrow> 32 word list" where
  "be32_words (a # b # c # d # rest) =
     (push_bit 24 (ucast a) OR push_bit 16 (ucast b) OR push_bit 8 (ucast c) OR ucast d) # be32_words rest"
| "be32_words _ = []"

fun sha_schedule :: "nat \<Rightarrow> 32 word list \<Rightarrow> 32 word list" where
  \<comment> \<open>the window of the last sixteen words moves on; the result is the \<open>n\<close> words taken from it\<close>
  "sha_schedule 0 w = []"
| "sha_schedule (Suc n) w =
     (let w0 = w ! 0; w1 = w ! 1; w9 = w ! 9; w14 = w ! 14;
          s0 = rotr32 7 w1 XOR rotr32 18 w1 XOR drop_bit 3 w1;
          s1 = rotr32 17 w14 XOR rotr32 19 w14 XOR drop_bit 10 w14
      in w0 # sha_schedule n (tl w @ [w0 + s0 + w9 + s1]))"

fun sha_round :: "32 word list \<Rightarrow> 32 word \<times> 32 word \<Rightarrow> 32 word list" where
  "sha_round [a, b, c, d, e, f, g, h] (k, w) =
     (let s1 = rotr32 6 e XOR rotr32 11 e XOR rotr32 25 e;
          ch = (e AND f) XOR (NOT e AND g);
          t1 = h + s1 + ch + k + w;
          s0 = rotr32 2 a XOR rotr32 13 a XOR rotr32 22 a;
          maj = (a AND b) XOR (a AND c) XOR (b AND c)
      in [t1 + s0 + maj, a, b, c, d + t1, e, f, g])"
| "sha_round st _ = st"

definition sha_block :: "32 word list \<Rightarrow> 32 word list \<Rightarrow> 32 word list" where
  "sha_block st ws =
     map2 (+) st (foldl sha_round st (zip sha_round_constants (sha_schedule 64 ws)))"

function sha_blocks :: "32 word list \<Rightarrow> 32 word list \<Rightarrow> 32 word list" where
  "sha_blocks st ws = (if length ws < 16 then st else sha_blocks (sha_block st (take 16 ws)) (drop 16 ws))"
  by pat_completeness auto
termination by (relation "measure (\<lambda>(st, ws). length ws)") auto

declare sha_blocks.simps [simp del] sha_pad.simps [simp del]

definition be32_bytes :: "32 word \<Rightarrow> 8 word list" where
  "be32_bytes w = map (\<lambda>i. ucast (drop_bit (8 * i) w)) [3, 2, 1, 0]"

definition Sum256 :: "string \<Rightarrow> 8 word list" where
  "Sum256 s = concat (map be32_bytes (sha_blocks sha_initial (be32_words (sha_pad (map of_char s)))))"

end
