(* ===== verification/Routes.thy ===== *)
theory Routes
  imports Go_Encoding
begin

section \<open>Routes\<close>

text \<open>
  \<^verbatim>\<open>internal/proxy/routes.go\<close>: how a request path becomes the optimistic bucket path, the major
  parameter, the route hash and the metrics label. The clock readings of
  \<open>GetOptimisticBucketPath\<close> are gathered in a record, since the classification of a message
  deletion depends on the age of the message.
\<close>

subsection \<open>Hashes and snowflakes\<close>

definition majorChannels :: string where "majorChannels = ''channels''"
definition majorGuilds :: string where "majorGuilds = ''guilds''"
definition majorWebhooks :: string where "majorWebhooks = ''webhooks''"
definition majorInvites :: string where "majorInvites = ''invites''"
definition majorInteractions :: string where "majorInteractions = ''interactions''"
definition interactionTokenPrefix :: string where "interactionTokenPrefix = ''aW50ZXJhY3Rpb246''"

lemmas major_defs = majorChannels_def majorGuilds_def majorWebhooks_def majorInvites_def majorInteractions_def

definition nul :: char where "nul = char_of (0 :: nat)"

definition HashCRC64 :: "string \<Rightarrow> u64" where
  "HashCRC64 data = crc64_Checksum data"

definition routeHash :: "string \<Rightarrow> string \<Rightarrow> string \<Rightarrow> u64" where
  "routeHash verb bucketPath majorKey = HashCRC64 (verb @ nul # bucketPath @ nul # majorKey)"

definition isNumericInput :: "string \<Rightarrow> bool" where
  "isNumericInput s \<longleftrightarrow> s \<noteq> [] \<and> list_all is_digit s"

definition isSnowflake :: "string \<Rightarrow> bool" where
  "isSnowflake s \<longleftrightarrow> \<not> (length s < 17 \<or> 20 < length s) \<and> isNumericInput s"

definition discordEpochMilliseconds :: nat where "discordEpochMilliseconds = 1420070400000"

definition snowflakeCreatedAt :: "time \<Rightarrow> string \<Rightarrow> time \<times> bool" where
  \<comment> \<open>the flag is \<^verbatim>\<open>err != nil\<close>; the time is then \<^verbatim>\<open>time.Now()\<close>\<close>
  "snowflakeCreatedAt now snowflake =
     (case ParseUint snowflake 64 of
        None \<Rightarrow> (now, True)
      | Some parsedID \<Rightarrow>
          let epoch = parsedID div 2 ^ 22 + discordEpochMilliseconds in
          (int (epoch div 1000) * Second, False))"


subsection \<open>The optimistic bucket path\<close>

record clock_readings =
  at_parse :: time
  at_old :: time
  at_recent :: time

definition interaction_id :: "string \<Rightarrow> string" where
  "interaction_id part =
     (let padding = length part mod 4;
          padded = (if padding \<noteq> 0 then part @ replicate (4 - padding) CHR ''='' else part)
      in case StdDecode padded of
           None \<Rightarrow> ''Unknown''
         | Some decoded \<Rightarrow>
             let iid = fst (Cut CHR '':'' (fst (snd (Cut CHR '':'' decoded)))) in
             if iid = [] then ''Unknown'' else iid)"

fun bucket_parts ::
  "clock_readings \<Rightarrow> string \<Rightarrow> string \<Rightarrow> nat \<Rightarrow> string \<Rightarrow> string list \<Rightarrow> string" where
  \<comment> \<open>the loop over \<^verbatim>\<open>remainingParts\<close>: the major, the method, the index, the part before, the parts left\<close>
  "bucket_parts clk major verb index prev [] = []"
| "bucket_parts clk major verb index prev (part # rest) =
     (if isSnowflake part then
        (if major = majorChannels \<and> prev = ''messages'' \<and> verb = ''DELETE'' \<and> rest = [] then
           (let createdAt = fst (snowflakeCreatedAt (at_parse clk) part) in
            (if createdAt < at_old clk - 14 * 24 * Hour then ''/!14dmsg''
             else if at_recent clk - 10 * Second < createdAt then ''/!10smsg'' else []))
         else ''/!'') @ bucket_parts clk major verb (Suc index) part rest
      else if major = majorChannels \<and> part = ''reactions'' then
        (if verb = ''PUT'' \<or> verb = ''DELETE'' then ''/reactions/!modify'' else ''/reactions/!/!'')
      else
        (if (index = 0 \<and> (major = majorWebhooks \<or> major = majorInteractions)) \<or> 64 \<le> length part then
           (if \<not> HasPrefix part interactionTokenPrefix then ''/!'' else CHR ''/'' # interaction_id part)
         else CHR ''/'' # part) @ bucket_parts clk major verb (Suc index) part rest)"

definition clean_bucket_path :: "string \<Rightarrow> string" where
  "clean_bucket_path path =
     (let cleanPath = hd (Split CHR ''?'' path); versioned = TrimPrefix cleanPath ''/api/v'' in
      if versioned \<noteq> cleanPath then
        (case IndexByte versioned CHR ''/'' of
           Some slash \<Rightarrow>
             if isNumericInput (take slash versioned) then drop (slash + 1) versioned
             else TrimPrefix cleanPath ''/api/''
         | None \<Rightarrow> TrimPrefix cleanPath ''/api/'')
      else (let unversioned = TrimPrefix cleanPath ''/api/'' in
            if unversioned \<noteq> cleanPath then unversioned else TrimPrefix cleanPath ''/''))"

definition bucket_of_parts :: "clock_readings \<Rightarrow> string \<Rightarrow> string list \<Rightarrow> string" where
  \<comment> \<open>for at least two parts\<close>
  "bucket_of_parts clk verb parts =
     (let major = parts ! 0; p1 = parts ! 1;
          head =
            (if major = majorChannels then majorChannels @ CHR ''/'' # p1
             else if major = ''users'' then ''users/'' @ (if isSnowflake p1 then ''!'' else p1)
             else if major = majorInvites then majorInvites @ ''/!''
             else major @ CHR ''/'' # p1)
      in if (major = majorGuilds \<or> major = majorInteractions) \<and> length parts = 4 \<and> parts ! 3 = ''callback''
         then CHR ''/'' # majorInteractions @ CHR ''/'' # p1 @ ''/!/callback''
         else CHR ''/'' # head @ bucket_parts clk major verb 0 p1 (drop 2 parts))"

definition GetOptimisticBucketPath :: "clock_readings \<Rightarrow> string \<Rightarrow> string \<Rightarrow> string" where
  "GetOptimisticBucketPath clk path verb =
     (let cleanPath = clean_bucket_path path; parts = Split CHR ''/'' cleanPath in
      if length parts \<le> 1 then cleanPath else bucket_of_parts clk verb parts)"


subsection \<open>Metrics path, major parameter, interactions\<close>

definition metrics_part :: "string \<Rightarrow> string" where
  "metrics_part part = (if part = [] then [] else if isNumericInput part then ''/!'' else CHR ''/'' # part)"

definition MetricsPathFromBucket :: "string \<Rightarrow> string" where
  "MetricsPathFromBucket route =
     (let result = concat (map metrics_part (Split CHR ''/'' route)) in
      if \<not> ValidString result then ToValidUTF8 result ''@'' else result)"

definition cleanAPIPath :: "string \<Rightarrow> string list" where
  "cleanAPIPath path =
     (let parts = Split CHR ''/'' (TrimPrefix (hd (Split CHR ''?'' path)) ''/'') in
      if parts \<noteq> [] \<and> hd parts = ''api'' then
        (let parts' = tl parts in
         if parts' \<noteq> [] \<and> 1 < length (hd parts') \<and> hd (hd parts') = CHR ''v'' \<and> isNumericInput (tl (hd parts'))
         then tl parts' else parts')
      else parts)"

definition majorParameter :: "string \<Rightarrow> string" where
  "majorParameter path =
     (let parts = cleanAPIPath path in
      if length parts < 2 then []
      else if parts ! 0 = majorChannels \<or> parts ! 0 = majorGuilds then parts ! 0 @ CHR '':'' # parts ! 1
      else if parts ! 0 = majorWebhooks then
        (if 3 \<le> length parts
         then parts ! 0 @ CHR '':'' # parts ! 1 @ CHR '':'' # format_nat (unat (HashCRC64 (parts ! 2)))
         else parts ! 0 @ CHR '':'' # parts ! 1)
      else [])"

definition isInteractionEndpoint :: "string \<Rightarrow> bool" where
  "isInteractionEndpoint path =
     (let parts = cleanAPIPath path in
      if 4 \<le> length parts \<and> parts ! 0 = majorInteractions \<and> parts ! 3 = ''callback'' then True
      else 3 \<le> length parts \<and> parts ! 0 = majorWebhooks \<and> HasPrefix (parts ! 2) interactionTokenPrefix)"


subsection \<open>Request paths by their parts\<close>

definition api_version :: "string \<Rightarrow> bool" where
  "api_version part \<longleftrightarrow> part \<noteq> [] \<and> hd part = CHR ''v'' \<and> isNumericInput (tl part)"

definition api_prefix :: "string \<Rightarrow> bool" where
  \<comment> \<open>what may stand before the first part of a route\<close>
  "api_prefix pre \<longleftrightarrow> pre = ''/'' \<or> pre = ''/api/'' \<or>
     (\<exists>n. isNumericInput n \<and> pre = ''/api/v'' @ n @ ''/'')"

definition query_string :: "string \<Rightarrow> bool" where
  "query_string q \<longleftrightarrow> q = [] \<or> hd q = CHR ''?''"

definition path_part :: "string \<Rightarrow> bool" where
  "path_part p \<longleftrightarrow> CHR ''/'' \<notin> set p \<and> CHR ''?'' \<notin> set p"

definition route_parts :: "string list \<Rightarrow> bool" where
  \<comment> \<open>parts of a route: the first is neither \<^verbatim>\<open>api\<close> nor a version\<close>
  "route_parts ps \<longleftrightarrow> ps \<noteq> [] \<and> list_all path_part ps \<and> hd ps \<noteq> ''api'' \<and> \<not> api_version (hd ps)"

definition url :: "string \<Rightarrow> string list \<Rightarrow> string \<Rightarrow> string" where
  "url pre ps q = pre @ Join CHR ''/'' ps @ q"

lemma Join_no_query: "list_all path_part ps \<Longrightarrow> CHR ''?'' \<notin> set (Join CHR ''/'' ps)"
  using set_Join [of "CHR ''/''" ps] by (auto simp: list_all_iff path_part_def)

lemma numeric_clean: "isNumericInput n \<Longrightarrow> path_part n"
  using digits_no_sep by (simp add: isNumericInput_def path_part_def)

lemma api_prefix_no_query: "api_prefix pre \<Longrightarrow> CHR ''?'' \<notin> set pre"
  using numeric_clean by (auto simp: api_prefix_def path_part_def)

lemma takeWhile_query: "\<lbrakk>CHR ''?'' \<notin> set s; query_string q\<rbrakk> \<Longrightarrow> takeWhile (\<lambda>x. x \<noteq> CHR ''?'') (s @ q) = s"
  by (cases q) (auto simp: query_string_def)

lemma hd_Split_url:
  "\<lbrakk>api_prefix pre; route_parts ps; query_string q\<rbrakk> \<Longrightarrow>
   hd (Split CHR ''?'' (url pre ps q)) = pre @ Join CHR ''/'' ps"
  using takeWhile_query [of "pre @ Join CHR ''/'' ps" q] api_prefix_no_query [of pre] Join_no_query [of ps]
  by (simp add: hd_Split url_def route_parts_def)

lemma Split_route: "route_parts ps \<Longrightarrow> Split CHR ''/'' (Join CHR ''/'' ps) = ps"
  by (rule Split_Join) (auto simp: route_parts_def list_all_iff path_part_def)

lemma Join_front: "\<lbrakk>ps \<noteq> []; CHR ''/'' \<notin> set (hd ps)\<rbrakk> \<Longrightarrow> takeWhile (\<lambda>x. x \<noteq> CHR ''/'') (Join CHR ''/'' ps) = hd ps"
  by (cases ps; cases "tl ps") auto

lemma not_api_prefix:
  assumes "route_parts ps"
  shows "\<not> HasPrefix (CHR ''/'' # Join CHR ''/'' ps) (''/api/'' @ x)"
proof
  assume "HasPrefix (CHR ''/'' # Join CHR ''/'' ps) (''/api/'' @ x)"
  then obtain y where "Join CHR ''/'' ps = ''api/'' @ x @ y"
    using HasPrefixE by fastforce
  moreover have "CHR ''/'' \<notin> set (hd ps)" "ps \<noteq> []" "hd ps \<noteq> ''api''"
    using assms by (auto simp: route_parts_def list_all_iff path_part_def)
  ultimately show False using Join_front [of ps] by simp
qed

lemma IndexByte_take: "IndexByte s c = Some k \<Longrightarrow> take k s = takeWhile (\<lambda>x. x \<noteq> c) s"
  by (auto simp: IndexByte_def takeWhile_eq_take [symmetric] split: if_splits)

lemma clean_unversioned:
  assumes "route_parts ps"
  shows "clean_bucket_path (''/api/'' @ Join CHR ''/'' ps) = Join CHR ''/'' ps"
proof -
  let ?J = "Join CHR ''/'' ps"
  have front: "takeWhile (\<lambda>x. x \<noteq> CHR ''/'') ?J = hd ps" and nv: "\<not> api_version (hd ps)"
    and q: "hd (Split CHR ''?'' (''/api/'' @ ?J)) = ''/api/'' @ ?J"
    using assms Join_front [of ps] hd_Split_url [of "''/api/''" ps "[]"]
    by (auto simp: route_parts_def list_all_iff path_part_def api_prefix_def query_string_def url_def)
  have un: "TrimPrefix (''/api/'' @ ?J) ''/api/'' = ?J" by (rule TrimPrefix_append)
  show ?thesis
  proof (cases "HasPrefix ?J ''v''")
    case True
    then obtain y where y: "?J = CHR ''v'' # y" using HasPrefixE by fastforce
    have v: "hd ps = CHR ''v'' # takeWhile (\<lambda>x. x \<noteq> CHR ''/'') y" using front y by simp
    have "TrimPrefix (''/api/'' @ ?J) ''/api/v'' = y" using TrimPrefix_append [of "''/api/v''" y] y by simp
    moreover have "IndexByte y CHR ''/'' = Some k \<Longrightarrow> \<not> isNumericInput (take k y)" for k
      using IndexByte_take [of y "CHR ''/''" k] nv v by (auto simp: api_version_def)
    ultimately show ?thesis using q un by (simp add: clean_bucket_path_def Let_def split: option.split)
  next
    case False
    hence "TrimPrefix (''/api/'' @ ?J) ''/api/v'' = ''/api/'' @ ?J"
      by (auto simp: TrimPrefix_def HasPrefix_def)
    thus ?thesis using q un by (simp add: clean_bucket_path_def Let_def)
  qed
qed

lemma clean_bucket_path_url:
  assumes "api_prefix pre" "route_parts ps" "query_string q"
  shows "clean_bucket_path (url pre ps q) = Join CHR ''/'' ps"
proof -
  let ?J = "Join CHR ''/'' ps"
  have "clean_bucket_path (url pre ps q) = clean_bucket_path (pre @ ?J)"
    using hd_Split_url [OF assms] hd_Split_url [OF assms(1,2), of "[]"]
    by (simp add: clean_bucket_path_def url_def query_string_def Let_def)
  also have "\<dots> = ?J"
  proof -
    consider "pre = ''/''" | "pre = ''/api/''" | n where "isNumericInput n" "pre = ''/api/v'' @ n @ ''/''"
      using assms(1) by (auto simp: api_prefix_def)
    thus ?thesis
    proof cases
      case 1
      have "TrimPrefix (CHR ''/'' # ?J) (''/api/'' @ x) = CHR ''/'' # ?J" for x
        using not_api_prefix [OF assms(2), of x] by (rule TrimPrefix_id)
      from this [of "''v''"] this [of "[]"] show ?thesis
        using 1 hd_Split_url [OF assms(1,2), of "[]"] TrimPrefix_append [of "''/''" ?J]
        by (simp add: clean_bucket_path_def url_def query_string_def Let_def)
    next
      case 2 thus ?thesis using clean_unversioned [OF assms(2)] by simp
    next
      case (3 n)
      have "IndexByte (n @ CHR ''/'' # ?J) CHR ''/'' = Some (length n)"
        using numeric_clean [OF 3(1)] by (simp add: IndexByte_def path_part_def)
      thus ?thesis
        using 3 hd_Split_url [OF assms(1,2), of "[]"] TrimPrefix_append [of "''/api/v''" "n @ CHR ''/'' # ?J"]
        by (simp add: clean_bucket_path_def url_def query_string_def Let_def)
    qed
  qed
  finally show ?thesis .
qed

lemma cleanAPIPath_url:
  assumes "api_prefix pre" "route_parts ps" "query_string q"
  shows "cleanAPIPath (url pre ps q) = ps"
proof -
  let ?J = "Join CHR ''/'' ps"
  obtain p ps' where ps: "ps = p # ps'" "p \<noteq> ''api''" "\<not> api_version p"
    using assms(2) by (cases ps) (auto simp: route_parts_def)
  have J: "Split CHR ''/'' ?J = ps" by (rule Split_route [OF assms(2)])
  consider "pre = ''/''" | "pre = ''/api/''" | n where "isNumericInput n" "pre = ''/api/v'' @ n @ ''/''"
    using assms(1) by (auto simp: api_prefix_def)
  thus ?thesis
  proof cases
    case 1 thus ?thesis
      using hd_Split_url [OF assms] J ps TrimPrefix_append [of "''/''" ?J] by (simp add: cleanAPIPath_def Let_def)
  next
    case 2 thus ?thesis
      using hd_Split_url [OF assms] J ps TrimPrefix_append [of "''/''" "''api'' @ CHR ''/'' # ?J"]
      by (auto simp: cleanAPIPath_def Let_def api_version_def)
  next
    case (3 n)
    have "Split CHR ''/'' ((CHR ''v'' # n) @ CHR ''/'' # ?J) = (CHR ''v'' # n) # ps"
      using numeric_clean [OF 3(1)] J by (simp add: path_part_def)
    thus ?thesis
      using hd_Split_url [OF assms] 3 TrimPrefix_append [of "''/''" "''api'' @ CHR ''/'' # (CHR ''v'' # n) @ CHR ''/'' # ?J"]
      by (auto simp: cleanAPIPath_def Let_def isNumericInput_def)
  qed
qed


subsection \<open>Properties\<close>

definition token_class :: "string \<Rightarrow> string option" where
  \<comment> \<open>what a bucket path keeps of the token of a webhook or an interaction\<close>
  "token_class t = (if HasPrefix t interactionTokenPrefix then Some (interaction_id t) else None)"

definition token_text :: "string option \<Rightarrow> string" where
  "token_text c = (case c of None \<Rightarrow> ''!'' | Some i \<Rightarrow> i)"

lemma optimistic_url:
  "\<lbrakk>api_prefix pre; route_parts ps; query_string q; 2 \<le> length ps\<rbrakk> \<Longrightarrow>
   GetOptimisticBucketPath clk (url pre ps q) verb = bucket_of_parts clk verb ps"
  by (simp add: GetOptimisticBucketPath_def clean_bucket_path_url Split_route)

lemma snowflake_no_token: "isSnowflake t \<Longrightarrow> \<not> HasPrefix t interactionTokenPrefix"
proof
  assume t: "isSnowflake t" "HasPrefix t interactionTokenPrefix"
  obtain y where "t = interactionTokenPrefix @ y" using HasPrefixE [OF t(2)] by blast
  moreover have "list_all is_digit t" using t(1) by (simp add: isSnowflake_def isNumericInput_def)
  ultimately show False by (simp add: interactionTokenPrefix_def is_digit_def)
qed

lemma bucket_parts_token:
  "major = majorWebhooks \<or> major = majorInteractions \<Longrightarrow>
   bucket_parts clk major verb 0 prev (t # rest) =
     CHR ''/'' # token_text (token_class t) @ bucket_parts clk major verb 1 t rest"
  using snowflake_no_token [of t] by (auto simp: major_defs token_class_def token_text_def)

lemma bucket_parts_prev:
  "major \<noteq> majorChannels \<Longrightarrow>
   bucket_parts clk major verb i p rest = bucket_parts clk major verb i p' rest"
  by (cases rest) simp_all

lemma bucket_of_parts_token:
  "major = majorWebhooks \<or> major = majorInteractions \<Longrightarrow>
   bucket_of_parts clk verb (major # i # t # rest) =
     (if major = majorInteractions \<and> length rest = 1 \<and> rest ! 0 = ''callback''
      then ''/interactions/'' @ i @ ''/!/callback''
      else CHR ''/'' # major @ CHR ''/'' # i @ CHR ''/'' # token_text (token_class t) @
        bucket_parts clk major verb 1 [] rest)"
  using bucket_parts_token [of major clk verb i t rest] bucket_parts_prev [of major clk verb 1 t rest "[]"]
  by (elim disjE) (simp_all add: bucket_of_parts_def Let_def major_defs del: bucket_parts.simps)


lemma api_prefix_v10: "api_prefix ''/api/v10/''"
  unfolding api_prefix_def by (rule disjI2, rule disjI2, rule exI [of _ "''10''"]) code_simp

definition example_token :: "string \<Rightarrow> string" where
  "example_token secret = interactionTokenPrefix @ ''MTIzNDU2Ojc4'' @ secret"




lemma bucket_of_parts_major:
  assumes "major = majorChannels \<or> major = majorGuilds \<and> \<not> (length rest = 2 \<and> rest ! 1 = ''callback'') \<or> major = majorWebhooks"
  shows "bucket_of_parts clk verb (major # i # rest) =
    CHR ''/'' # major @ CHR ''/'' # i @ bucket_parts clk major verb 0 i rest"
  using assms by (elim disjE) (auto simp: bucket_of_parts_def Let_def major_defs)

lemma bucket_parts_slash:
  "bucket_parts clk major verb k p rest = [] \<or> hd (bucket_parts clk major verb k p rest) = CHR ''/''"
proof (induction clk major verb k p rest rule: bucket_parts.induct)
  case (2 clk major verb index prev part rest)
  thus ?case
    by (cases "isSnowflake part") (auto simp: Let_def hd_append)
qed simp

lemma slash_tail: "t = [] \<or> hd t = CHR ''/'' \<Longrightarrow> CHR ''/'' \<notin> set i \<Longrightarrow> takeWhile (\<lambda>x. x \<noteq> CHR ''/'') (i @ t) = i"
  by (cases t) auto



lemma majorParameter_url:
  assumes "api_prefix pre" "query_string q" "route_parts (major # i # rest)"
  shows "majorParameter (url pre (major # i # rest) q) =
    (if major = majorChannels \<or> major = majorGuilds then major @ CHR '':'' # i
     else if major = majorWebhooks then
       major @ CHR '':'' # i @ (if rest = [] then [] else CHR '':'' # format_nat (unat (HashCRC64 (hd rest))))
     else [])"
  using assms by (cases rest) (auto simp: majorParameter_def cleanAPIPath_url)

lemma colon_tail: "t = [] \<or> hd t = CHR '':'' \<Longrightarrow> CHR '':'' \<notin> set i \<Longrightarrow> takeWhile (\<lambda>x. x \<noteq> CHR '':'') (i @ t) = i"
  by (cases t) auto



lemma Split_metrics:
  "(\<And>p. p \<in> set ps \<Longrightarrow> CHR ''/'' \<notin> set p) \<Longrightarrow>
   Split CHR ''/'' (concat (map metrics_part ps)) =
     [] # map (\<lambda>p. if isNumericInput p then ''!'' else p) (filter (\<lambda>p. p \<noteq> []) ps)"
proof (induction ps)
  case (Cons p ps)
  have *: "CHR ''/'' \<notin> set a \<Longrightarrow> Split CHR ''/'' (a @ t) = a # qs"
    if "Split CHR ''/'' t = [] # qs" for a t qs
    using that by (induction a) auto
  have "Split CHR ''/'' (concat (map metrics_part ps)) =
      [] # map (\<lambda>p. if isNumericInput p then ''!'' else p) (filter (\<lambda>p. p \<noteq> []) ps)"
    using Cons by simp
  from * [OF this, of "''!''"] * [OF this, of p] this show ?case
    using Cons.prems by (auto simp: metrics_part_def [of p])
qed simp

lemma ToValidUTF8_numeric:
  assumes "isNumericInput (ToValidUTF8 p ''@'')" shows "isNumericInput p"
proof -
  have "CHR ''@'' \<notin> set (ToValidUTF8 p ''@'')"
    using assms not_digit(4) by (auto simp: isNumericInput_def list_all_iff)
  thus ?thesis using ToValidUTF8_unchanged assms by fastforce
qed

text \<open>
  Metric labels: for every route, valid UTF-8 or not, the metrics path is valid UTF-8, as
  Prometheus requires, and none of its components is a number, so ids never become labels.
\<close>

lemma metrics_path_safe:
  "ValidString (MetricsPathFromBucket route) \<and>
   list_all (\<lambda>p. \<not> isNumericInput p) (Split CHR ''/'' (MetricsPathFromBucket route))"
proof -
  let ?r = "concat (map metrics_part (Split CHR ''/'' route))"
  have "Split CHR ''/'' ?r =
      [] # map (\<lambda>p. if isNumericInput p then ''!'' else p) (filter (\<lambda>p. p \<noteq> []) (Split CHR ''/'' route))"
    by (rule Split_metrics) (rule Split_parts)
  hence "list_all (\<lambda>p. \<not> isNumericInput p) (Split CHR ''/'' ?r)"
    by (auto simp: list_all_iff isNumericInput_def is_digit_def)
  thus ?thesis
    using ToValidUTF8_valid ToValidUTF8_numeric
    by (auto simp: MetricsPathFromBucket_def Let_def Split_valid_utf8 list_all_iff)
qed

end
