(* ===== verification/Identity.thy ===== *)
theory Identity
  imports Routes Pacer
begin

section \<open>Identities and global overrides\<close>

text \<open>
  Who a request belongs to (\<^verbatim>\<open>identify\<close>, \<^verbatim>\<open>botIDFromToken\<close> and \<^verbatim>\<open>fingerprint\<close> of
  \<^verbatim>\<open>internal/proxy/scheduler.go\<close>) and which global limit it has (\<^verbatim>\<open>parseGlobalOverrides\<close> of
  \<^verbatim>\<open>internal/proxy/ratelimit.go\<close> and \<^verbatim>\<open>globalLimit\<close>). A key is the SHA-256 digest of the credential,
  a list of 32 bytes.
\<close>

subsection \<open>Identities\<close>

datatype authType = authBot | authNone | authBearer

record identity =
  kind :: authType
  key :: "8 word list"
  botID :: string
  label :: string

definition no_auth :: identity where
  "no_auth = \<lparr>kind = authNone, key = replicate 32 0, botID = [], label = ''NoAuth''\<rparr>"

definition botIDFromToken :: "string \<Rightarrow> string" where
  "botIDFromToken token =
     (let encoded = fst (Cut CHR ''.'' token);
          decoded = (case RawStdDecode encoded of None \<Rightarrow> RawURLDecode encoded | Some d \<Rightarrow> Some d)
      in case decoded of None \<Rightarrow> [] | Some d \<Rightarrow> if \<not> isNumericInput d then [] else d)"

definition blank :: "char \<Rightarrow> bool" where
  "blank c \<longleftrightarrow> c = CHR '' '' \<or> c = char_of (9 :: nat)"

definition identify :: "string \<Rightarrow> identity" where
  "identify raw =
     (let auth = TrimSpace raw in
      if auth = [] then no_auth
      else
        let (scheme, credential) =
              (if \<not> list_ex blank auth then (''Bot'', auth)
               else (takeWhile (\<lambda>c. \<not> blank c) auth, TrimSpace (tl (dropWhile (\<lambda>c. \<not> blank c) auth))))
        in if EqualFold scheme ''Basic'' then no_auth
           else if EqualFold scheme ''Bearer'' then
             \<lparr>kind = authBearer, key = Sum256 credential, botID = [], label = ''Bearer''\<rparr>
           else if \<not> EqualFold scheme ''Bot'' then no_auth
           else \<lparr>kind = authBot, key = Sum256 credential, botID = botIDFromToken credential, label = ''Bot''\<rparr>)"

definition fingerprint :: "identity \<Rightarrow> string" where
  "fingerprint i = ''sha256:'' @ hex_encode (key i)"


subsection \<open>Overrides of the global limit\<close>

datatype override_error = BadEntry | BadFingerprint | BadKey | BadLimit

definition parse_override :: "string \<Rightarrow> override_error + (string \<times> nat)" where
  "parse_override rawOverride =
     (case Cut CHR '':'' (TrimSpace rawOverride) of (k, rawLimit, ok) \<Rightarrow>
        if \<not> ok then Inl BadEntry
        else
          case (if k = ''sha256'' then
                  (case Cut CHR '':'' rawLimit of (fp, remainder, found) \<Rightarrow>
                     if \<not> found then Inl BadFingerprint
                     else if fp \<noteq> ToLower fp then Inl BadFingerprint
                     else case hex_decode fp of
                            None \<Rightarrow> Inl BadFingerprint
                          | Some decoded \<Rightarrow>
                              if length decoded \<noteq> 32 then Inl BadFingerprint
                              else Inr (''sha256:'' @ fp, remainder))
                else if k = [] \<or> \<not> isNumericInput k then Inl BadKey
                else Inr (k, rawLimit)) of
            Inl e \<Rightarrow> Inl e
          | Inr (k', rawLimit') \<Rightarrow>
              (case ParseUint rawLimit' 32 of
                 None \<Rightarrow> Inl BadLimit
               | Some lim \<Rightarrow> if lim = 0 then Inl BadLimit else Inr (k', lim)))"

fun parse_overrides :: "(string, nat) gomap \<Rightarrow> string list \<Rightarrow> override_error + (string, nat) gomap" where
  "parse_overrides overrides [] = Inr overrides"
| "parse_overrides overrides (raw # raws) =
     (case parse_override raw of
        Inl e \<Rightarrow> Inl e
      | Inr (k, lim) \<Rightarrow> parse_overrides (AList.update k lim overrides) raws)"

definition parseGlobalOverrides :: "string \<Rightarrow> override_error + (string, nat) gomap" where
  "parseGlobalOverrides v =
     (if TrimSpace v = [] then Inr [] else parse_overrides [] (Split CHR '','' v))"

definition lookup_limit :: "(string, nat) gomap \<Rightarrow> string \<Rightarrow> nat" where
  \<comment> \<open>a missing key reads as zero\<close>
  "lookup_limit m k = (case map_of m k of None \<Rightarrow> 0 | Some n \<Rightarrow> n)"

definition globalLimit :: "(string, nat) gomap \<Rightarrow> identity \<Rightarrow> nat" where
  "globalLimit overrides i =
     (if lookup_limit overrides (botID i) \<noteq> 0 then lookup_limit overrides (botID i)
      else if lookup_limit overrides (fingerprint i) \<noteq> 0 then lookup_limit overrides (fingerprint i)
      else discordGlobalLimit)"


subsection \<open>Lemmas on trimming\<close>

definition graphic :: "char \<Rightarrow> bool" where
  \<comment> \<open>a printable ASCII character other than the space\<close>
  "graphic c \<longleftrightarrow> 33 \<le> (of_char c :: nat) \<and> of_char c \<le> (126 :: nat)"

lemma space_codes_not_graphic:
  "list_all (\<lambda>sp. sp \<noteq> [] \<and> \<not> (33 \<le> hd sp \<and> hd sp \<le> 126) \<and> \<not> (33 \<le> last sp \<and> last sp \<le> 126)) space_codes"
  by (simp add: space_codes_def upt_rec)

lemma leading_space_graphic: "s \<noteq> [] \<Longrightarrow> graphic (hd s) \<Longrightarrow> leading_space s = 0"
proof -
  assume s: "s \<noteq> []" "graphic (hd s)"
  have "map of_char (take (length sp) s) \<noteq> sp" if "sp \<in> set space_codes" for sp
  proof
    assume eq: "map of_char (take (length sp) s) = sp"
    have sp: "sp \<noteq> []" "\<not> (33 \<le> hd sp \<and> hd sp \<le> 126)"
      using that space_codes_not_graphic by (auto simp: list_all_iff)
    hence "hd sp = of_char (hd s)" using eq s(1) by (cases s; cases sp) auto
    thus False using sp s(2) by (auto simp: graphic_def)
  qed
  hence "find (\<lambda>sp. map of_char (take (length sp) s) = sp) space_codes = None"
    by (auto simp: find_None_iff)
  thus ?thesis by (simp add: leading_space_def)
qed

lemma trailing_space_graphic: "s \<noteq> [] \<Longrightarrow> graphic (last s) \<Longrightarrow> trailing_space s = 0"
proof -
  assume s: "s \<noteq> []" "graphic (last s)"
  have "map of_char (drop (length s - length sp) s) \<noteq> sp" if "sp \<in> set space_codes" for sp
  proof
    assume eq: "map of_char (drop (length s - length sp) s) = sp"
    have sp: "sp \<noteq> []" "\<not> (33 \<le> last sp \<and> last sp \<le> 126)"
      using that space_codes_not_graphic by (auto simp: list_all_iff)
    have "length s - length sp < length s" using sp(1) s(1) by (cases s; cases sp) auto
    hence "last (map of_char (drop (length s - length sp) s)) = (of_char (last s) :: nat)"
      by (simp add: last_map last_drop)
    hence "last sp = of_char (last s)" unfolding eq .
    thus False using sp s(2) by (auto simp: graphic_def)
  qed
  hence "find (\<lambda>sp. map of_char (drop (length s - length sp) s) = sp) space_codes = None"
    by (auto simp: find_None_iff)
  thus ?thesis by (simp add: trailing_space_def)
qed

lemma TrimSpace_graphic:
  assumes "s \<noteq> []" "graphic (hd s)" "graphic (last s)"
  shows "TrimSpace s = s"
proof -
  have "TrimLeftSpace s = s" using assms by (subst TrimLeftSpace.simps) (simp add: leading_space_graphic)
  moreover have "TrimRightSpace s = s" using assms by (subst TrimRightSpace.simps) (simp add: trailing_space_graphic)
  ultimately show ?thesis by (simp add: TrimSpace_def)
qed


subsection \<open>Lemmas on identities and overrides\<close>

lemma graphic_not_blank: "graphic c \<Longrightarrow> \<not> blank c"
  by (auto simp: graphic_def blank_def)

lemma EqualFold_graphic:
  "list_all graphic s \<Longrightarrow> EqualFold s t \<longleftrightarrow> map ascii_lower s = map ascii_lower t"
  by (induction s t rule: EqualFold.induct) (auto simp: graphic_def)

lemma identify_bare:
  assumes "c \<noteq> []" "list_all graphic c"
  shows "identify c = \<lparr>kind = authBot, key = Sum256 c, botID = botIDFromToken c, label = ''Bot''\<rparr>"
proof -
  have "TrimSpace c = c" using assms by (intro TrimSpace_graphic) (auto simp: list_all_iff)
  moreover have "\<not> list_ex blank c" using assms(2) graphic_not_blank by (auto simp: list_all_iff list_ex_iff)
  moreover have "\<not> EqualFold ''Bot'' ''Basic''" "\<not> EqualFold ''Bot'' ''Bearer''" "EqualFold ''Bot'' ''Bot''"
    by code_simp+
  ultimately show ?thesis using assms(1) by (simp add: identify_def)
qed

lemma identify_scheme:
  assumes "c \<noteq> []" "list_all graphic c" "sch \<noteq> []" "list_all graphic sch"
  shows "identify (sch @ CHR '' '' # c) =
     (if EqualFold sch ''Basic'' then no_auth
      else if EqualFold sch ''Bearer'' then \<lparr>kind = authBearer, key = Sum256 c, botID = [], label = ''Bearer''\<rparr>
      else if \<not> EqualFold sch ''Bot'' then no_auth
      else \<lparr>kind = authBot, key = Sum256 c, botID = botIDFromToken c, label = ''Bot''\<rparr>)"
proof -
  have "TrimSpace (sch @ CHR '' '' # c) = sch @ CHR '' '' # c"
    using assms by (intro TrimSpace_graphic) (auto simp: list_all_iff)
  moreover have "TrimSpace c = c" using assms by (intro TrimSpace_graphic) (auto simp: list_all_iff)
  moreover have nb: "\<And>x. x \<in> set sch \<Longrightarrow> \<not> blank x" using assms(4) graphic_not_blank by (auto simp: list_all_iff)
  hence "takeWhile (\<lambda>c. \<not> blank c) (sch @ CHR '' '' # c) = sch"
    "dropWhile (\<lambda>c. \<not> blank c) (sch @ CHR '' '' # c) = CHR '' '' # c"
    by (simp_all add: takeWhile_append2 dropWhile_append2 blank_def)
  moreover have "list_ex blank (sch @ CHR '' '' # c)" by (simp add: blank_def)
  ultimately show ?thesis by (simp add: identify_def del: list_ex_append)
qed

text \<open>
  Who a credential belongs to: for a credential of printable characters, the bare credential
  and the credential after the scheme \<^verbatim>\<open>Bot\<close>, in any case, are the same identity, keyed by the
  digest of the credential alone; after \<^verbatim>\<open>Bearer\<close>, in any case, it is a bearer identity with the
  same key and no bot id; after any other scheme the request is unauthenticated.
\<close>

lemma identify_by_scheme:
  assumes "c \<noteq> []" and "list_all graphic c" and "sch \<noteq> []" and "list_all graphic sch"
  shows "key (identify c) = Sum256 c \<and> kind (identify c) = authBot \<and>
    identify (sch @ CHR '' '' # c) =
      (if map ascii_lower sch = ''bot'' then identify c
       else if map ascii_lower sch = ''bearer'' then
         (identify c)\<lparr>kind := authBearer, botID := [], label := ''Bearer''\<rparr>
       else no_auth)"
proof -
  have "map ascii_lower ''Bot'' = ''bot''" "map ascii_lower ''Bearer'' = ''bearer''"
    "map ascii_lower ''Basic'' = ''basic''" by code_simp+
  thus ?thesis using assms
    by (auto simp: identify_bare identify_scheme EqualFold_graphic)
qed

lemma botIDFromToken_numeric: "botIDFromToken t = [] \<or> isNumericInput (botIDFromToken t)"
  by (auto simp: botIDFromToken_def Let_def split: option.splits)

lemma identify_botID_numeric: "botID (identify h) = [] \<or> isNumericInput (botID (identify h))"
  using botIDFromToken_numeric by (auto simp: identify_def no_auth_def Let_def)


subsection \<open>Round trip of the overrides\<close>

datatype override_key = Bot_ID string | Token_digest "8 word list"

fun key_text :: "override_key \<Rightarrow> string" where
  "key_text (Bot_ID i) = i"
| "key_text (Token_digest d) = ''sha256:'' @ hex_encode d"

fun key_ok :: "override_key \<Rightarrow> bool" where
  "key_ok (Bot_ID i) \<longleftrightarrow> isNumericInput i"
| "key_ok (Token_digest d) \<longleftrightarrow> length d = 32"

definition override_text :: "override_key \<times> nat \<Rightarrow> string" where
  "override_text e = key_text (fst e) @ CHR '':'' # format_nat (snd e)"

definition override_ok :: "override_key \<times> nat \<Rightarrow> bool" where
  "override_ok e \<longleftrightarrow> key_ok (fst e) \<and> 0 < snd e \<and> snd e < 2 ^ 32"

lemma hex_digit_props:
  "n < 16 \<Longrightarrow> hex_value (hex_digit n) = Some n \<and> graphic (hex_digit n) \<and> ascii_lower (hex_digit n) = hex_digit n \<and>
     hex_digit n \<noteq> CHR '':'' \<and> hex_digit n \<noteq> CHR '',''"
proof -
  assume "n < 16"
  hence "n \<in> set [0..<16]" by simp
  thus ?thesis
    by (simp add: upt_rec, elim disjE)
      (simp_all add: hex_digit_def hex_value_def code_in_def graphic_def ascii_lower_def char_of_def bit_Suc_0_iff)
qed

lemma unat_byte_div: "unat (b :: 8 word) div 16 < 16"
proof -
  have "unat b < 2 ^ LENGTH(8)" by (rule unsigned_less)
  thus ?thesis by simp
qed

lemma hex_decode_encode: "hex_decode (hex_encode bs) = Some bs"
proof (induction bs)
  case (Cons b bs)
  have "unat b div 16 * 16 + unat b mod 16 = unat b" by simp
  thus ?case using Cons hex_digit_props [OF unat_byte_div [of b]] hex_digit_props [of "unat b mod 16"]
    by (simp add: hex_encode_def)
qed (simp add: hex_encode_def)

lemma hex_encode_chars:
  "c \<in> set (hex_encode bs) \<Longrightarrow> graphic c \<and> ascii_lower c = c \<and> c \<noteq> CHR '':'' \<and> c \<noteq> CHR '',''"
  using hex_digit_props unat_byte_div by (auto simp: hex_encode_def)

lemma digit_chars:
  "is_digit c \<Longrightarrow> graphic c \<and> c \<noteq> CHR '':'' \<and> c \<noteq> CHR '',''"
  by (auto simp: is_digit_def graphic_def Let_def)

lemma numeric_chars:
  "isNumericInput s \<Longrightarrow> s \<noteq> [] \<and> (\<forall>c \<in> set s. graphic c \<and> c \<noteq> CHR '':'' \<and> c \<noteq> CHR '','')"
  using digit_chars by (auto simp: isNumericInput_def list_all_iff)

lemma override_text_chars:
  assumes "override_ok e"
  shows "override_text e \<noteq> []" "\<forall>c \<in> set (override_text e). graphic c \<and> c \<noteq> CHR '',''"
proof -
  have d: "\<forall>c \<in> set (format_nat n). graphic c \<and> c \<noteq> CHR '',''" for n
    using format_nat_digits digit_chars by (auto simp: list_all_iff)
  show "override_text e \<noteq> []" by (simp add: override_text_def)
  have "\<forall>c \<in> set (key_text (fst e)). graphic c \<and> c \<noteq> CHR '',''"
  proof (cases "fst e")
    case (Bot_ID i) thus ?thesis using assms numeric_chars [of i] by (simp add: override_ok_def)
  next
    case (Token_digest ds)
    have "list_all (\<lambda>c. graphic c \<and> c \<noteq> CHR '','') ''sha256:''" by code_simp
    thus ?thesis using Token_digest hex_encode_chars [of _ ds] by (auto simp: list_all_iff)
  qed
  thus "\<forall>c \<in> set (override_text e). graphic c \<and> c \<noteq> CHR '',''"
    using d [of "snd e"] by (auto simp: override_text_def graphic_def)
qed

lemma parse_override_text:
  assumes "override_ok e"
  shows "parse_override (override_text e) = Inr (key_text (fst e), snd e)"
proof -
  have trim: "TrimSpace (override_text e) = override_text e"
    using override_text_chars [OF assms] by (intro TrimSpace_graphic) auto
  have num: "ParseUint (format_nat (snd e)) 32 = Some (snd e)" "snd e \<noteq> 0"
    using assms ParseUint_format [of "snd e" 32] by (auto simp: override_ok_def)
  show ?thesis
  proof (cases "fst e")
    case (Bot_ID i)
    have i: "isNumericInput i" using assms Bot_ID by (simp add: override_ok_def)
    moreover have "\<not> isNumericInput ''sha256''" by code_simp
    ultimately have "i \<noteq> ''sha256''" "i \<noteq> []" "CHR '':'' \<notin> set i" using numeric_chars by auto
    thus ?thesis using trim num i Bot_ID
      by (simp add: parse_override_def override_text_def)
  next
    case (Token_digest d)
    let ?h = "hex_encode d"
    have h: "CHR '':'' \<notin> set ?h" "ToLower ?h = ?h" "length d = 32"
      using hex_encode_chars [of _ d] assms Token_digest
      by (auto simp: ToLower_def override_ok_def intro: map_idI)
    have "Cut CHR '':'' (''sha256'' @ CHR '':'' # ?h @ CHR '':'' # format_nat (snd e)) =
        (''sha256'', ?h @ CHR '':'' # format_nat (snd e), True)" by (rule Cut_append) simp
    thus ?thesis using trim num h Token_digest
      by (simp add: parse_override_def override_text_def hex_decode_encode)
  qed
qed

lemma parse_overrides_texts:
  "list_all override_ok es \<Longrightarrow>
   \<exists>m. parse_overrides acc (map override_text es) = Inr m \<and>
     map_of m = map_of acc ++ map_of (rev (map (\<lambda>e. (key_text (fst e), snd e)) es))"
proof (induction es arbitrary: acc)
  case (Cons e es)
  obtain m where m: "parse_overrides (AList.update (key_text (fst e)) (snd e) acc) (map override_text es) = Inr m"
    "map_of m = map_of (AList.update (key_text (fst e)) (snd e) acc) ++
       map_of (rev (map (\<lambda>e. (key_text (fst e), snd e)) es))"
    using Cons by force
  have "map_of m = map_of acc ++ map_of (rev (map (\<lambda>e. (key_text (fst e), snd e)) (e # es)))"
    unfolding m(2) by (rule ext) (simp add: update_conv' map_add_def split: option.split)
  thus ?case using Cons.prems m(1) by (simp add: parse_override_text)
qed simp

text \<open>
  C40. Round trip of \<^verbatim>\<open>BOT_RATELIMIT_OVERRIDES\<close>: a comma-separated list of overrides, each a bot id or
  a token fingerprint and a limit below \<open>2 ^ 32\<close> other than zero, is accepted, and every key has
  the limit of its last entry; keys that are not listed have none.
\<close>

lemma overrides_round_trip:
  assumes "list_all override_ok es"
  shows "\<exists>m. parseGlobalOverrides (Join CHR '','' (map override_text es)) = Inr m \<and>
    map_of m = map_of (rev (map (\<lambda>e. (key_text (fst e), snd e)) es))"
proof (cases "es = []")
  case True
  have "TrimSpace [] = []" by code_simp
  thus ?thesis using True by (simp add: parseGlobalOverrides_def)
next
  case False
  let ?v = "Join CHR '','' (map override_text es)"
  have ok: "x \<noteq> [] \<and> (\<forall>c \<in> set x. graphic c \<and> c \<noteq> CHR '','')" if "x \<in> set (map override_text es)" for x
  proof -
    from that obtain e where "e \<in> set es" "x = override_text e" by auto
    thus ?thesis using assms override_text_chars [of e] by (simp add: list_all_iff)
  qed
  have split: "Split CHR '','' ?v = map override_text es"
    using ok False by (intro Split_Join) auto
  have ne: "?v \<noteq> []" using ok False by (cases es) (simp_all add: Join_nonempty)
  have "graphic CHR '',''" by code_simp
  moreover have "c = CHR '','' \<or> (\<exists>x \<in> set (map override_text es). c \<in> set x)" if "c \<in> set ?v" for c
    using that set_Join [of "CHR '',''" "map override_text es"] by blast
  ultimately have "\<forall>c \<in> set ?v. graphic c" using ok by metis
  hence "TrimSpace ?v = ?v" using ne by (intro TrimSpace_graphic) auto
  thus ?thesis using parse_overrides_texts [OF assms, of "[]"] split ne
    by (simp add: parseGlobalOverrides_def)
qed

lemma overrides_round_trip_witness:
  "\<exists>m. parseGlobalOverrides (Join CHR '','' [override_text (Bot_ID ''123'', 75), override_text (Token_digest (replicate 32 255), 500)]) = Inr m
     \<and> map_of m ''123'' = Some 75 \<and> map_of m ''456'' = None"
proof -
  have "list_all override_ok [(Bot_ID ''123'', 75), (Token_digest (replicate 32 255), 500)]"
    by (simp add: override_ok_def isNumericInput_def is_digit_def)
  from overrides_round_trip [OF this] show ?thesis by auto
qed

lemma parse_override_result:
  "parse_override raw = Inr (k, n) \<Longrightarrow> 0 < n \<and> n < 2 ^ 32 \<and> k \<noteq> []"
  by (auto simp: parse_override_def ParseUint_def Let_def split: prod.splits if_splits option.splits sum.splits)

lemma parse_overrides_result:
  "parse_overrides acc raws = Inr m \<Longrightarrow>
   (\<And>k n. map_of acc k = Some n \<Longrightarrow> 0 < n \<and> n < 2 ^ 32 \<and> k \<noteq> []) \<Longrightarrow>
   map_of m k = Some n \<Longrightarrow> 0 < n \<and> n < 2 ^ 32 \<and> k \<noteq> []"
proof (induction acc raws rule: parse_overrides.induct)
  case (2 acc raw raws)
  obtain k' n' where p: "parse_override raw = Inr (k', n')"
    using 2(2) by (auto split: sum.splits)
  show ?case
  proof (rule 2(1) [OF p refl])
    show "parse_overrides (AList.update k' n' acc) raws = Inr m" using 2(2) p by simp
    show "map_of m k = Some n" by (rule 2(4))
    show "0 < j \<and> j < 2 ^ 32 \<and> h \<noteq> []" if "map_of (AList.update k' n' acc) h = Some j" for h j
      using that parse_override_result [OF p] 2(3) by (auto simp: update_conv' split: if_splits)
  qed
qed simp

text \<open>
  Every identity has a usable global limit: with overrides that were accepted, the limit is
  positive, an override is applied only under the bot id of a bot or the fingerprint of the
  key, and without one the limit is Discord's default.
\<close>

lemma globalLimit_positive:
  assumes "parseGlobalOverrides v = Inr m"
  shows "0 < globalLimit m (identify h) \<and>
    (globalLimit m (identify h) \<noteq> discordGlobalLimit \<longrightarrow>
      kind (identify h) = authBot \<and> map_of m (botID (identify h)) = Some (globalLimit m (identify h)) \<or>
      map_of m (fingerprint (identify h)) = Some (globalLimit m (identify h)))"
proof -
  have r: "0 < n \<and> k \<noteq> []" if "map_of m k = Some n" for k n
  proof (cases "TrimSpace v = []")
    case False
    hence "parse_overrides [] (Split CHR '','' v) = Inr m" using assms by (simp add: parseGlobalOverrides_def)
    from parse_overrides_result [OF this _ that] show ?thesis by simp
  qed (use assms that in \<open>simp add: parseGlobalOverrides_def\<close>)
  have "botID (identify h) \<noteq> [] \<Longrightarrow> kind (identify h) = authBot"
    by (simp add: identify_def no_auth_def Let_def del: EqualFold.simps split: prod.split if_split_asm)
  moreover have "lookup_limit m k \<noteq> 0 \<Longrightarrow> map_of m k = Some (lookup_limit m k) \<and> k \<noteq> []" for k
    using r by (auto simp: lookup_limit_def split: option.splits)
  ultimately show ?thesis by (simp add: globalLimit_def discordGlobalLimit_def)
qed

end
