(* ===== verification/Client.thy ===== *)
theory Client
  imports Identity Bucket Budget
begin

section \<open>Client state\<close>

text \<open>
  \<^verbatim>\<open>clientState\<close> of \<^verbatim>\<open>internal/proxy/scheduler.go\<close>: the buckets of one credential, the aliases that
  \<^verbatim>\<open>learnBucket\<close> records when Discord names the bucket of a route, and the accounting of both
  against the process-wide budget. Buckets are shared by pointer, and pointers are compared, so
  they live in a heap: a bucket is an index into \<open>heap\<close>, and \<^verbatim>\<open>newBucketState\<close> appends.
  The budget \<^verbatim>\<open>slots\<close>, a pointer shared by all clients, is the other part of the \<open>world\<close>.
\<close>

subsection \<open>State and operations\<close>

datatype sched_error = ErrTooManyClients | ErrBucketStateLimit | ErrProxyClosed | ErrGate gate_error

datatype validity = clientUnknown | clientValid | clientInvalid

record world =
  heap :: "bucketState list"
  slots :: resourceBudget

record clientState =
  buckets :: "(u64, nat) gomap"
  aliases :: "(u64, u64) gomap"
  c_identity :: identity
  c_global :: pacer
  c_validation :: fifoGate
  c_validity :: validity
  c_active :: int
  c_lastUsed :: time
  aliasLimit :: bool
  c_maxWaiters :: int

definition client_touch :: "clientState \<Rightarrow> time \<Rightarrow> clientState" where
  "client_touch s now = s\<lparr>c_lastUsed := now\<rparr>"

definition newClientState :: "identity \<Rightarrow> nat \<Rightarrow> int \<Rightarrow> time \<Rightarrow> clientState" where
  "newClientState i lim maxw now =
     client_touch
       \<lparr>buckets = [], aliases = [], c_identity = i, c_global = newPacer lim maxw,
        c_validation = newFIFOGate maxw,
        c_validity = (if kind i = authNone then clientValid else clientUnknown),
        c_active = 0, c_lastUsed = 0, aliasLimit = False, c_maxWaiters = maxw\<rparr> now"

definition client_begin :: "clientState \<Rightarrow> time \<Rightarrow> clientState" where
  "client_begin s now = client_touch (s\<lparr>c_active := c_active s + 1\<rparr>) now"

definition client_end :: "clientState \<Rightarrow> time \<Rightarrow> clientState" where
  "client_end s now = client_touch (s\<lparr>c_active := c_active s - 1\<rparr>) now"

definition canonical_of :: "clientState \<Rightarrow> u64 \<Rightarrow> u64" where
  "canonical_of s h = (case map_of (aliases s) h of Some c \<Rightarrow> c | None \<Rightarrow> h)"

definition resolve :: "clientState \<Rightarrow> u64 \<Rightarrow> nat option" where
  \<comment> \<open>the section of \<^verbatim>\<open>bucket\<close> under the read lock\<close>
  "resolve s h = map_of (buckets s) (canonical_of s h)"

definition bucket_or_new :: "clientState \<Rightarrow> world \<Rightarrow> u64 \<Rightarrow> time \<Rightarrow> clientState \<times> world \<times> (sched_error + nat)" where
  \<comment> \<open>the section of \<^verbatim>\<open>bucket\<close> under the write lock, which looks again\<close>
  "bucket_or_new s w h now =
     (case resolve s h of
        Some r \<Rightarrow> (s, w, Inr r)
      | None \<Rightarrow>
          (case reserve_int (slots w) 1 of (b, granted) \<Rightarrow>
             if \<not> granted then (s, w\<lparr>slots := b\<rparr>, Inl ErrBucketStateLimit)
             else (s\<lparr>buckets := AList.update (canonical_of s h) (length (heap w)) (buckets s)\<rparr>,
                   w\<lparr>slots := b, heap := heap w @ [newBucketState (c_maxWaiters s) now]\<rparr>,
                   Inr (length (heap w)))))"

definition client_bucket :: "clientState \<Rightarrow> world \<Rightarrow> u64 \<Rightarrow> time \<Rightarrow> clientState \<times> world \<times> (sched_error + nat)" where
  "client_bucket s w h now =
     (case resolve s h of Some r \<Rightarrow> (s, w, Inr r) | None \<Rightarrow> bucket_or_new s w h now)"

definition canonical_hash :: "string \<Rightarrow> string \<Rightarrow> u64" where
  "canonical_hash discordBucket majorKey = HashCRC64 (discordBucket @ nul # majorKey)"

definition deletes_route :: "clientState \<Rightarrow> u64 \<Rightarrow> u64 \<Rightarrow> nat \<Rightarrow> bool" where
  \<comment> \<open>\<^verbatim>\<open>deleteRoute\<close>\<close>
  "deletes_route s h c current \<longleftrightarrow> map_of (buckets s) h = Some current \<and> h \<noteq> c"

definition learn_net :: "clientState \<Rightarrow> u64 \<Rightarrow> u64 \<Rightarrow> nat \<Rightarrow> int" where
  \<comment> \<open>\<^verbatim>\<open>additions - removals\<close>\<close>
  "learn_net s h c current =
     (let additions = (if map_of (buckets s) c = None then 1 else 0) + (if map_of (aliases s) h = None then 1 else 0);
          removals = (if deletes_route s h c current then 1 else 0)
      in additions - removals)"

definition learn_target :: "clientState \<Rightarrow> u64 \<Rightarrow> nat \<Rightarrow> nat" where
  "learn_target s c current = (case map_of (buckets s) c of None \<Rightarrow> current | Some t \<Rightarrow> t)"

definition learned_heap :: "bucketState list \<Rightarrow> nat \<Rightarrow> nat \<Rightarrow> bucketState list" where
  "learned_heap hp target current =
     (if target \<noteq> current then hp[target := bucket_merge (hp ! target) (hp ! current)] else hp)"

definition learned :: "clientState \<Rightarrow> u64 \<Rightarrow> u64 \<Rightarrow> nat \<Rightarrow> clientState" where
  \<comment> \<open>the two maps after the stores and the \<^verbatim>\<open>delete\<close>\<close>
  "learned s h c current =
     (let bs = (if map_of (buckets s) c = None then AList.update c (learn_target s c current) (buckets s)
                else buckets s)
      in s\<lparr>buckets := (if deletes_route s h c current then AList.delete h bs else bs),
           aliases := AList.update h c (aliases s)\<rparr>)"

definition learn_at :: "clientState \<Rightarrow> world \<Rightarrow> u64 \<Rightarrow> u64 \<Rightarrow> nat \<Rightarrow> clientState \<times> world \<times> nat" where
  \<comment> \<open>the section of \<^verbatim>\<open>learnBucket\<close> under the lock\<close>
  "learn_at s w h c current =
     (let net = learn_net s h c current; target = learn_target s c current in
      case (if 0 < net then reserve_int (slots w) net else (slots w, True)) of (b, granted) \<Rightarrow>
        if \<not> granted then (s\<lparr>aliasLimit := True\<rparr>, w\<lparr>slots := b\<rparr>, current)
        else
          (learned s h c current,
           w\<lparr>heap := learned_heap (heap w) target current,
             slots := (if 0 < - net then release_int b (- net) else b)\<rparr>,
           target))"

definition learnBucket ::
  "clientState \<Rightarrow> world \<Rightarrow> u64 \<Rightarrow> string \<Rightarrow> string \<Rightarrow> nat \<Rightarrow> clientState \<times> world \<times> nat" where
  "learnBucket s w h discordBucket majorKey current =
     (if discordBucket = [] then (s, w, current)
      else learn_at s w h (canonical_hash discordBucket majorKey) current)"

definition sweep :: "clientState \<Rightarrow> world \<Rightarrow> time \<Rightarrow> clientState \<times> world" where
  "sweep s w now =
     (let bs = filter (\<lambda>(h, r). \<not> bucket_idle (heap w ! r) now) (buckets s);
          as = filter (\<lambda>(h, c). map_of bs c \<noteq> None) (aliases s);
          released = int (length (buckets s)) - int (length bs) + (int (length (aliases s)) - int (length as))
      in (s\<lparr>buckets := bs, aliases := as, aliasLimit := (if 0 < released then False else aliasLimit s)\<rparr>,
          w\<lparr>slots := release_int (slots w) released\<rparr>))"

definition clear :: "clientState \<Rightarrow> world \<Rightarrow> clientState \<times> world" where
  "clear s w =
     (s\<lparr>buckets := [], aliases := []\<rparr>,
      w\<lparr>slots := release_int (slots w) (int (length (buckets s) + length (aliases s)))\<rparr>)"

definition client_idle :: "clientState \<Rightarrow> bucketState list \<Rightarrow> time \<Rightarrow> bool" where
  "client_idle s hp now \<longleftrightarrow>
     \<not> (pacer_blocked (c_global s) now \<or> c_active s \<noteq> 0 \<or> time_Sub now (c_lastUsed s) \<le> clientIdleTimeout) \<and>
     list_all (\<lambda>(h, r). \<not> (active (hp ! r) \<noteq> 0 \<or> blocked (hp ! r) now)) (buckets s)"


subsection \<open>Well-formedness and accounting\<close>

definition entries :: "clientState \<Rightarrow> int" where
  "entries s = int (length (buckets s)) + int (length (aliases s))"

definition client_wf :: "clientState \<Rightarrow> bucketState list \<Rightarrow> bool" where
  "client_wf s hp \<longleftrightarrow> keys_distinct (buckets s) \<and> keys_distinct (aliases s) \<and>
     (\<forall>k r. map_of (buckets s) k = Some r \<longrightarrow> r < length hp)"

definition accounts :: "clientState \<Rightarrow> world \<Rightarrow> clientState \<Rightarrow> world \<Rightarrow> bool" where
  \<comment> \<open>an operation changed the budget by what it changed of the entries, and kept well-formedness\<close>
  "accounts s w s' w' \<longleftrightarrow>
     sint (used (slots w')) - entries s' = sint (used (slots w)) - entries s \<and>
     budget_wf (slots w') \<and> limit (slots w') = limit (slots w) \<and> client_wf s' (heap w')"

lemma entries_nonneg [simp]: "0 \<le> entries s"
  by (simp add: entries_def)

lemma budget_max: "budget_wf b \<Longrightarrow> sint (used b) \<le> 2 ^ 63 - 1"
  using sint_i64_range(2) [of "used b"] by simp

lemma client_wf_heap: "\<lbrakk>client_wf s hp; length hp \<le> length hp'\<rbrakk> \<Longrightarrow> client_wf s hp'"
  by (fastforce simp: client_wf_def)

lemma settle_accounts:
  assumes "budget_wf (slots w)" "entries s \<le> sint (used (slots w))" "client_wf s' (heap w')"
    and "entries s' - entries s \<le> 2"
    and "slots w' = (if entries s < entries s' then fst (reserve_int (slots w) (entries s' - entries s))
       else if entries s' < entries s then release_int (slots w) (entries s - entries s') else slots w)"
    and "entries s < entries s' \<Longrightarrow> snd (reserve_int (slots w) (entries s' - entries s))"
  shows "accounts s w s' w'"
proof -
  have "limit (slots w') = limit (slots w)"
    using assms(5) by (simp add: reserve_int_def reserve_def release_int_def release_def)
  moreover have "sint (used (slots w')) = sint (used (slots w)) - entries s + entries s' \<and> budget_wf (slots w')"
    using rb.settle [of "slots w" "entries s" "entries s'" "slots w'"] assms budget_max [OF assms(1)] by simp
  ultimately show ?thesis using assms(3) by (simp add: accounts_def)
qed

lemma bucket_or_new_accounts:
  assumes "client_wf s (heap w)" "budget_wf (slots w)" "entries s \<le> sint (used (slots w))"
    and "bucket_or_new s w h now = (s', w', r)"
  shows "accounts s w s' w'"
proof (cases "resolve s h")
  case None
  show ?thesis
  proof (cases "snd (reserve_int (slots w) 1)")
    case True
    have "entries s' = entries s + 1" and sl: "slots w' = fst (reserve_int (slots w) 1)"
      and "client_wf s' (heap w')"
      using assms None True
      by (auto simp: bucket_or_new_def resolve_def entries_def length_update client_wf_def less_Suc_eq
          split: prod.splits if_splits)
    thus ?thesis using assms True by (intro settle_accounts) auto
  next
    case False
    thus ?thesis using assms None rb.take_level [OF assms(2), of 1] rb.take_granted [OF assms(2), of 1]
        rb.invar_take [OF assms(2), of 1]
      by (auto simp: bucket_or_new_def accounts_def reserve_int_def reserve_def split: prod.splits if_splits)
  qed
qed (use assms in \<open>auto simp: bucket_or_new_def accounts_def\<close>)

text \<open>The two outcomes of \<open>learn_at\<close>.\<close>

definition learn_refused :: "clientState \<Rightarrow> world \<Rightarrow> u64 \<Rightarrow> u64 \<Rightarrow> nat \<Rightarrow> bool" where
  "learn_refused s w h c current \<longleftrightarrow>
     0 < learn_net s h c current \<and> \<not> snd (reserve_int (slots w) (learn_net s h c current))"

lemma reserve_int_refused: "\<not> snd (reserve_int b n) \<Longrightarrow> fst (reserve_int b n) = b"
  by (auto simp: reserve_int_def reserve_def split: if_splits)

lemma learn_at_refused:
  "learn_refused s w h c current \<Longrightarrow> learn_at s w h c current = (s\<lparr>aliasLimit := True\<rparr>, w, current)"
  using reserve_int_refused [of "slots w" "learn_net s h c current"]
  by (auto simp: learn_at_def learn_refused_def Let_def split: prod.split)

lemma learn_at_done:
  "\<not> learn_refused s w h c current \<Longrightarrow> learn_at s w h c current =
     (learned s h c current,
      w\<lparr>heap := learned_heap (heap w) (learn_target s c current) current,
        slots := (if 0 < learn_net s h c current then fst (reserve_int (slots w) (learn_net s h c current))
          else if learn_net s h c current < 0 then release_int (slots w) (- learn_net s h c current) else slots w)\<rparr>,
      learn_target s c current)"
  by (auto simp: learn_at_def learn_refused_def Let_def split: prod.split)

lemma learned_entries:
  assumes "keys_distinct (buckets s)" "keys_distinct (aliases s)"
  shows "entries (learned s h c current) = entries s + learn_net s h c current"
proof -
  let ?bs = "if map_of (buckets s) c = None then AList.update c current (buckets s) else buckets s"
  have d: "keys_distinct ?bs" using assms by simp
  have "int (length (if deletes_route s h c current then AList.delete h ?bs else ?bs)) =
      int (length ?bs) - (if deletes_route s h c current then 1 else 0)"
  proof (cases "deletes_route s h c current")
    case True
    hence "map_of ?bs h \<noteq> None" by (simp add: deletes_route_def)
    from length_delete_present [OF d this] True show ?thesis by simp
  qed simp
  thus ?thesis
    by (auto simp: entries_def learned_def learn_net_def learn_target_def length_update Let_def)
qed

lemma learned_wf:
  assumes "client_wf s hp" "current < length hp"
  shows "client_wf (learned s h c current) hp"
  using assms
  by (auto simp: client_wf_def learned_def learn_target_def Let_def simp del: map_of_eq_Some_iff split: if_splits)

lemma length_learned_heap [simp]: "length (learned_heap hp t current) = length hp"
  by (simp add: learned_heap_def)

lemma learn_at_accounts:
  assumes "client_wf s (heap w)" "budget_wf (slots w)" "entries s \<le> sint (used (slots w))"
    and "current < length (heap w)" and "learn_at s w h c current = (s', w', t)"
  shows "accounts s w s' w'"
proof (cases "learn_refused s w h c current")
  case True
  thus ?thesis using assms by (auto simp: learn_at_refused accounts_def client_wf_def entries_def simp del: map_of_eq_Some_iff)
next
  case False
  have e: "entries s' = entries s + learn_net s h c current" "learn_net s h c current \<le> 2"
    using False assms learned_entries by (auto simp: learn_at_done client_wf_def learn_net_def Let_def)
  have "client_wf s' (heap w')"
    using False assms(5) client_wf_heap [OF learned_wf [OF assms(1,4)], of "heap w'" h c] by (auto simp: learn_at_done)
  thus ?thesis using False assms e
    by (intro settle_accounts) (auto simp: learn_at_done learn_refused_def)
qed

lemma release_int_limit [simp]: "limit (release_int b n) = limit b"
  by (simp add: release_int_def release_def)

lemma release_int_zero: "release_int b 0 = b"
  by (simp add: release_int_def release_def)

lemma map_of_filter_values:
  "keys_distinct m \<Longrightarrow> map_of (filter P m) k = (case map_of m k of None \<Rightarrow> None | Some v \<Rightarrow> if P (k, v) then Some v else None)"
proof (induction m)
  case (Cons e m)
  have "map_of m k = None" if "fst e = k"
    using Cons.prems that by (auto simp: map_of_eq_None_iff)
  thus ?case using Cons by (cases e) (auto split: option.splits)
qed simp

lemma shrink_accounts:
  assumes "client_wf s (heap w)" "budget_wf (slots w)" "entries s \<le> sint (used (slots w))"
    and "client_wf s' (heap w)" "entries s' \<le> entries s"
    and "w' = w\<lparr>slots := release_int (slots w) (entries s - entries s')\<rparr>"
  shows "accounts s w s' w'"
  using assms by (intro settle_accounts) (auto simp: release_int_zero)

lemma client_wf_filter:
  "client_wf s hp \<Longrightarrow> client_wf (s\<lparr>buckets := filter P (buckets s), aliases := filter Q (aliases s), aliasLimit := l\<rparr>) hp"
  by (auto simp: client_wf_def map_of_filter_values simp del: map_of_eq_Some_iff split: option.splits if_splits)

lemma sweep_accounts:
  assumes "client_wf s (heap w)" "budget_wf (slots w)" "entries s \<le> sint (used (slots w))"
    and "sweep s w now = (s', w')"
  shows "accounts s w s' w'"
proof (rule shrink_accounts)
  have len: "int (length (filter P xs)) \<le> int (length xs)" for P and xs :: "'x list" by simp
  show "client_wf s' (heap w)" using assms client_wf_filter by (auto simp: sweep_def Let_def)
  show "entries s' \<le> entries s"
    using assms len [of _ "buckets s"] len [of _ "aliases s"] by (auto simp: sweep_def Let_def entries_def add_mono)
  show "w' = w\<lparr>slots := release_int (slots w) (entries s - entries s')\<rparr>"
    using assms by (auto simp: sweep_def Let_def entries_def algebra_simps)
qed (use assms in auto)

lemma clear_accounts:
  assumes "client_wf s (heap w)" "budget_wf (slots w)" "entries s \<le> sint (used (slots w))"
    and "clear s w = (s', w')"
  shows "accounts s w s' w'" and "entries s' = 0"
proof -
  show e: "entries s' = 0" using assms by (auto simp: clear_def entries_def)
  show "accounts s w s' w'"
    by (rule shrink_accounts) (use assms e in \<open>auto simp: clear_def client_wf_def entries_def\<close>)
qed

lemma learnBucket_accounts:
  assumes "client_wf s (heap w)" "budget_wf (slots w)" "entries s \<le> sint (used (slots w))"
    and "current < length (heap w)" and "learnBucket s w h d m current = (s', w', t)"
  shows "accounts s w s' w'"
  using assms learn_at_accounts [OF assms(1-4)]
  by (auto simp: learnBucket_def accounts_def split: if_splits)


subsection \<open>All clients of a process\<close>

text \<open>
  The clients share the budget and the heap. A step is one critical section of one client, the
  creation of a client, or any change of a bucket or of the fields of a client that do not hold
  entries (gates, pacers, counters), which other goroutines make at any time.
\<close>

record directory =
  clients :: "clientState list"
  dir_world :: world

inductive dir_step :: "directory \<Rightarrow> directory \<Rightarrow> bool" where
  bucket: "\<lbrakk>i < length (clients d); bucket_or_new (clients d ! i) (dir_world d) h now = (s', w', r)\<rbrakk> \<Longrightarrow>
    dir_step d \<lparr>clients = (clients d)[i := s'], dir_world = w'\<rparr>"
| learn: "\<lbrakk>i < length (clients d); current < length (heap (dir_world d));
    learnBucket (clients d ! i) (dir_world d) h b m current = (s', w', t)\<rbrakk> \<Longrightarrow>
    dir_step d \<lparr>clients = (clients d)[i := s'], dir_world = w'\<rparr>"
| sweep: "\<lbrakk>i < length (clients d); sweep (clients d ! i) (dir_world d) now = (s', w')\<rbrakk> \<Longrightarrow>
    dir_step d \<lparr>clients = (clients d)[i := s'], dir_world = w'\<rparr>"
| clear: "\<lbrakk>i < length (clients d); clear (clients d ! i) (dir_world d) = (s', w')\<rbrakk> \<Longrightarrow>
    dir_step d \<lparr>clients = (clients d)[i := s'], dir_world = w'\<rparr>"
| new_client: "dir_step d (d\<lparr>clients := clients d @ [newClientState ident lim maxw now]\<rparr>)"
| bucket_changes: "dir_step d (d\<lparr>dir_world := (dir_world d)\<lparr>heap := (heap (dir_world d))[r := b]\<rparr>\<rparr>)"
| client_changes: "\<lbrakk>i < length (clients d); buckets s' = buckets (clients d ! i); aliases s' = aliases (clients d ! i)\<rbrakk> \<Longrightarrow>
    dir_step d (d\<lparr>clients := (clients d)[i := s']\<rparr>)"

inductive dir_reachable :: "i64 \<Rightarrow> directory \<Rightarrow> bool" for l where
  start: "dir_reachable l \<lparr>clients = [], dir_world = \<lparr>heap = [], slots = newResourceBudget l\<rparr>\<rparr>"
| step: "dir_reachable l d \<Longrightarrow> dir_step d d' \<Longrightarrow> dir_reachable l d'"

definition total_entries :: "directory \<Rightarrow> int" where
  "total_entries d = sum_list (map entries (clients d))"

definition dir_inv :: "i64 \<Rightarrow> directory \<Rightarrow> bool" where
  "dir_inv l d \<longleftrightarrow> list_all (\<lambda>s. client_wf s (heap (dir_world d))) (clients d) \<and>
     budget_wf (slots (dir_world d)) \<and> limit (slots (dir_world d)) = l \<and>
     total_entries d = sint (used (slots (dir_world d)))"

lemma entries_le_total: "i < length (clients d) \<Longrightarrow> entries (clients d ! i) \<le> total_entries d"
proof -
  have "i < length cs \<Longrightarrow> entries (cs ! i) \<le> sum_list (map entries cs)" for cs
  proof (induction cs arbitrary: i)
    case (Cons c cs)
    have "0 \<le> sum_list (map entries cs)" by (rule sum_list_nonneg) auto
    thus ?case using Cons by (cases i) (auto simp: add_increasing)
  qed simp
  thus "i < length (clients d) \<Longrightarrow> ?thesis" by (simp add: total_entries_def)
qed

lemma dir_inv_accounts:
  assumes inv: "dir_inv l d" and i: "i < length (clients d)"
    and acc: "accounts (clients d ! i) (dir_world d) s' w'" and len: "length (heap (dir_world d)) \<le> length (heap w')"
  shows "dir_inv l \<lparr>clients = (clients d)[i := s'], dir_world = w'\<rparr>"
proof -
  have "list_all (\<lambda>s. client_wf s (heap w')) ((clients d)[i := s'])"
    using inv acc client_wf_heap [OF _ len]
    by (auto simp: dir_inv_def accounts_def list_all_iff dest!: set_update_subset_insert [THEN subsetD])
  thus ?thesis using inv acc i
    by (auto simp: dir_inv_def accounts_def total_entries_def sum_list_map_update)
qed

lemma dir_inv_section:
  assumes "dir_inv l d" "i < length (clients d)"
  shows "client_wf (clients d ! i) (heap (dir_world d))" "budget_wf (slots (dir_world d))"
    "entries (clients d ! i) \<le> sint (used (slots (dir_world d)))"
  using assms entries_le_total [OF assms(2)] by (auto simp: dir_inv_def list_all_iff)

lemma sections_heap:
  "bucket_or_new s w h now = (s', w', r) \<Longrightarrow> length (heap w) \<le> length (heap w')"
  "learnBucket s w h b m current = (s', w', t) \<Longrightarrow> length (heap w) \<le> length (heap w')"
  "sweep s w now = (s', w') \<Longrightarrow> length (heap w) \<le> length (heap w')"
  "clear s w = (s', w') \<Longrightarrow> length (heap w) \<le> length (heap w')"
  by (auto simp: bucket_or_new_def learnBucket_def learn_at_def sweep_def clear_def Let_def
      split: option.splits prod.splits if_splits)

lemma dir_step_inv: "dir_step d d' \<Longrightarrow> dir_inv l d \<Longrightarrow> dir_inv l d'"
proof (induction rule: dir_step.induct)
  case (bucket i d h now s' w' r)
  note sec = dir_inv_section [OF bucket.prems bucket.hyps(1)]
  show ?case
    by (rule dir_inv_accounts [OF bucket.prems bucket.hyps(1)])
      (rule bucket_or_new_accounts [OF sec bucket.hyps(2)], rule sections_heap(1) [OF bucket.hyps(2)])
next
  case (learn i d current h b m s' w' t)
  note sec = dir_inv_section [OF learn.prems learn.hyps(1)]
  show ?case
    by (rule dir_inv_accounts [OF learn.prems learn.hyps(1)])
      (rule learnBucket_accounts [OF sec learn.hyps(2,3)], rule sections_heap(2) [OF learn.hyps(3)])
next
  case (sweep i d now s' w')
  note sec = dir_inv_section [OF sweep.prems sweep.hyps(1)]
  show ?case
    by (rule dir_inv_accounts [OF sweep.prems sweep.hyps(1)])
      (rule sweep_accounts [OF sec sweep.hyps(2)], rule sections_heap(3) [OF sweep.hyps(2)])
next
  case (clear i d s' w')
  note sec = dir_inv_section [OF clear.prems clear.hyps(1)]
  show ?case
    by (rule dir_inv_accounts [OF clear.prems clear.hyps(1)])
      (rule clear_accounts(1) [OF sec clear.hyps(2)], rule sections_heap(4) [OF clear.hyps(2)])
next
  case (new_client d ident lim maxw now)
  thus ?case by (simp add: dir_inv_def total_entries_def client_wf_def newClientState_def client_touch_def entries_def)
next
  case (bucket_changes d r b)
  have "client_wf s ((heap (dir_world d))[r := b]) = client_wf s (heap (dir_world d))" for s
    by (simp add: client_wf_def)
  thus ?case using bucket_changes by (simp add: dir_inv_def total_entries_def)
next
  case (client_changes i d s')
  hence "entries s' = entries (clients d ! i)" "client_wf s' (heap (dir_world d)) = client_wf (clients d ! i) (heap (dir_world d))"
    by (simp_all add: entries_def client_wf_def)
  thus ?case
    using dir_inv_accounts [OF client_changes.prems client_changes.hyps(1), of s' "dir_world d"]
      dir_inv_section [OF client_changes.prems client_changes.hyps(1)]
    by (cases d) (simp add: accounts_def)
qed

lemma dir_reachable_inv: "dir_reachable l d \<Longrightarrow> 0 \<le> sint l \<Longrightarrow> dir_inv l d"
proof (induction rule: dir_reachable.induct)
  case start
  thus ?case by (simp add: dir_inv_def total_entries_def newResourceBudget_def budget_wf_def)
next
  case (step d d') thus ?case by (blast intro: dir_step_inv)
qed


subsection \<open>Properties\<close>

text \<open>
  The process-wide bound on rate-limit state: whatever the clients do, the number of buckets
  and aliases of all clients together is exactly what the shared budget counts, and never
  exceeds \<^verbatim>\<open>MaxBucketStates\<close>; no entry is counted twice and none is forgotten.
\<close>

theorem state_entries_bounded:
  assumes "dir_reachable l d" and "0 \<le> sint l"
  shows "total_entries d = sint (used (slots (dir_world d))) \<and> total_entries d \<le> sint l"
  using dir_reachable_inv [OF assms] by (auto simp: dir_inv_def budget_wf_def)

lemma learned_resolve:
  "resolve (learned s h c current) h = Some (learn_target s c current)"
  "map_of (aliases s) h' = Some c \<Longrightarrow> resolve (learned s h c current) h' = Some (learn_target s c current)"
  by (auto simp: resolve_def canonical_of_def learned_def learn_target_def deletes_route_def Let_def
      split: option.splits)


definition learn_example :: "clientState \<times> world" where
  "learn_example =
     ((newClientState no_auth 50 10 0)\<lparr>buckets := [(7, 0), (9, 1)], aliases := [(8, 9)]\<rparr>,
      \<lparr>heap = [(newBucketState 10 0)\<lparr>readyAt := 5\<rparr>, newBucketState 10 0], slots = \<lparr>limit = 4, used = 3\<rparr>\<rparr>)"


text \<open>
  Exhausted capacity is harmless: when the budget has no room for what \<^verbatim>\<open>learnBucket\<close> would add,
  it changes nothing but the warning flag and the caller keeps the bucket it has; when \<^verbatim>\<open>bucket\<close> has
  no room for a new bucket it reports \<^verbatim>\<open>errBucketStateLimit\<close> and changes nothing.
\<close>

theorem capacity_exhausted_unchanged:
  assumes "budget_wf (slots w)" and "sint (used (slots w)) = sint (limit (slots w))"
  shows "(discordBucket \<noteq> [] \<and> 0 < learn_net s h (canonical_hash discordBucket majorKey) current \<longrightarrow>
      learnBucket s w h discordBucket majorKey current = (s\<lparr>aliasLimit := True\<rparr>, w, current)) \<and>
    (resolve s h = None \<longrightarrow> client_bucket s w h now = (s, w, Inl ErrBucketStateLimit))"
proof -
  have full: "0 < n \<Longrightarrow> n \<le> 2 \<Longrightarrow> \<not> snd (reserve_int (slots w) n)" for n
    using rb.take_granted [OF assms(1), of n] assms(2) by simp
  have "learn_net s h c current \<le> 2" for c by (simp add: learn_net_def Let_def)
  hence "learn_refused s w h c current" if "0 < learn_net s h c current" for c
    using that full [of "learn_net s h c current"] by (simp add: learn_refused_def)
  moreover have "bucket_or_new s w h now = (s, w, Inl ErrBucketStateLimit)" if "resolve s h = None"
    using that full [of 1] reserve_int_refused [of "slots w" 1]
    by (auto simp: bucket_or_new_def split: prod.split)
  ultimately show ?thesis by (simp add: learnBucket_def learn_at_refused client_bucket_def)
qed

lemma sweep_maps:
  assumes "client_wf s (heap w)" and "sweep s w now = (s', w')"
  shows "map_of (buckets s') k = (case map_of (buckets s) k of None \<Rightarrow> None
      | Some r \<Rightarrow> if \<not> bucket_idle (heap w ! r) now then Some r else None)"
    and "map_of (aliases s') h = (case map_of (aliases s) h of None \<Rightarrow> None
      | Some c \<Rightarrow> if map_of (buckets s') c \<noteq> None then Some c else None)"
    and "heap w' = heap w"
proof -
  have d: "keys_distinct (buckets s)" "keys_distinct (aliases s)" using assms(1) by (simp_all add: client_wf_def)
  define bs where "bs = filter (\<lambda>(h, r). \<not> bucket_idle (heap w ! r) now) (buckets s)"
  have e: "buckets s' = bs" "aliases s' = filter (\<lambda>(h, c). map_of bs c \<noteq> None) (aliases s)"
    using assms(2) by (auto simp: sweep_def bs_def Let_def)
  show "map_of (buckets s') k = (case map_of (buckets s) k of None \<Rightarrow> None
      | Some r \<Rightarrow> if \<not> bucket_idle (heap w ! r) now then Some r else None)"
    unfolding e bs_def using map_of_filter_values [OF d(1), of "\<lambda>(h, r). \<not> bucket_idle (heap w ! r) now" k]
    by (cases "map_of (buckets s) k") simp_all
  show "map_of (aliases s') h = (case map_of (aliases s) h of None \<Rightarrow> None
      | Some c \<Rightarrow> if map_of (buckets s') c \<noteq> None then Some c else None)"
    unfolding e using map_of_filter_values [OF d(2), of "\<lambda>(h, c). map_of bs c \<noteq> None" h]
    by (cases "map_of (aliases s) h") simp_all
  show "heap w' = heap w" using assms(2) by (auto simp: sweep_def Let_def)
qed

lemma sweep_resolve:
  assumes "client_wf s (heap w)" "sweep s w now = (s', w')" "resolve s h = Some r" "\<not> bucket_idle (heap w ! r) now"
  shows "resolve s' h = Some r"
  using assms(3,4) sweep_maps [OF assms(1,2)]
  by (auto simp: resolve_def canonical_of_def simp del: map_of_eq_Some_iff split: option.splits if_splits)

text \<open>
  Sweeping forgets exactly what is idle: after \<^verbatim>\<open>sweep\<close> no idle bucket is left, every route
  whose bucket is in use, blocked or recently used resolves to that same bucket, every alias that
  is left resolves, and no bucket is changed.
\<close>

theorem sweep_keeps_busy:
  assumes "client_wf s (heap w)" and "sweep s w now = (s', w')"
  shows "(\<forall>k r. map_of (buckets s') k = Some r \<longrightarrow> \<not> bucket_idle (heap w ! r) now) \<and>
    (\<forall>h r. resolve s h = Some r \<and> \<not> bucket_idle (heap w ! r) now \<longrightarrow> resolve s' h = Some r) \<and>
    (\<forall>h. map_of (aliases s') h \<noteq> None \<longrightarrow> resolve s' h \<noteq> None) \<and> heap w' = heap w"
  using sweep_maps [OF assms] sweep_resolve [OF assms]
  by (auto simp: resolve_def canonical_of_def simp del: map_of_eq_Some_iff split: option.splits if_splits)

lemma bucket_or_new_hit: "resolve s h = Some r \<Longrightarrow> bucket_or_new s w h now = (s, w, Inr r)"
  by (simp add: bucket_or_new_def)

lemma bucket_or_new_miss:
  assumes "client_wf s (heap w)" "resolve s h = None" "bucket_or_new s w h now = (s', w', Inr r)"
  shows "r = length (heap w)" "heap w' = heap w @ [newBucketState (c_maxWaiters s) now]"
    "resolve s' h' = (if canonical_of s h' = canonical_of s h then Some r else resolve s h')"
    "client_wf s' (heap w')"
  using assms
  by (auto simp: bucket_or_new_def resolve_def canonical_of_def client_wf_def less_Suc_eq
      simp del: map_of_eq_Some_iff split: prod.splits if_splits)

lemma bucket_or_new_error:
  "bucket_or_new s w h now = (s', w', Inl e) \<Longrightarrow> s' = s \<and> heap w' = heap w"
  by (auto simp: bucket_or_new_def split: option.splits prod.splits if_splits)

lemma bucket_or_new_keeps:
  assumes "client_wf s (heap w)" "bucket_or_new s w h now = (s', w', res)" "resolve s h' = Some r"
  shows "resolve s' h' = Some r" "heap w' ! r = heap w ! r" "r < length (heap w)"
proof -
  show lt: "r < length (heap w)"
    using assms(1,3) by (auto simp: resolve_def client_wf_def simp del: map_of_eq_Some_iff)
  have "resolve s' h' = Some r \<and> heap w' ! r = heap w ! r"
  proof (cases "resolve s h")
    case None
    show ?thesis
    proof (cases res)
      case (Inr q)
      note miss = bucket_or_new_miss [OF assms(1) None assms(2) [unfolded Inr]]
      have "canonical_of s h' \<noteq> canonical_of s h" using assms(3) None by (auto simp: resolve_def)
      thus ?thesis using miss(2,3) lt assms(3) by (simp add: nth_append)
    next
      case (Inl e) thus ?thesis using bucket_or_new_error [of s w h now s' w' e] assms by simp
    qed
  next
    case (Some q) thus ?thesis using bucket_or_new_hit [OF Some, of w now] assms(2,3) by simp
  qed
  thus "resolve s' h' = Some r" "heap w' ! r = heap w ! r" by auto
qed

text \<open>
  Looking up a bucket: \<^verbatim>\<open>bucket\<close> returns the bucket the route resolves to afterwards, so two
  callers of one route, whichever created it, get the same pointer; a bucket it creates is a new
  object that no route had, not blocked and with a free gate; and no other route changes its
  bucket, except those that shared the missing one.
\<close>

theorem client_bucket_spec:
  assumes "client_wf s (heap w)" and "client_bucket s w h now = (s', w', Inr r)"
  shows "resolve s' h = Some r \<and> client_bucket s' w'' h now' = (s', w'', Inr r) \<and>
    (\<forall>h' r'. resolve s h' = Some r' \<longrightarrow> resolve s' h' = Some r' \<and> heap w' ! r' = heap w ! r') \<and>
    (resolve s h = None \<longrightarrow> heap w' ! r = newBucketState (c_maxWaiters s) now \<and> (\<forall>h'. resolve s h' \<noteq> Some r))"
proof -
  have b: "bucket_or_new s w h now = (s', w', Inr r)"
    using assms(2) by (auto simp: client_bucket_def bucket_or_new_hit split: option.splits)
  have "resolve s' h = Some r"
    using b bucket_or_new_hit [of s h _ w now] bucket_or_new_miss(3) [OF assms(1) _ b, of h] by (cases "resolve s h") auto
  moreover have "heap w' ! r = newBucketState (c_maxWaiters s) now \<and> (\<forall>h'. resolve s h' \<noteq> Some r)" if "resolve s h = None"
    using bucket_or_new_miss(1,2) [OF assms(1) that b] bucket_or_new_keeps(3) [OF assms(1) b] by auto
  ultimately show ?thesis
    using bucket_or_new_keeps [OF assms(1) b] by (simp add: client_bucket_def)
qed

end
