(* ===== verification/Serial.thy ===== *)
theory Serial
  imports Client
begin

section \<open>Requests in their buckets\<close>

text \<open>
  \<^verbatim>\<open>acquireBucket\<close>, \<^verbatim>\<open>bucketState.acquire\<close>, \<^verbatim>\<open>bucketState.release\<close> and \<^verbatim>\<open>learnBucket\<close> run by any number of
  goroutines of one client, with \<^verbatim>\<open>sweep\<close> and cooldowns at any time. Every atomic operation and
  every critical section is a step of its own: a bucket may be swept between the lookup and
  the increment of \<^verbatim>\<open>active\<close>, and the gate is released after \<^verbatim>\<open>active\<close> was decremented. Only the
  store to \<^verbatim>\<open>lastUsed\<close> goes with the change of \<^verbatim>\<open>active\<close> next to it.

  Goroutine \<open>i\<close> serves the route \<open>rt i\<close>. \<open>Owning r\<close> is the time from the return of \<^verbatim>\<open>acquireBucket\<close>
  to the response: the request waits for the bucket and the pacer and is sent to Discord.
\<close>

subsection \<open>Steps\<close>

datatype after = Stop | Again | Try nat

datatype acq_pc =
  Looking | Found nat | Announced nat | Waiting nat | Handed nat | Rechecking nat |
  Owning nat | Learned nat | Leaving nat | Releasing nat after | Unlocking nat after | Stopped

record acq_sys =
  a_client :: clientState
  a_world :: world
  a_pcs :: "nat \<Rightarrow> acq_pc"

fun after_pc :: "after \<Rightarrow> acq_pc" where
  "after_pc Stop = Stopped"
| "after_pc Again = Looking"
| "after_pc (Try t) = Found t"

fun entered_pc :: "enter_result \<Rightarrow> nat \<Rightarrow> acq_pc" where
  "entered_pc Entered r = Handed r"
| "entered_pc Queued r = Waiting r"
| "entered_pc QueueFull r = Leaving r"

fun found_pc :: "sched_error + nat \<Rightarrow> acq_pc" where
  "found_pc (Inl e) = Stopped"
| "found_pc (Inr r) = Found r"

fun rechecked_pc :: "nat \<Rightarrow> sched_error + nat \<Rightarrow> acq_pc" where
  "rechecked_pc r (Inl e) = Releasing r Stop"
| "rechecked_pc r (Inr t) = (if t = r then Owning r else Releasing r (Try t))"

definition wake :: "nat option \<Rightarrow> nat \<Rightarrow> (nat \<Rightarrow> acq_pc) \<Rightarrow> nat \<Rightarrow> acq_pc" where
  \<comment> \<open>the waiter whose channel the release closed, if any, was handed the gate of \<open>r\<close>\<close>
  "wake nxt r f = (case nxt of None \<Rightarrow> f | Some j \<Rightarrow> f(j := Handed r))"

abbreviation bucket_at :: "acq_sys \<Rightarrow> nat \<Rightarrow> bucketState" where
  "bucket_at s r \<equiv> heap (a_world s) ! r"

definition set_bucket :: "acq_sys \<Rightarrow> nat \<Rightarrow> bucketState \<Rightarrow> (nat \<Rightarrow> acq_pc) \<Rightarrow> acq_sys" where
  "set_bucket s r b f = s\<lparr>a_world := (a_world s)\<lparr>heap := (heap (a_world s))[r := b]\<rparr>, a_pcs := f\<rparr>"

inductive acq_step :: "(nat \<Rightarrow> u64) \<Rightarrow> acq_sys \<Rightarrow> acq_sys \<Rightarrow> bool" for rt where
  lookup: "\<lbrakk>a_pcs s i = Looking; bucket_or_new (a_client s) (a_world s) (rt i) now = (c, w, res)\<rbrakk> \<Longrightarrow>
    acq_step rt s \<lparr>a_client = c, a_world = w, a_pcs = (a_pcs s)(i := found_pc res)\<rparr>"
| announce: "a_pcs s i = Found r \<Longrightarrow>
    acq_step rt s (set_bucket s r (touch ((bucket_at s r)\<lparr>active := active (bucket_at s r) + 1\<rparr>) now)
      ((a_pcs s)(i := Announced r)))"
| enter: "\<lbrakk>a_pcs s i = Announced r; acquire_enter (b_gate (bucket_at s r)) i = (g, res)\<rbrakk> \<Longrightarrow>
    acq_step rt s (set_bucket s r ((bucket_at s r)\<lparr>b_gate := g\<rparr>) ((a_pcs s)(i := entered_pc res r)))"
| cancel_queued: "\<lbrakk>a_pcs s i = Waiting r; acquire_cancel (b_gate (bucket_at s r)) i = (g, True)\<rbrakk> \<Longrightarrow>
    acq_step rt s (set_bucket s r ((bucket_at s r)\<lparr>b_gate := g\<rparr>) ((a_pcs s)(i := Leaving r)))"
| cancel_handed: "\<lbrakk>a_pcs s i = Handed r; gate_release (b_gate (bucket_at s r)) = (g, nxt)\<rbrakk> \<Longrightarrow>
    acq_step rt s (set_bucket s r ((bucket_at s r)\<lparr>b_gate := g\<rparr>) (wake nxt r ((a_pcs s)(i := Leaving r))))"
| leave: "a_pcs s i = Leaving r \<Longrightarrow>
    acq_step rt s (set_bucket s r ((bucket_at s r)\<lparr>active := active (bucket_at s r) - 1\<rparr>) ((a_pcs s)(i := Stopped)))"
| acquired: "a_pcs s i = Handed r \<Longrightarrow> acq_step rt s (s\<lparr>a_pcs := (a_pcs s)(i := Rechecking r)\<rparr>)"
| recheck: "\<lbrakk>a_pcs s i = Rechecking r; bucket_or_new (a_client s) (a_world s) (rt i) now = (c, w, res)\<rbrakk> \<Longrightarrow>
    acq_step rt s \<lparr>a_client = c, a_world = w, a_pcs = (a_pcs s)(i := rechecked_pc r res)\<rparr>"
| learn: "\<lbrakk>a_pcs s i = Owning r; learn_at (a_client s) (a_world s) (rt i) h r = (c, w, t)\<rbrakk> \<Longrightarrow>
    acq_step rt s \<lparr>a_client = c, a_world = w, a_pcs = (a_pcs s)(i := Learned r)\<rparr>"
| finish: "\<lbrakk>a_pcs s i = Owning r \<or> a_pcs s i = Learned r; a = Stop \<or> a = Again\<rbrakk> \<Longrightarrow>
    acq_step rt s (s\<lparr>a_pcs := (a_pcs s)(i := Releasing r a)\<rparr>)"
| retire: "a_pcs s i = Releasing r a \<Longrightarrow>
    acq_step rt s (set_bucket s r ((touch (bucket_at s r) now)\<lparr>active := active (bucket_at s r) - 1\<rparr>)
      ((a_pcs s)(i := Unlocking r a)))"
| unlock: "\<lbrakk>a_pcs s i = Unlocking r a; gate_release (b_gate (bucket_at s r)) = (g, nxt)\<rbrakk> \<Longrightarrow>
    acq_step rt s (set_bucket s r ((bucket_at s r)\<lparr>b_gate := g\<rparr>) (wake nxt r ((a_pcs s)(i := after_pc a))))"
| cooldown: "acq_step rt s (set_bucket s r (blockUntil (bucket_at s r) t) (a_pcs s))"
| sweep: "sweep (a_client s) (a_world s) now = (c, w) \<Longrightarrow>
    acq_step rt s (s\<lparr>a_client := c, a_world := w\<rparr>)"
| other_clients: "acq_step rt s (s\<lparr>a_world := (a_world s)\<lparr>slots := b\<rparr>\<rparr>)"

inductive acq_reachable :: "(nat \<Rightarrow> u64) \<Rightarrow> acq_sys \<Rightarrow> bool" for rt where
  start: "acq_reachable rt
    \<lparr>a_client = newClientState ident lim maxw now, a_world = \<lparr>heap = [], slots = b\<rparr>,
     a_pcs = (\<lambda>i. if i < n then Looking else Stopped)\<rparr>"
| step: "acq_reachable rt s \<Longrightarrow> acq_step rt s t \<Longrightarrow> acq_reachable rt t"


subsection \<open>What a goroutine claims\<close>

fun claim :: "acq_pc \<Rightarrow> nat option" where
  "claim (Announced r) = Some r"
| "claim (Waiting r) = Some r"
| "claim (Handed r) = Some r"
| "claim (Rechecking r) = Some r"
| "claim (Owning r) = Some r"
| "claim (Learned r) = Some r"
| "claim (Leaving r) = Some r"
| "claim (Releasing r a) = Some r"
| "claim (Unlocking r a) = Some r"
| "claim _ = None"

fun counted :: "acq_pc \<Rightarrow> bool" where
  \<comment> \<open>counted in \<^verbatim>\<open>active\<close>\<close>
  "counted (Unlocking r a) = False"
| "counted p = (claim p \<noteq> None)"

fun in_gate :: "acq_pc \<Rightarrow> bool" where
  "in_gate (Handed r) = True"
| "in_gate (Rechecking r) = True"
| "in_gate (Owning r) = True"
| "in_gate (Learned r) = True"
| "in_gate (Releasing r a) = True"
| "in_gate (Unlocking r a) = True"
| "in_gate _ = False"

definition users :: "(nat \<Rightarrow> acq_pc) \<Rightarrow> nat \<Rightarrow> nat set" where
  "users f r = {i. claim (f i) = Some r \<and> counted (f i)}"

definition owner :: "(nat \<Rightarrow> acq_pc) \<Rightarrow> nat \<Rightarrow> nat \<Rightarrow> bool" where
  "owner f r i \<longleftrightarrow> claim (f i) = Some r \<and> in_gate (f i)"

definition queued_at :: "(nat \<Rightarrow> acq_pc) \<Rightarrow> nat \<Rightarrow> nat \<Rightarrow> bool" where
  "queued_at f r i \<longleftrightarrow> f i = Waiting r"

definition bucket_ok :: "bucketState \<Rightarrow> (nat \<Rightarrow> acq_pc) \<Rightarrow> nat \<Rightarrow> bool" where
  "bucket_ok b f r \<longleftrightarrow> gate_ok (b_gate b) (owner f r) (queued_at f r) \<and>
     finite (users f r) \<and> active b = int (card (users f r))"

fun refs :: "acq_pc \<Rightarrow> nat set" where
  "refs (Found r) = {r}"
| "refs (Releasing r (Try t)) = {r, t}"
| "refs (Unlocking r (Try t)) = {r, t}"
| "refs p = (case claim p of None \<Rightarrow> {} | Some r \<Rightarrow> {r})"

definition acq_inv :: "(nat \<Rightarrow> u64) \<Rightarrow> acq_sys \<Rightarrow> bool" where
  "acq_inv rt s \<longleftrightarrow> client_wf (a_client s) (heap (a_world s)) \<and>
     (\<forall>r < length (heap (a_world s)). bucket_ok (bucket_at s r) (a_pcs s) r) \<and>
     (\<forall>i. \<forall>r \<in> refs (a_pcs s i). r < length (heap (a_world s))) \<and>
     (\<forall>i r. a_pcs s i = Owning r \<longrightarrow> resolve (a_client s) (rt i) = Some r)"


subsection \<open>How single steps change the claims\<close>

lemma users_upd:
  "users (f(i := p)) r = (if claim p = Some r \<and> counted p then insert i (users f r) else users f r - {i})"
  by (auto simp: users_def)

lemma owner_upd: "owner (f(i := p)) r = (owner f r)(i := claim p = Some r \<and> in_gate p)"
  by (auto simp: owner_def fun_eq_iff)

lemma queued_upd: "queued_at (f(i := p)) r = (queued_at f r)(i := p = Waiting r)"
  by (auto simp: queued_at_def fun_eq_iff)

lemmas claims_upd = users_upd owner_upd queued_upd

lemma bucket_ok_frame:
  assumes "claim p \<noteq> Some r" "claim (f i) \<noteq> Some r"
  shows "bucket_ok b (f(i := p)) r = bucket_ok b f r"
proof -
  have "i \<notin> users f r" "\<not> owner f r i" "\<not> queued_at f r i" "p \<noteq> Waiting r"
    using assms by (auto simp: users_def owner_def queued_at_def)
  hence "users (f(i := p)) r = users f r" "owner (f(i := p)) r = owner f r" "queued_at (f(i := p)) r = queued_at f r"
    using assms by (auto simp: claims_upd fun_eq_iff)
  thus ?thesis by (simp add: bucket_ok_def)
qed

lemma bucket_ok_move:
  assumes "claim p = claim (f i)" "counted p = counted (f i)" "in_gate p = in_gate (f i)"
    "\<And>r. p \<noteq> Waiting r" "\<And>r. f i \<noteq> Waiting r"
  shows "bucket_ok b (f(i := p)) r = bucket_ok b f r"
proof -
  have "users (f(i := p)) r = users f r" "owner (f(i := p)) r = owner f r" "queued_at (f(i := p)) r = queued_at f r"
    using assms by (simp_all add: users_def owner_def queued_at_def fun_eq_iff set_eq_iff)
  thus ?thesis by (simp add: bucket_ok_def)
qed

lemma bucket_ok_fields:
  "\<lbrakk>b_gate b' = b_gate b; active b' = active b\<rbrakk> \<Longrightarrow> bucket_ok b' f r = bucket_ok b f r"
  by (simp add: bucket_ok_def)

text \<open>The gate under a view of its owners and waiters.\<close>

lemma gate_ok_enter:
  assumes "gate_ok g P Q" "\<not> P i" "\<not> Q i" "acquire_enter g i = (g', res)"
  shows "gate_ok g' (P(i := res = Entered)) (Q(i := res = Queued))"
  using assms by (auto simp: acquire_enter_def gate_ok_def split: if_splits)

lemma gate_ok_cancel:
  assumes "gate_ok g P Q" "acquire_cancel g i = (g', True)"
  shows "gate_ok g' P (Q(i := False))" "Q i"
  using assms by (auto simp: acquire_cancel_def gate_ok_def split: if_splits)

lemma gate_ok_release:
  assumes "gate_ok g P Q" "P i" "\<not> Q i" "gate_release g = (g', nxt)"
  shows "nxt = None \<Longrightarrow> gate_ok g' (P(i := False)) Q"
    and "nxt = Some j \<Longrightarrow> Q j \<and> j \<noteq> i \<and> gate_ok g' (P(i := False, j := True)) (Q(j := False))"
  using assms by (auto simp: gate_release_def gate_ok_def split: list.splits)

lemma gate_ok_new: "gate_ok (newFIFOGate n) (\<lambda>_. False) (\<lambda>_. False)"
  by (simp add: gate_ok_def newFIFOGate_def)

text \<open>The bucket the step is about.\<close>

lemma bucket_ok_announce:
  assumes "bucket_ok b f r" "f i = Found r"
  shows "bucket_ok (touch (b\<lparr>active := active b + 1\<rparr>) now) (f(i := Announced r)) r"
proof -
  have "i \<notin> users f r" "\<not> owner f r i" "\<not> queued_at f r i" using assms(2) by (auto simp: users_def owner_def queued_at_def)
  thus ?thesis using assms(1) by (simp add: bucket_ok_def claims_upd fun_upd_idem)
qed

lemma bucket_ok_drop:
  \<comment> \<open>a goroutine that is counted leaves the count\<close>
  assumes "bucket_ok b f r" "i \<in> users f r" "\<not> (claim p = Some r \<and> counted p)"
    and "owner (f(i := p)) r = owner f r" "queued_at (f(i := p)) r = queued_at f r"
    and "b_gate b' = b_gate b" "active b' = active b - 1"
  shows "bucket_ok b' (f(i := p)) r"
proof -
  have "finite (users f r)" "active b = int (card (users f r))" using assms(1) by (auto simp: bucket_ok_def)
  moreover have "0 < card (users f r)" using calculation(1) assms(2) by (auto simp: card_gt_0_iff)
  ultimately show ?thesis using assms by (auto simp: bucket_ok_def users_upd)
qed

lemma bucket_ok_gate:
  \<comment> \<open>only the gate changes hands; the goroutine stays as counted as it was\<close>
  assumes "bucket_ok b f r" "users f' r = users f r" "gate_ok g (owner f' r) (queued_at f' r)"
  shows "bucket_ok (b\<lparr>b_gate := g\<rparr>) f' r"
  using assms by (simp add: bucket_ok_def)

lemma bucket_ok_enter:
  assumes "bucket_ok b f r" "f i = Announced r" "acquire_enter (b_gate b) i = (g, res)"
  shows "bucket_ok (b\<lparr>b_gate := g\<rparr>) (f(i := entered_pc res r)) r"
proof (rule bucket_ok_gate [OF assms(1)])
  have no: "\<not> owner f r i" "\<not> queued_at f r i" using assms(2) by (auto simp: owner_def queued_at_def)
  have "gate_ok g ((owner f r)(i := res = Entered)) ((queued_at f r)(i := res = Queued))"
    using assms no by (intro gate_ok_enter [of "b_gate b"]) (auto simp: bucket_ok_def)
  thus "gate_ok g (owner (f(i := entered_pc res r)) r) (queued_at (f(i := entered_pc res r)) r)"
    by (cases res) (simp_all add: claims_upd)
  show "users (f(i := entered_pc res r)) r = users f r"
    using assms(2) by (cases res) (auto simp: users_def)
qed

lemma bucket_ok_cancel:
  assumes "bucket_ok b f r" "f i = Waiting r" "acquire_cancel (b_gate b) i = (g, True)"
  shows "bucket_ok (b\<lparr>b_gate := g\<rparr>) (f(i := Leaving r)) r"
proof (rule bucket_ok_gate [OF assms(1)])
  have "\<not> owner f r i" using assms(2) by (simp add: owner_def)
  thus "gate_ok g (owner (f(i := Leaving r)) r) (queued_at (f(i := Leaving r)) r)"
    using gate_ok_cancel [of "b_gate b" "owner f r" "queued_at f r" i g] assms(1,3)
    by (simp add: bucket_ok_def claims_upd fun_upd_idem)
  show "users (f(i := Leaving r)) r = users f r" using assms(2) by (auto simp: users_def)
qed

lemma bucket_ok_release:
  assumes "bucket_ok b f r" "owner f r i" "gate_release (b_gate b) = (g, nxt)"
    and "\<not> (claim p = Some r \<and> in_gate p)" "\<And>q. p \<noteq> Waiting q"
    and "(claim p = Some r \<and> counted p) = counted (f i)"
  shows "bucket_ok (b\<lparr>b_gate := g\<rparr>) (wake nxt r (f(i := p))) r"
proof (rule bucket_ok_gate [OF assms(1)])
  have nq: "\<not> queued_at f r i" "claim (f i) = Some r" using assms(2) by (auto simp: owner_def queued_at_def)
  note rel = gate_ok_release [of "b_gate b" "owner f r" "queued_at f r" i g nxt]
  have ok: "gate_ok (b_gate b) (owner f r) (queued_at f r)" using assms(1) by (simp add: bucket_ok_def)
  show "gate_ok g (owner (wake nxt r (f(i := p))) r) (queued_at (wake nxt r (f(i := p))) r)"
    using rel(1) [OF ok assms(2) nq(1) assms(3)] rel(2) [OF ok assms(2) nq(1) assms(3)] assms(4,5) nq
    by (cases nxt) (auto simp: wake_def claims_upd fun_upd_twist fun_upd_idem)
  have "users (f(i := p)) r = users f r"
    using assms(6) nq by (auto simp: users_def)
  moreover have "j \<in> users f r" if "nxt = Some j" for j
    using rel(2) [OF ok assms(2) nq(1) assms(3) that] by (simp add: users_def queued_at_def)
  ultimately show "users (wake nxt r (f(i := p))) r = users f r"
    by (cases nxt) (simp_all add: wake_def users_upd [of "f(i := p)"] insert_absorb)
qed


subsection \<open>The invariant\<close>

lemma acq_invD:
  assumes "acq_inv rt s"
  shows "client_wf (a_client s) (heap (a_world s))"
    and "r < length (heap (a_world s)) \<Longrightarrow> bucket_ok (bucket_at s r) (a_pcs s) r"
    and "r \<in> refs (a_pcs s i) \<Longrightarrow> r < length (heap (a_world s))"
    and "a_pcs s i = Owning r \<Longrightarrow> resolve (a_client s) (rt i) = Some r"
  using assms by (auto simp: acq_inv_def)

lemma claim_refs: "claim p = Some r \<Longrightarrow> r \<in> refs p"
  by (cases p rule: refs.cases) auto

lemma acq_inv_pc:
  \<comment> \<open>a step that changes one bucket and one goroutine\<close>
  assumes inv: "acq_inv rt s" and ok: "bucket_ok b ((a_pcs s)(i := p)) r"
    and old: "claim (a_pcs s i) = None \<or> claim (a_pcs s i) = Some r" and new: "claim p = None \<or> claim p = Some r"
    and rf: "\<And>q. q \<in> refs p \<Longrightarrow> q < length (heap (a_world s))" and own: "\<And>q. p \<noteq> Owning q"
  shows "acq_inv rt (set_bucket s r b ((a_pcs s)(i := p)))"
proof -
  have "bucket_ok ((heap (a_world s))[r := b] ! q) ((a_pcs s)(i := p)) q" if q: "q < length (heap (a_world s))" for q
  proof (cases "q = r")
    case False
    hence "bucket_ok (bucket_at s q) ((a_pcs s)(i := p)) q"
      using acq_invD(2) [OF inv q] old new by (subst bucket_ok_frame) auto
    thus ?thesis using False by simp
  qed (use ok q in simp)
  thus ?thesis using acq_invD [OF inv] rf own
    by (auto simp: acq_inv_def set_bucket_def client_wf_def simp del: map_of_eq_Some_iff)
qed

lemma acq_inv_wake:
  \<comment> \<open>a step in which goroutine \<open>i\<close> releases the gate of \<open>r\<close>\<close>
  assumes inv: "acq_inv rt s" and i: "owner (a_pcs s) r i" and r: "r < length (heap (a_world s))"
    and rel: "gate_release (b_gate (bucket_at s r)) = (g, nxt)"
    and new: "\<not> in_gate p" "claim p = None \<or> claim p = Some r" "\<And>q. p \<noteq> Waiting q"
    and cnt: "(claim p = Some r \<and> counted p) = counted (a_pcs s i)"
    and rf: "\<And>q. q \<in> refs p \<Longrightarrow> q < length (heap (a_world s))"
  shows "acq_inv rt (set_bucket s r ((bucket_at s r)\<lparr>b_gate := g\<rparr>) (wake nxt r ((a_pcs s)(i := p))))"
proof -
  let ?f = "wake nxt r ((a_pcs s)(i := p))"
  have ok: "bucket_ok (bucket_at s r) (a_pcs s) r" by (rule acq_invD(2) [OF inv r])
  have okr: "bucket_ok ((bucket_at s r)\<lparr>b_gate := g\<rparr>) ?f r"
    by (rule bucket_ok_release [OF ok i rel]) (use new cnt in auto)
  have nq: "\<not> queued_at (a_pcs s) r i" using i by (auto simp: owner_def queued_at_def)
  have gok: "gate_ok (b_gate (bucket_at s r)) (owner (a_pcs s) r) (queued_at (a_pcs s) r)"
    using ok by (simp add: bucket_ok_def)
  have woken: "a_pcs s j = Waiting r" "j \<noteq> i" if "nxt = Some j" for j
    using gate_ok_release(2) [OF gok i nq rel that] by (auto simp: queued_at_def)
  have frame: "bucket_ok b ?f q = bucket_ok b (a_pcs s) q" if "q \<noteq> r" for b q
  proof -
    have "bucket_ok b ((a_pcs s)(i := p)) q = bucket_ok b (a_pcs s) q"
      using that i new by (intro bucket_ok_frame) (auto simp: owner_def)
    moreover have "bucket_ok b ?f q = bucket_ok b ((a_pcs s)(i := p)) q"
      using that woken by (cases nxt) (simp_all add: wake_def bucket_ok_frame)
    ultimately show ?thesis by simp
  qed
  have "bucket_ok ((heap (a_world s))[r := (bucket_at s r)\<lparr>b_gate := g\<rparr>] ! q) ?f q" if "q < length (heap (a_world s))" for q
    using okr frame acq_invD(2) [OF inv that] that by (cases "q = r") simp_all
  moreover have "q < length (heap (a_world s))" if "q \<in> refs (?f j)" for q j
    using that rf r acq_invD(3) [OF inv] by (cases nxt) (auto simp: wake_def split: if_splits)
  moreover have "a_pcs s j = Owning q" if "?f j = Owning q" for q j
    using that new(1) by (cases nxt) (auto simp: wake_def split: if_splits)
  ultimately show ?thesis using acq_invD [OF inv]
    by (auto simp: acq_inv_def set_bucket_def client_wf_def simp del: map_of_eq_Some_iff)
qed

lemma fresh_bucket_ok:
  assumes "acq_inv rt s"
  shows "bucket_ok (newBucketState n now) (a_pcs s) (length (heap (a_world s)))" (is "bucket_ok _ _ ?r")
proof -
  have "j \<notin> users (a_pcs s) ?r \<and> \<not> owner (a_pcs s) ?r j \<and> \<not> queued_at (a_pcs s) ?r j" for j
    using acq_invD(3) [OF assms, of ?r j] claim_refs [of "a_pcs s j" ?r]
    by (auto simp: users_def owner_def queued_at_def)
  hence e: "users (a_pcs s) ?r = {}" "owner (a_pcs s) ?r = (\<lambda>_. False)" "queued_at (a_pcs s) ?r = (\<lambda>_. False)" by auto
  show ?thesis by (simp add: bucket_ok_def e newBucketState_def gate_ok_new)
qed

lemma lookup_effect:
  assumes inv: "acq_inv rt s" and b: "bucket_or_new (a_client s) (a_world s) h now = (c, w, res)"
  shows "client_wf c (heap w)" "length (heap (a_world s)) \<le> length (heap w)"
    "res = Inr q \<Longrightarrow> q < length (heap w) \<and> resolve c h = Some q"
    "k < length (heap w) \<Longrightarrow> bucket_ok (heap w ! k) (a_pcs s) k"
proof -
  let ?hp = "heap (a_world s)"
  note wf = acq_invD(1) [OF inv]
  have "client_wf c (heap w) \<and> length ?hp \<le> length (heap w) \<and>
    (\<forall>q. res = Inr q \<longrightarrow> q < length (heap w) \<and> resolve c h = Some q) \<and>
    (\<forall>k < length (heap w). bucket_ok (heap w ! k) (a_pcs s) k)"
  proof (cases "resolve (a_client s) h")
    case (Some q)
    hence "c = a_client s" "w = a_world s" "res = Inr q" using b bucket_or_new_hit [OF Some, of "a_world s" now] by auto
    moreover have "q < length ?hp" using bucket_or_new_keeps(3) [OF wf b Some] .
    ultimately show ?thesis using Some wf acq_invD(2) [OF inv] by auto
  next
    case None
    show ?thesis
    proof (cases res)
      case (Inl e)
      thus ?thesis using b bucket_or_new_error [of "a_client s" "a_world s" h now c w e] wf acq_invD(2) [OF inv] by simp
    next
      case (Inr q)
      note miss = bucket_or_new_miss [OF wf None b [unfolded Inr]]
      thus ?thesis using Inr miss(3) [of h] acq_invD(2) [OF inv] fresh_bucket_ok [OF inv]
        by (auto simp: nth_append less_Suc_eq)
    qed
  qed
  thus "client_wf c (heap w)" "length ?hp \<le> length (heap w)" "res = Inr q \<Longrightarrow> q < length (heap w) \<and> resolve c h = Some q"
    "k < length (heap w) \<Longrightarrow> bucket_ok (heap w ! k) (a_pcs s) k" by auto
qed

lemma acq_inv_lookup:
  \<comment> \<open>a step that looks up the bucket of a route\<close>
  assumes inv: "acq_inv rt s" and b: "bucket_or_new (a_client s) (a_world s) (rt i) now = (c, w, res)"
    and keep: "claim p = claim (a_pcs s i)" "counted p = counted (a_pcs s i)" "in_gate p = in_gate (a_pcs s i)"
      "\<And>q. p \<noteq> Waiting q" "\<And>q. a_pcs s i \<noteq> Waiting q"
    and rf: "refs p \<subseteq> refs (a_pcs s i) \<union> {q. res = Inr q}"
    and own: "\<And>q. p = Owning q \<Longrightarrow> res = Inr q"
  shows "acq_inv rt \<lparr>a_client = c, a_world = w, a_pcs = (a_pcs s)(i := p)\<rparr>"
proof -
  let ?f = "(a_pcs s)(i := p)"
  note eff = lookup_effect [OF inv b]
  have move: "bucket_ok b ?f q = bucket_ok b (a_pcs s) q" for b q
    by (rule bucket_ok_move [where f = "a_pcs s"]) (use keep in auto)
  have "q < length (heap w)" if "q \<in> refs (?f j)" for q j
  proof (cases "j = i")
    case True
    hence "q \<in> refs (a_pcs s i) \<or> res = Inr q" using that rf by auto
    thus ?thesis using eff(2,3) acq_invD(3) [OF inv, of q i] by auto
  qed (use that acq_invD(3) [OF inv, of q j] eff(2) in auto)
  moreover have "resolve c (rt j) = Some q" if "?f j = Owning q" for q j
    using that own eff(3) bucket_or_new_keeps(1) [OF acq_invD(1) [OF inv] b] acq_invD(4) [OF inv, of j q]
    by (auto split: if_splits)
  ultimately show ?thesis using eff(1,4) move by (simp add: acq_inv_def)
qed

lemma learned_keeps:
  assumes "resolve s h' = Some q" "h' \<noteq> h" "q \<noteq> current"
  shows "resolve (learned s h c current) h' = Some q"
  using assms
  by (auto simp: resolve_def canonical_of_def learned_def deletes_route_def Let_def split: option.splits)

lemma learned_heap_fields:
  "b_gate (learned_heap hp t current ! q) = b_gate (hp ! q)" "active (learned_heap hp t current ! q) = active (hp ! q)"
  by (cases "t < length hp"; cases "q = t"; simp add: learned_heap_def bucket_merge_def list_update_beyond)+

lemma one_owner:
  assumes "acq_inv rt s" "owner (a_pcs s) r i" "owner (a_pcs s) r j"
  shows "i = j"
proof -
  have "r < length (heap (a_world s))"
    using acq_invD(3) [OF assms(1)] claim_refs assms(2) by (auto simp: owner_def)
  from acq_invD(2) [OF assms(1) this] show ?thesis
    using assms(2,3) by (auto simp: bucket_ok_def gate_ok_def)
qed

lemma acq_inv_learn:
  assumes inv: "acq_inv rt s" and i: "a_pcs s i = Owning r"
    and l: "learn_at (a_client s) (a_world s) (rt i) h r = (c, w, t)"
  shows "acq_inv rt \<lparr>a_client = c, a_world = w, a_pcs = (a_pcs s)(i := Learned r)\<rparr>"
proof -
  let ?f = "(a_pcs s)(i := Learned r)" and ?hp = "heap (a_world s)"
  have r: "r < length ?hp" using acq_invD(3) [OF inv, of r i] i by simp
  have move: "bucket_ok b ?f q = bucket_ok b (a_pcs s) q" for b q
    by (rule bucket_ok_move [where f = "a_pcs s"]) (use i in auto)
  have other: "rt j \<noteq> rt i" "q \<noteq> r" if "a_pcs s j = Owning q" "j \<noteq> i" for j q
  proof -
    have "owner (a_pcs s) r i" "owner (a_pcs s) q j" using i that by (auto simp: owner_def)
    thus "q \<noteq> r" using one_owner [OF inv, of r i j] that(2) by auto
    thus "rt j \<noteq> rt i" using acq_invD(4) [OF inv i] acq_invD(4) [OF inv that(1)] by auto
  qed
  have "client_wf c (heap w) \<and> length (heap w) = length ?hp \<and>
    (\<forall>q. b_gate (heap w ! q) = b_gate (?hp ! q) \<and> active (heap w ! q) = active (?hp ! q)) \<and>
    (\<forall>j q. a_pcs s j = Owning q \<and> j \<noteq> i \<longrightarrow> resolve c (rt j) = Some q)"
  proof (cases "learn_refused (a_client s) (a_world s) (rt i) h r")
    case True
    hence "c = (a_client s)\<lparr>aliasLimit := True\<rparr>" "w = a_world s" using l by (auto simp: learn_at_refused)
    thus ?thesis using acq_invD(1,4) [OF inv]
      by (auto simp: client_wf_def resolve_def canonical_of_def simp del: map_of_eq_Some_iff)
  next
    case False
    hence "c = learned (a_client s) (rt i) h r" "heap w = learned_heap ?hp (learn_target (a_client s) h r) r"
      using l by (auto simp: learn_at_done)
    moreover have "resolve (learned (a_client s) (rt i) h r) (rt j) = Some q" if "a_pcs s j = Owning q" "j \<noteq> i" for j q
      by (rule learned_keeps [OF acq_invD(4) [OF inv that(1)] other [OF that]])
    ultimately show ?thesis
      using learned_wf [OF acq_invD(1) [OF inv] r] client_wf_heap [of c ?hp "heap w"]
      by (simp add: learned_heap_fields)
  qed
  moreover have "bucket_ok (heap w ! q) ?f q" if "q < length ?hp" for q
    using calculation acq_invD(2) [OF inv that] bucket_ok_fields [of "heap w ! q" "?hp ! q"] move by simp
  ultimately show ?thesis using acq_invD(3) [OF inv] r by (auto simp: acq_inv_def)
qed

lemma busy_not_idle:
  assumes "acq_inv rt s" "claim (a_pcs s i) = Some r" "counted (a_pcs s i)"
  shows "0 < active (bucket_at s r)" "\<not> bucket_idle (bucket_at s r) now"
proof -
  have "r < length (heap (a_world s))" using acq_invD(3) [OF assms(1)] claim_refs [OF assms(2)] by blast
  from acq_invD(2) [OF assms(1) this] assms(2,3) show "0 < active (bucket_at s r)"
    by (auto simp: bucket_ok_def users_def card_gt_0_iff)
  thus "\<not> bucket_idle (bucket_at s r) now" by (simp add: bucket_idle_def)
qed

lemma acq_inv_sweep:
  assumes inv: "acq_inv rt s" and sw: "sweep (a_client s) (a_world s) now = (c, w)"
  shows "acq_inv rt (s\<lparr>a_client := c, a_world := w\<rparr>)"
proof -
  note wf = acq_invD(1) [OF inv]
  have "client_wf c (heap w)" using sw client_wf_filter [OF wf] by (auto simp: sweep_def Let_def)
  moreover have "resolve c (rt i) = Some r" if "a_pcs s i = Owning r" for i r
    using sweep_resolve [OF wf sw acq_invD(4) [OF inv that]] busy_not_idle(2) [OF inv, of i r now] that by simp
  ultimately show ?thesis using acq_invD [OF inv] sweep_maps(3) [OF wf sw] by (auto simp: acq_inv_def)
qed

lemma acq_inv_move:
  assumes inv: "acq_inv rt s"
    and keep: "claim p = claim (a_pcs s i)" "counted p = counted (a_pcs s i)" "in_gate p = in_gate (a_pcs s i)"
      "\<And>q. p \<noteq> Waiting q" "\<And>q. a_pcs s i \<noteq> Waiting q" "refs p \<subseteq> refs (a_pcs s i)" "\<And>q. p \<noteq> Owning q"
  shows "acq_inv rt (s\<lparr>a_pcs := (a_pcs s)(i := p)\<rparr>)"
proof -
  have "bucket_ok b ((a_pcs s)(i := p)) q = bucket_ok b (a_pcs s) q" for b q
    by (rule bucket_ok_move [where f = "a_pcs s"]) (use keep in auto)
  thus ?thesis using acq_invD [OF inv] keep(6,7) by (auto simp: acq_inv_def)
qed

lemma acq_inv_cooldown:
  assumes "acq_inv rt s"
  shows "acq_inv rt (set_bucket s r (blockUntil (bucket_at s r) t) (a_pcs s))"
proof -
  have "bucket_ok ((heap (a_world s))[r := blockUntil (bucket_at s r) t] ! q) (a_pcs s) q" if "q < length (heap (a_world s))" for q
    using acq_invD(2) [OF assms that] that
    by (cases "r = q") (simp_all add: bucket_ok_fields [of "blockUntil (bucket_at s q) t" "bucket_at s q"])
  thus ?thesis using acq_invD [OF assms]
    by (auto simp: acq_inv_def set_bucket_def client_wf_def simp del: map_of_eq_Some_iff)
qed

lemma acq_step_inv: "acq_step rt s t \<Longrightarrow> acq_inv rt s \<Longrightarrow> acq_inv rt t"
proof (induction rule: acq_step.induct)
  case (lookup s i now c w res)
  show ?case by (rule acq_inv_lookup [OF lookup.prems lookup.hyps(2)]) (use lookup.hyps(1) in \<open>cases res; force split: if_splits\<close>)+
next
  case (announce s i r now)
  have r: "r < length (heap (a_world s))" using acq_invD(3) [OF announce.prems, of r i] announce.hyps by simp
  show ?case
    by (rule acq_inv_pc [OF announce.prems bucket_ok_announce [OF acq_invD(2) [OF announce.prems r] announce.hyps]])
      (use r announce.hyps in simp_all)
next
  case (enter s i r g res)
  have r: "r < length (heap (a_world s))" using acq_invD(3) [OF enter.prems, of r i] enter.hyps by simp
  show ?case
    by (rule acq_inv_pc [OF enter.prems bucket_ok_enter [OF acq_invD(2) [OF enter.prems r] enter.hyps]])
      (use r enter.hyps(1) in \<open>cases res; force split: if_splits\<close>)+
next
  case (cancel_queued s i r g)
  have r: "r < length (heap (a_world s))" using acq_invD(3) [OF cancel_queued.prems, of r i] cancel_queued.hyps by simp
  show ?case
    by (rule acq_inv_pc [OF cancel_queued.prems bucket_ok_cancel [OF acq_invD(2) [OF cancel_queued.prems r] cancel_queued.hyps]])
      (use r cancel_queued.hyps(1) in simp_all)
next
  case (cancel_handed s i r g nxt)
  have r: "r < length (heap (a_world s))" using acq_invD(3) [OF cancel_handed.prems, of r i] cancel_handed.hyps by simp
  have "owner (a_pcs s) r i" using cancel_handed.hyps by (simp add: owner_def)
  thus ?case
    by (rule acq_inv_wake [OF cancel_handed.prems _ r cancel_handed.hyps(2)]) (use r cancel_handed.hyps(1) in simp_all)
next
  case (leave s i r)
  have r: "r < length (heap (a_world s))" using acq_invD(3) [OF leave.prems, of r i] leave.hyps by simp
  have "bucket_ok ((bucket_at s r)\<lparr>active := active (bucket_at s r) - 1\<rparr>) ((a_pcs s)(i := Stopped)) r"
    by (rule bucket_ok_drop [OF acq_invD(2) [OF leave.prems r]])
      (use leave.hyps in \<open>simp_all add: users_def owner_def queued_at_def fun_eq_iff\<close>)
  thus ?case by (rule acq_inv_pc [OF leave.prems]) (use leave.hyps in simp_all)
next
  case (acquired s i r)
  show ?case by (rule acq_inv_move [OF acquired.prems]) (use acquired.hyps in simp_all)
next
  case (recheck s i r now c w res)
  show ?case by (rule acq_inv_lookup [OF recheck.prems recheck.hyps(2)]) (use recheck.hyps(1) in \<open>cases res; force split: if_splits\<close>)+
next
  case (learn s i r h c w t)
  show ?case by (rule acq_inv_learn [OF learn.prems learn.hyps])
next
  case (finish s i r a)
  show ?case by (rule acq_inv_move [OF finish.prems]) (use finish.hyps in auto)
next
  case (retire s i r a now)
  have r: "r < length (heap (a_world s))" using acq_invD(3) [OF retire.prems, of r i] retire.hyps by (cases a) auto
  have "bucket_ok ((touch (bucket_at s r) now)\<lparr>active := active (bucket_at s r) - 1\<rparr>) ((a_pcs s)(i := Unlocking r a)) r"
    by (rule bucket_ok_drop [OF acq_invD(2) [OF retire.prems r]])
      (use retire.hyps in \<open>simp_all add: users_def owner_def queued_at_def fun_eq_iff\<close>)
  thus ?case
    by (rule acq_inv_pc [OF retire.prems])
      (use retire.hyps acq_invD(3) [OF retire.prems, of _ i] in \<open>cases a; force\<close>)+
next
  case (unlock s i r a g nxt)
  have r: "r < length (heap (a_world s))" using acq_invD(3) [OF unlock.prems, of r i] unlock.hyps by (cases a) auto
  have "owner (a_pcs s) r i" using unlock.hyps by (simp add: owner_def)
  thus ?case
    by (rule acq_inv_wake [OF unlock.prems _ r unlock.hyps(2)])
      (use unlock.hyps(1) acq_invD(3) [OF unlock.prems, of _ i] in \<open>cases a; force\<close>)+
next
  case (cooldown s r t)
  thus ?case by (rule acq_inv_cooldown)
next
  case (sweep s now c w)
  show ?case by (rule acq_inv_sweep [OF sweep.prems sweep.hyps])
next
  case (other_clients s b)
  thus ?case by (simp add: acq_inv_def)
qed

lemma acq_reachable_inv: "acq_reachable rt s \<Longrightarrow> acq_inv rt s"
proof (induction rule: acq_reachable.induct)
  case (start ident lim maxw now b n)
  show ?case by (simp add: acq_inv_def client_wf_def newClientState_def client_touch_def)
next
  case (step s t) thus ?case by (blast intro: acq_step_inv)
qed


subsection \<open>Progress of a request that finds its gate free\<close>

lemma acq_reachable_steps: "(acq_step rt)\<^sup>*\<^sup>* s t \<Longrightarrow> acq_reachable rt s \<Longrightarrow> acq_reachable rt t"
  by (induction rule: rtranclp_induct) (auto intro: acq_reachable.step)

lemma found_to_owning:
  assumes "a_pcs s i = Found r" "r < length (heap (a_world s))" "\<not> held (b_gate (bucket_at s r))"
    and "resolve (a_client s) (rt i) = Some r"
  shows "\<exists>t. (acq_step rt)\<^sup>*\<^sup>* s t \<and> a_pcs t = (a_pcs s)(i := Owning r) \<and> a_client t = a_client s \<and>
    slots (a_world t) = slots (a_world s) \<and> length (heap (a_world t)) = length (heap (a_world s))"
proof -
  let ?b1 = "touch ((bucket_at s r)\<lparr>active := active (bucket_at s r) + 1\<rparr>) 0"
  let ?s1 = "set_bucket s r ?b1 ((a_pcs s)(i := Announced r))"
  let ?b2 = "?b1\<lparr>b_gate := (b_gate ?b1)\<lparr>held := True\<rparr>\<rparr>"
  let ?s2 = "set_bucket ?s1 r ?b2 ((a_pcs ?s1)(i := Handed r))"
  let ?s3 = "?s2\<lparr>a_pcs := (a_pcs ?s2)(i := Rechecking r)\<rparr>"
  let ?s4 = "\<lparr>a_client = a_client s, a_world = a_world ?s3, a_pcs = (a_pcs ?s3)(i := Owning r)\<rparr>"
  have at: "bucket_at ?s1 r = ?b1" using assms(2) by (simp add: set_bucket_def)
  have 1: "acq_step rt s ?s1" by (rule acq_step.announce [OF assms(1)])
  have "acquire_enter (b_gate (bucket_at ?s1 r)) i = ((b_gate ?b1)\<lparr>held := True\<rparr>, Entered)"
    using assms(3) by (simp add: at acquire_enter_def)
  from acq_step.enter [OF _ this, of rt] have 2: "acq_step rt ?s1 ?s2" unfolding at by (simp add: set_bucket_def)
  have 3: "acq_step rt ?s2 ?s3" by (rule acq_step.acquired) (simp add: set_bucket_def)
  have "bucket_or_new (a_client ?s3) (a_world ?s3) (rt i) 0 = (a_client s, a_world ?s3, Inr r)"
    using assms(4) by (simp add: set_bucket_def bucket_or_new_hit)
  from acq_step.recheck [where rt = rt and i = i and r = r, OF _ this] have 4: "acq_step rt ?s3 ?s4" by simp
  have "(acq_step rt)\<^sup>*\<^sup>* s ?s4" using 1 2 3 4 by (meson converse_rtranclp_into_rtranclp rtranclp.rtrancl_refl)
  thus ?thesis by (intro exI [of _ ?s4]) (simp add: set_bucket_def)
qed

lemma looking_to_owning:
  assumes "acq_inv rt s" "a_pcs s i = Looking"
    and b: "bucket_or_new (a_client s) (a_world s) (rt i) now = (c, w, Inr r)"
    and free: "resolve (a_client s) (rt i) = Some r \<Longrightarrow> \<not> held (b_gate (bucket_at s r))"
  shows "\<exists>t. (acq_step rt)\<^sup>*\<^sup>* s t \<and> a_pcs t = (a_pcs s)(i := Owning r) \<and> a_client t = c \<and>
    slots (a_world t) = slots w \<and> length (heap (a_world t)) = length (heap w)"
proof -
  note wf = acq_invD(1) [OF assms(1)]
  let ?s1 = "\<lparr>a_client = c, a_world = w, a_pcs = (a_pcs s)(i := Found r)\<rparr>"
  have 1: "acq_step rt s ?s1" using acq_step.lookup [where rt = rt, OF assms(2) b] by simp
  have "resolve c (rt i) = Some r \<and> r < length (heap w) \<and> \<not> held (b_gate (heap w ! r))"
  proof (cases "resolve (a_client s) (rt i)")
    case None
    note miss = bucket_or_new_miss [OF wf None b]
    show ?thesis using miss(1,2) miss(3) [of "rt i"] by (simp add: newBucketState_def newFIFOGate_def)
  next
    case (Some q)
    hence "c = a_client s" "w = a_world s" "q = r" using b bucket_or_new_hit [OF Some, of "a_world s" now] by auto
    thus ?thesis using Some free bucket_or_new_keeps(3) [OF wf b Some] by simp
  qed
  from found_to_owning [of ?s1 i r rt] this obtain t where "(acq_step rt)\<^sup>*\<^sup>* ?s1 t" "a_pcs t = (a_pcs s)(i := Owning r)"
    "a_client t = c" "slots (a_world t) = slots w" "length (heap (a_world t)) = length (heap w)" by auto
  thus ?thesis using 1 by (blast intro: converse_rtranclp_into_rtranclp)
qed


subsection \<open>Properties\<close>

text \<open>Two goroutines with routes 0 and 1, used by the witnesses.\<close>

definition acq_example :: acq_sys where
  "acq_example = \<lparr>a_client = newClientState no_auth 50 10 0, a_world = \<lparr>heap = [], slots = newResourceBudget 5\<rparr>,
     a_pcs = (\<lambda>i. if i < 2 then Looking else Stopped)\<rparr>"

definition example_rt :: "nat \<Rightarrow> u64" where
  "example_rt i = (if i = 0 then 0 else 1)"

lemma acq_example_reachable: "acq_reachable example_rt acq_example"
  unfolding acq_example_def by (rule acq_reachable.start)

lemma acq_example_first:
  "bucket_or_new (a_client acq_example) (a_world acq_example) (example_rt 0) 0 =
     ((newClientState no_auth 50 10 0)\<lparr>buckets := [(0, 0)]\<rparr>,
      \<lparr>heap = [newBucketState 10 0], slots = \<lparr>limit = 5, used = 1\<rparr>\<rparr>, Inr 0)"
  by (simp add: acq_example_def example_rt_def bucket_or_new_def resolve_def canonical_of_def newClientState_def
      client_touch_def newResourceBudget_def reserve_int_def reserve_def exhausted_def)

lemma acq_example_one:
  "\<exists>s. acq_reachable example_rt s \<and> a_pcs s = (a_pcs acq_example)(0 := Owning 0) \<and>
     a_client s = (newClientState no_auth 50 10 0)\<lparr>buckets := [(0, 0)]\<rparr> \<and> slots (a_world s) = \<lparr>limit = 5, used = 1\<rparr> \<and>
     length (heap (a_world s)) = 1"
proof -
  have "a_pcs acq_example 0 = Looking" "resolve (a_client acq_example) (example_rt 0) \<noteq> Some 0"
    by (simp_all add: acq_example_def resolve_def newClientState_def client_touch_def)
  with looking_to_owning [OF acq_reachable_inv [OF acq_example_reachable] this(1) acq_example_first]
  obtain t where t: "(acq_step example_rt)\<^sup>*\<^sup>* acq_example t" "a_pcs t = (a_pcs acq_example)(0 := Owning 0)"
    "a_client t = (newClientState no_auth 50 10 0)\<lparr>buckets := [(0, 0)]\<rparr>" "slots (a_world t) = \<lparr>limit = 5, used = 1\<rparr>"
    "length (heap (a_world t)) = 1" by auto
  thus ?thesis using acq_reachable_steps [OF t(1) acq_example_reachable] by (intro exI [of _ t]) simp
qed

text \<open>
  C2. One request per route and per bucket: in every interleaving of lookups, queueing,
  cancellations, learned aliases and sweeps, two goroutines that \<^verbatim>\<open>acquireBucket\<close> has admitted and
  that have no response yet hold different buckets, serve different routes, and each holds the
  bucket that its route resolves to at that moment, so no later request can bypass it.
\<close>

theorem requests_serialised:
  assumes "acq_reachable rt s" and "i \<noteq> j" and "a_pcs s i = Owning r" and "a_pcs s j = Owning q"
  shows "r \<noteq> q \<and> rt i \<noteq> rt j \<and> resolve (a_client s) (rt i) = Some r \<and> resolve (a_client s) (rt j) = Some q"
proof -
  note inv = acq_reachable_inv [OF assms(1)]
  have "owner (a_pcs s) r i" "owner (a_pcs s) q j" using assms(3,4) by (simp_all add: owner_def)
  hence "r \<noteq> q" using one_owner [OF inv] assms(2) by blast
  thus ?thesis using acq_invD(4) [OF inv assms(3)] acq_invD(4) [OF inv assms(4)] by auto
qed

theorem requests_serialised_witness:
  "\<exists>s r q. acq_reachable example_rt s \<and> a_pcs s 0 = Owning r \<and> a_pcs s 1 = Owning q \<and> r \<noteq> q"
proof -
  obtain s where s: "acq_reachable example_rt s" "a_pcs s = (a_pcs acq_example)(0 := Owning 0)"
    "a_client s = (newClientState no_auth 50 10 0)\<lparr>buckets := [(0, 0)]\<rparr>" "slots (a_world s) = \<lparr>limit = 5, used = 1\<rparr>"
    "length (heap (a_world s)) = 1" using acq_example_one by blast
  have "a_pcs s 1 = Looking" by (simp add: s(2) acq_example_def)
  moreover have none: "resolve (a_client s) (example_rt 1) = None"
    by (simp add: s(3) resolve_def canonical_of_def example_rt_def newClientState_def client_touch_def)
  moreover obtain c w where "bucket_or_new (a_client s) (a_world s) (example_rt 1) 0 = (c, w, Inr 1)"
    using none s(4,5) by (simp add: bucket_or_new_def reserve_int_def reserve_def exhausted_def)
  ultimately obtain t where "(acq_step example_rt)\<^sup>*\<^sup>* s t" and f: "a_pcs t = (a_pcs s)(1 := Owning 1)"
    using looking_to_owning [OF acq_reachable_inv [OF s(1)], of 1 0 c w 1] by auto
  hence t: "acq_reachable example_rt t" using acq_reachable_steps s(1) by blast
  have "a_pcs t 0 = Owning 0" "a_pcs t 1 = Owning 1" by (simp_all add: f s(2))
  with requests_serialised [OF t _ this] t show ?thesis by (metis zero_neq_one)
qed

text \<open>
  The counters of a bucket are exact: \<^verbatim>\<open>active\<close> is the number of goroutines between the increment
  and the decrement, so it is never negative and a bucket in use is never idle; the gate is held
  exactly if one goroutine is inside, and never by two; its queue is exactly the goroutines that
  wait for it.
\<close>

theorem bucket_counters_exact:
  assumes "acq_reachable rt s" and "r < length (heap (a_world s))"
  shows "active (bucket_at s r) = int (card {i. claim (a_pcs s i) = Some r \<and> counted (a_pcs s i)}) \<and>
    (held (b_gate (bucket_at s r)) \<longleftrightarrow> (\<exists>!i. claim (a_pcs s i) = Some r \<and> in_gate (a_pcs s i))) \<and>
    set (waiters (b_gate (bucket_at s r))) = {i. a_pcs s i = Waiting r} \<and> distinct (waiters (b_gate (bucket_at s r))) \<and>
    (\<forall>i now. claim (a_pcs s i) = Some r \<and> counted (a_pcs s i) \<longrightarrow> \<not> bucket_idle (bucket_at s r) now)"
proof -
  note inv = acq_reachable_inv [OF assms(1)]
  have ok: "bucket_ok (bucket_at s r) (a_pcs s) r" by (rule acq_invD(2) [OF inv assms(2)])
  hence "active (bucket_at s r) = int (card {i. claim (a_pcs s i) = Some r \<and> counted (a_pcs s i)})"
    by (simp add: bucket_ok_def users_def)
  moreover have "held (b_gate (bucket_at s r)) \<longleftrightarrow> (\<exists>!i. claim (a_pcs s i) = Some r \<and> in_gate (a_pcs s i))"
    "set (waiters (b_gate (bucket_at s r))) = {i. a_pcs s i = Waiting r}" "distinct (waiters (b_gate (bucket_at s r)))"
    using ok unfolding bucket_ok_def gate_ok_def owner_def queued_at_def by blast+
  ultimately show ?thesis using busy_not_idle(2) [OF inv] by blast
qed



end
