(* ===== verification/Registry.thy ===== *)
theory Registry
  imports Client
begin

section \<open>The registry of clients\<close>

text \<open>
  The maps of clients that \<^verbatim>\<open>Proxy\<close> holds under \<^verbatim>\<open>clientsMu\<close>: \<^verbatim>\<open>client\<close>, \<^verbatim>\<open>evictOldestIdle\<close> and
  \<^verbatim>\<open>sweepClients\<close> of \<^verbatim>\<open>internal/proxy/scheduler.go\<close>, and the part of \<^verbatim>\<open>finishClose\<close> of
  \<^verbatim>\<open>internal/proxy/proxy.go\<close> that drops them. A map is an association list, and its order stands for
  the unspecified order in which Go ranges over it: every statement holds for all orders.
\<close>

subsection \<open>State and operations\<close>

type_synonym client_map = "(8 word list, clientState) gomap"

record registry =
  bots :: client_map
  bearers :: client_map
  noAuth :: "clientState option"
  closed :: bool
  r_world :: world
  MaxBearerClients :: int
  MaxClientStates :: int
  MaxQueueDepth :: int
  globalOverrides :: "(string, nat) gomap"

datatype client_ref = NoAuthRef | BotRef "8 word list" | BearerRef "8 word list"

datatype group = Bots | Bearers

definition group_map :: "registry \<Rightarrow> group \<Rightarrow> client_map" where
  "group_map g grp = (case grp of Bots \<Rightarrow> bots g | Bearers \<Rightarrow> bearers g)"

definition set_group :: "registry \<Rightarrow> group \<Rightarrow> client_map \<Rightarrow> registry" where
  "set_group g grp m = (case grp of Bots \<Rightarrow> g\<lparr>bots := m\<rparr> | Bearers \<Rightarrow> g\<lparr>bearers := m\<rparr>)"

fun oldest_idle ::
  "time \<Rightarrow> bucketState list \<Rightarrow> (group \<times> 8 word list \<times> clientState) option \<Rightarrow>
     (group \<times> 8 word list \<times> clientState) list \<Rightarrow> (group \<times> 8 word list \<times> clientState) option" where
  \<comment> \<open>the two nested loops of \<^verbatim>\<open>evictOldestIdle\<close> over the candidates of all groups\<close>
  "oldest_idle now hp best [] = best"
| "oldest_idle now hp best ((grp, k, candidate) # rest) =
     (if \<not> client_idle candidate hp now then oldest_idle now hp best rest
      else case best of
             None \<Rightarrow> oldest_idle now hp (Some (grp, k, candidate)) rest
           | Some (g', k', oldest) \<Rightarrow>
               if c_lastUsed candidate < c_lastUsed oldest then oldest_idle now hp (Some (grp, k, candidate)) rest
               else oldest_idle now hp best rest)"

definition candidates :: "registry \<Rightarrow> group list \<Rightarrow> (group \<times> 8 word list \<times> clientState) list" where
  "candidates g groups = concat (map (\<lambda>grp. map (\<lambda>(k, c). (grp, k, c)) (group_map g grp)) groups)"

definition evictOldestIdle :: "registry \<Rightarrow> time \<Rightarrow> group list \<Rightarrow> registry \<times> bool" where
  "evictOldestIdle g now groups =
     (case oldest_idle now (heap (r_world g)) None (candidates g groups) of
        None \<Rightarrow> (g, False)
      | Some (grp, k, oldest) \<Rightarrow>
          ((set_group g grp (AList.delete k (group_map g grp)))\<lparr>r_world := snd (clear oldest (r_world g))\<rparr>, True))"

record now_readings =
  at_bearer_evict :: time
  at_evict :: time
  at_new :: time
  at_begin :: time

definition client :: "registry \<Rightarrow> identity \<Rightarrow> now_readings \<Rightarrow> registry \<times> (sched_error + client_ref)" where
  "client g i t =
     (if closed g then (g, Inl ErrProxyClosed)
      else if kind i = authNone then
        (case noAuth g of
           None \<Rightarrow> (g, Inl ErrProxyClosed)
         | Some c \<Rightarrow> (g\<lparr>noAuth := Some (client_begin c (at_begin t))\<rparr>, Inr NoAuthRef))
      else
        let grp = (if kind i = authBearer then Bearers else Bots);
            ref = (if kind i = authBearer then BearerRef (key i) else BotRef (key i))
        in case map_of (group_map g grp) (key i) of
             Some c \<Rightarrow>
               (set_group g grp (AList.update (key i) (client_begin c (at_begin t)) (group_map g grp)), Inr ref)
           | None \<Rightarrow>
               (case (if kind i = authBearer \<and> MaxBearerClients g \<le> int (length (bearers g))
                      then evictOldestIdle g (at_bearer_evict t) [Bearers] else (g, True)) of (g1, ok1) \<Rightarrow>
                  if \<not> ok1 then (g1, Inl ErrTooManyClients)
                  else case (if MaxClientStates g1 \<le> int (length (bots g1)) + int (length (bearers g1))
                             then evictOldestIdle g1 (at_evict t) [Bots, Bearers] else (g1, True)) of (g2, ok2) \<Rightarrow>
                    if \<not> ok2 then (g2, Inl ErrTooManyClients)
                    else
                      let c = newClientState i (globalLimit (globalOverrides g2) i) (MaxQueueDepth g2) (at_new t)
                      in (set_group g2 grp (AList.update (key i) (client_begin c (at_begin t)) (group_map g2 grp)),
                          Inr ref)))"

fun drop_idle :: "time \<Rightarrow> client_map \<Rightarrow> world \<Rightarrow> client_map \<times> world" where
  \<comment> \<open>one of the first two loops of \<^verbatim>\<open>sweepClients\<close>\<close>
  "drop_idle now [] w = ([], w)"
| "drop_idle now ((k, c) # rest) w =
     (if client_idle c (heap w) now then drop_idle now rest (snd (clear c w))
      else case drop_idle now rest w of (m, w') \<Rightarrow> ((k, c) # m, w'))"

fun sweep_all :: "time \<Rightarrow> client_map \<Rightarrow> world \<Rightarrow> client_map \<times> world" where
  "sweep_all now [] w = ([], w)"
| "sweep_all now ((k, c) # rest) w =
     (case sweep c w now of (c', w1) \<Rightarrow> case sweep_all now rest w1 of (m, w2) \<Rightarrow> ((k, c') # m, w2))"

definition expire_clients :: "registry \<Rightarrow> time \<Rightarrow> registry" where
  \<comment> \<open>the section of \<^verbatim>\<open>sweepClients\<close> under \<^verbatim>\<open>clientsMu\<close>\<close>
  "expire_clients g now =
     (case drop_idle now (bots g) (r_world g) of (bs, w1) \<Rightarrow>
      case drop_idle now (bearers g) w1 of (rs, w2) \<Rightarrow>
        g\<lparr>bots := bs, bearers := rs, r_world := w2\<rparr>)"

definition sweep_noAuth :: "registry \<Rightarrow> time \<Rightarrow> registry" where
  "sweep_noAuth g now =
     (case noAuth g of
        None \<Rightarrow> g
      | Some c \<Rightarrow> (case sweep c (r_world g) now of (c', w') \<Rightarrow> g\<lparr>noAuth := Some c', r_world := w'\<rparr>))"

definition sweep_group :: "registry \<Rightarrow> group \<Rightarrow> time \<Rightarrow> registry" where
  "sweep_group g grp now =
     (case sweep_all now (group_map g grp) (r_world g) of (m, w) \<Rightarrow> (set_group g grp m)\<lparr>r_world := w\<rparr>)"

definition sweepClients :: "registry \<Rightarrow> time \<Rightarrow> registry" where
  \<comment> \<open>the states collected under the lock are swept after it is released, the unauthenticated one first\<close>
  "sweepClients g now = sweep_group (sweep_group (sweep_noAuth (expire_clients g now) now) Bots now) Bearers now"

definition drop_clients :: "registry \<Rightarrow> registry" where
  \<comment> \<open>what \<^verbatim>\<open>Close\<close> does to the registry: the context is cancelled, then \<^verbatim>\<open>finishClose\<close> drops the maps\<close>
  "drop_clients g = g\<lparr>closed := True, bots := [], bearers := [], noAuth := None\<rparr>"


subsection \<open>Well-formedness\<close>

definition map_entries :: "client_map \<Rightarrow> int" where
  "map_entries m = sum_list (map (\<lambda>e. entries (snd e)) m)"

definition map_wf :: "client_map \<Rightarrow> bucketState list \<Rightarrow> bool" where
  "map_wf m hp \<longleftrightarrow> keys_distinct m \<and> list_all (\<lambda>e. client_wf (snd e) hp) m"

definition held_entries :: "registry \<Rightarrow> int" where
  "held_entries g = map_entries (bots g) + map_entries (bearers g) + (case noAuth g of None \<Rightarrow> 0 | Some c \<Rightarrow> entries c)"

definition registry_wf :: "registry \<Rightarrow> bool" where
  "registry_wf g \<longleftrightarrow> map_wf (bots g) (heap (r_world g)) \<and> map_wf (bearers g) (heap (r_world g)) \<and>
     (\<forall>c. noAuth g = Some c \<longrightarrow> client_wf c (heap (r_world g))) \<and>
     budget_wf (slots (r_world g)) \<and> held_entries g = sint (used (slots (r_world g)))"

definition registry_bounded :: "registry \<Rightarrow> bool" where
  "registry_bounded g \<longleftrightarrow> int (length (bearers g)) \<le> MaxBearerClients g \<and>
     int (length (bots g)) + int (length (bearers g)) \<le> MaxClientStates g"


subsection \<open>Eviction\<close>

lemma oldest_idle_from:
  "oldest_idle now hp (Some (g0, k0, c0)) cs = Some (grp, k, c) \<Longrightarrow>
   ((grp, k, c) = (g0, k0, c0) \<or> (grp, k, c) \<in> set cs \<and> client_idle c hp now) \<and> c_lastUsed c \<le> c_lastUsed c0 \<and>
   (\<forall>(g', k', c') \<in> set cs. client_idle c' hp now \<longrightarrow> c_lastUsed c \<le> c_lastUsed c')"
proof (induction cs arbitrary: g0 k0 c0)
  case (Cons x cs)
  obtain g1 k1 c1 where x: "x = (g1, k1, c1)" by (rule prod_cases3)
  show ?case
  proof (cases "client_idle c1 hp now \<and> c_lastUsed c1 < c_lastUsed c0")
    case True
    thus ?thesis using Cons.IH [of g1 k1 c1] Cons.prems x by auto
  next
    case False
    hence "oldest_idle now hp (Some (g0, k0, c0)) cs = Some (grp, k, c)" using Cons.prems x by (auto split: if_splits)
    thus ?thesis using Cons.IH [of g0 k0 c0] False x by auto
  qed
qed auto

lemma oldest_idle_some: "oldest_idle now hp (Some b) cs \<noteq> None"
  by (induction cs arbitrary: b) (auto split: prod.splits)

lemma oldest_idle_spec:
  "(oldest_idle now hp None cs = None \<longleftrightarrow> (\<forall>(g', k', c') \<in> set cs. \<not> client_idle c' hp now)) \<and>
   (oldest_idle now hp None cs = Some (grp, k, c) \<longrightarrow> (grp, k, c) \<in> set cs \<and> client_idle c hp now \<and>
     (\<forall>(g', k', c') \<in> set cs. client_idle c' hp now \<longrightarrow> c_lastUsed c \<le> c_lastUsed c'))"
proof (induction cs)
  case (Cons x cs)
  obtain g1 k1 c1 where x: "x = (g1, k1, c1)" by (rule prod_cases3)
  show ?case
  proof (cases "client_idle c1 hp now")
    case True
    thus ?thesis using x oldest_idle_some [of now hp "(g1, k1, c1)" cs] oldest_idle_from [of now hp g1 k1 c1 cs grp k c]
      by auto
  qed (use Cons x in auto)
qed simp

lemma set_candidates: "(grp, k, c) \<in> set (candidates g gs) \<longleftrightarrow> grp \<in> set gs \<and> (k, c) \<in> set (group_map g grp)"
  by (auto simp: candidates_def)

lemma set_group_simps [simp]:
  "group_map (set_group g grp m) grp' = (if grp' = grp then m else group_map g grp')"
  "group_map (g\<lparr>r_world := w\<rparr>) = group_map g" "r_world (set_group g grp m) = r_world g"
  "noAuth (set_group g grp m) = noAuth g" "closed (set_group g grp m) = closed g"
  "MaxBearerClients (set_group g grp m) = MaxBearerClients g" "MaxClientStates (set_group g grp m) = MaxClientStates g"
  "globalOverrides (set_group g grp m) = globalOverrides g" "MaxQueueDepth (set_group g grp m) = MaxQueueDepth g"
  by (auto simp: set_group_def group_map_def fun_eq_iff split: group.splits)

lemma evict_cases:
  assumes "evictOldestIdle g now gs = (g', ok)"
  obtains (none) "g' = g" "\<not> ok" "\<And>grp k c. grp \<in> set gs \<Longrightarrow> (k, c) \<in> set (group_map g grp) \<Longrightarrow> \<not> client_idle c (heap (r_world g)) now"
  | (evicted) grp k c where "ok" "grp \<in> set gs" "(k, c) \<in> set (group_map g grp)" "client_idle c (heap (r_world g)) now"
      "\<And>grp' k' c'. grp' \<in> set gs \<Longrightarrow> (k', c') \<in> set (group_map g grp') \<Longrightarrow> client_idle c' (heap (r_world g)) now \<Longrightarrow>
         c_lastUsed c \<le> c_lastUsed c'"
      "g' = (set_group g grp (AList.delete k (group_map g grp)))\<lparr>r_world := snd (clear c (r_world g))\<rparr>"
proof (cases "oldest_idle now (heap (r_world g)) None (candidates g gs)")
  case None
  have idle: "\<forall>(g', k', c') \<in> set (candidates g gs). \<not> client_idle c' (heap (r_world g)) now"
    using None oldest_idle_spec [of now "heap (r_world g)" "candidates g gs"] by blast
  show ?thesis
  proof (rule none)
    show "\<not> client_idle c (heap (r_world g)) now" if "grp \<in> set gs" "(k, c) \<in> set (group_map g grp)" for grp k c
      using idle that set_candidates [of grp k c g gs] by blast
  qed (use assms None in \<open>auto simp: evictOldestIdle_def\<close>)
next
  case (Some x)
  obtain grp k c where x: "x = (grp, k, c)" by (rule prod_cases3)
  have sp: "(grp, k, c) \<in> set (candidates g gs)" "client_idle c (heap (r_world g)) now"
    "\<forall>(g', k', c') \<in> set (candidates g gs). client_idle c' (heap (r_world g)) now \<longrightarrow> c_lastUsed c \<le> c_lastUsed c'"
    using Some x oldest_idle_spec [of now "heap (r_world g)" "candidates g gs" grp k c] by auto
  show ?thesis
  proof (rule evicted)
    show "grp \<in> set gs" "(k, c) \<in> set (group_map g grp)" using sp(1) by (simp_all add: set_candidates)
    show "c_lastUsed c \<le> c_lastUsed c'"
      if "grp' \<in> set gs" "(k', c') \<in> set (group_map g grp')" "client_idle c' (heap (r_world g)) now" for grp' k' c'
      using sp(3) that set_candidates [of grp' k' c' g gs] by blast
  qed (use assms Some x sp(2) in \<open>auto simp: evictOldestIdle_def\<close>)
qed


subsection \<open>Accounting\<close>

lemma map_entries_simps [simp]: "map_entries [] = 0" "map_entries (e # m) = entries (snd e) + map_entries m"
  by (simp_all add: map_entries_def)

lemma map_entries_nonneg: "0 \<le> map_entries m"
  by (induction m) auto

lemma map_entries_le: "(k, c) \<in> set m \<Longrightarrow> entries c \<le> map_entries m"
  by (induction m) (auto simp: add_increasing add_increasing2 map_entries_nonneg)

lemma map_entries_update:
  "keys_distinct m \<Longrightarrow>
   map_entries (AList.update k c m) = map_entries m + entries c - (case map_of m k of None \<Rightarrow> 0 | Some c' \<Rightarrow> entries c')"
  by (induction m) auto

lemma map_entries_delete:
  "keys_distinct m \<Longrightarrow>
   map_entries (AList.delete k m) = map_entries m - (case map_of m k of None \<Rightarrow> 0 | Some c \<Rightarrow> entries c)"
proof (induction m)
  case (Cons e m)
  have "map_of m (fst e) = None" using Cons.prems by (auto simp: map_of_eq_None_iff)
  thus ?case using Cons by (cases e) (auto simp: delete_not_in split: option.split)
qed (simp add: map_entries_def)

lemma in_update: "e \<in> set (AList.update k c m) \<Longrightarrow> e = (k, c) \<or> e \<in> set m"
  by (induction m) (auto split: if_splits)

lemma in_delete: "e \<in> set (AList.delete k m) \<Longrightarrow> e \<in> set m"
  by (simp add: AList.delete_eq)

lemma map_wf_update: "map_wf m hp \<Longrightarrow> client_wf c hp \<Longrightarrow> map_wf (AList.update k c m) hp"
  by (auto simp: map_wf_def list_all_iff dest: in_update)

lemma map_wf_delete: "map_wf m hp \<Longrightarrow> map_wf (AList.delete k m) hp"
  by (auto simp: map_wf_def list_all_iff dest: in_delete)

lemma map_wf_lookup: "map_wf m hp \<Longrightarrow> (k, c) \<in> set m \<Longrightarrow> map_of m k = Some c \<and> client_wf c hp"
  by (auto simp: map_wf_def list_all_iff)

lemma clear_world:
  assumes "client_wf c (heap w)" "budget_wf (slots w)" "entries c \<le> sint (used (slots w))"
  shows "budget_wf (slots (snd (clear c w)))" "heap (snd (clear c w)) = heap w"
    "sint (used (slots (snd (clear c w)))) = sint (used (slots w)) - entries c"
    "limit (slots (snd (clear c w))) = limit (slots w)"
proof -
  obtain c' w' where cl: "clear c w = (c', w')" by (rule prod.exhaust)
  show "heap (snd (clear c w)) = heap w" by (simp add: clear_def)
  show "budget_wf (slots (snd (clear c w)))" "limit (slots (snd (clear c w))) = limit (slots w)"
    "sint (used (slots (snd (clear c w)))) = sint (used (slots w)) - entries c"
    using clear_accounts [OF assms cl] cl by (auto simp: accounts_def)
qed

lemma registry_wfD:
  assumes "registry_wf g"
  shows "map_wf (group_map g grp) (heap (r_world g))" "budget_wf (slots (r_world g))"
    "(k, c) \<in> set (group_map g grp) \<Longrightarrow> entries c \<le> sint (used (slots (r_world g)))"
    "noAuth g = Some c \<Longrightarrow> entries c \<le> sint (used (slots (r_world g)))"
proof -
  have n: "0 \<le> map_entries (bots g)" "0 \<le> map_entries (bearers g)" "0 \<le> (case noAuth g of None \<Rightarrow> 0 | Some c \<Rightarrow> entries c)"
    by (simp_all add: map_entries_nonneg split: option.split)
  have u: "held_entries g = sint (used (slots (r_world g)))" using assms by (simp add: registry_wf_def)
  show "map_wf (group_map g grp) (heap (r_world g))" "budget_wf (slots (r_world g))"
    using assms by (auto simp: registry_wf_def group_map_def split: group.split)
  show "entries c \<le> sint (used (slots (r_world g)))" if "(k, c) \<in> set (group_map g grp)"
    using that n u map_entries_le [of k c "bots g"] map_entries_le [of k c "bearers g"]
    by (cases grp) (auto simp: held_entries_def group_map_def)
  show "entries c \<le> sint (used (slots (r_world g)))" if "noAuth g = Some c"
    using that n u by (simp add: held_entries_def)
qed

lemma registry_wf_group:
  assumes "registry_wf g" "map_wf m (heap w)" "heap w = heap (r_world g)" "budget_wf (slots w)"
    and "sint (used (slots w)) = sint (used (slots (r_world g))) - map_entries (group_map g grp) + map_entries m"
  shows "registry_wf ((set_group g grp m)\<lparr>r_world := w\<rparr>)"
  using assms
  by (cases grp) (auto simp: registry_wf_def held_entries_def set_group_def group_map_def)

lemma evict_wf:
  assumes "registry_wf g" "evictOldestIdle g now gs = (g', ok)"
  shows "registry_wf g'" "heap (r_world g') = heap (r_world g)" "MaxBearerClients g' = MaxBearerClients g"
    "MaxClientStates g' = MaxClientStates g" "closed g' = closed g" "noAuth g' = noAuth g"
    "globalOverrides g' = globalOverrides g" "MaxQueueDepth g' = MaxQueueDepth g"
    "limit (slots (r_world g')) = limit (slots (r_world g))"
proof -
  have "registry_wf g' \<and> heap (r_world g') = heap (r_world g) \<and> MaxBearerClients g' = MaxBearerClients g \<and>
    MaxClientStates g' = MaxClientStates g \<and> closed g' = closed g \<and> noAuth g' = noAuth g \<and>
    globalOverrides g' = globalOverrides g \<and> MaxQueueDepth g' = MaxQueueDepth g \<and>
    limit (slots (r_world g')) = limit (slots (r_world g))"
    using assms(2)
  proof (cases rule: evict_cases)
    case none thus ?thesis using assms(1) by simp
  next
    case (evicted grp k c)
    note wf = registry_wfD [OF assms(1)]
    note m = map_wf_lookup [OF wf(1) evicted(3)]
    note cw = clear_world [OF conjunct2 [OF m] wf(2) wf(3) [OF evicted(3)]]
    have "map_entries (AList.delete k (group_map g grp)) = map_entries (group_map g grp) - entries c"
      using m wf(1) [of grp] by (simp add: map_entries_delete map_wf_def del: map_of_eq_Some_iff)
    hence "registry_wf g'" unfolding evicted(6)
      using cw wf(1) by (intro registry_wf_group [OF assms(1)]) (simp_all add: map_wf_delete)
    thus ?thesis using cw by (simp add: evicted(6))
  qed
  thus "registry_wf g'" "heap (r_world g') = heap (r_world g)" "MaxBearerClients g' = MaxBearerClients g"
    "MaxClientStates g' = MaxClientStates g" "closed g' = closed g" "noAuth g' = noAuth g"
    "globalOverrides g' = globalOverrides g" "MaxQueueDepth g' = MaxQueueDepth g"
    "limit (slots (r_world g')) = limit (slots (r_world g))" by auto
qed

lemma evict_lengths:
  assumes "registry_wf g" "evictOldestIdle g now gs = (g', True)"
  shows "int (length (bots g')) + int (length (bearers g')) = int (length (bots g)) + int (length (bearers g)) - 1"
    "length (bearers g') \<le> length (bearers g)"
    "gs = [Bearers] \<Longrightarrow> int (length (bearers g')) = int (length (bearers g)) - 1 \<and> bots g' = bots g"
proof -
  have "int (length (bots g')) + int (length (bearers g')) = int (length (bots g)) + int (length (bearers g)) - 1 \<and>
    length (bearers g') \<le> length (bearers g) \<and>
    (gs = [Bearers] \<longrightarrow> int (length (bearers g')) = int (length (bearers g)) - 1 \<and> bots g' = bots g)"
    using assms(2)
  proof (cases rule: evict_cases)
    case (evicted grp k c)
    note wf = registry_wfD(1) [OF assms(1), of grp]
    have "int (length (AList.delete k (group_map g grp))) = int (length (group_map g grp)) - 1"
      using wf map_wf_lookup [OF wf evicted(3)]
      by (intro length_delete_present) (auto simp: map_wf_def simp del: map_of_eq_Some_iff)
    thus ?thesis using evicted(2) by (cases grp) (auto simp: evicted(6) group_map_def set_group_def)
  qed simp
  thus "int (length (bots g')) + int (length (bearers g')) = int (length (bots g)) + int (length (bearers g)) - 1"
    "length (bearers g') \<le> length (bearers g)"
    "gs = [Bearers] \<Longrightarrow> int (length (bearers g')) = int (length (bearers g)) - 1 \<and> bots g' = bots g" by auto
qed


subsection \<open>Looking up a client\<close>

definition evict_if :: "bool \<Rightarrow> registry \<Rightarrow> time \<Rightarrow> group list \<Rightarrow> registry \<times> bool" where
  "evict_if b g now gs = (if b then evictOldestIdle g now gs else (g, True))"

lemma begin_keeps [simp]:
  "buckets (client_begin c now) = buckets c" "aliases (client_begin c now) = aliases c"
  "entries (client_begin c now) = entries c" "client_wf (client_begin c now) hp = client_wf c hp"
  "c_active (client_begin c now) = c_active c + 1" "c_lastUsed (client_begin c now) = now"
  by (simp_all add: client_begin_def client_touch_def entries_def client_wf_def)

lemma new_empty [simp]:
  "entries (newClientState i l mw now) = 0" "client_wf (newClientState i l mw now) hp"
  by (simp_all add: newClientState_def client_touch_def entries_def client_wf_def)

definition group_of :: "identity \<Rightarrow> group" where
  "group_of i = (if kind i = authBearer then Bearers else Bots)"

definition ref_of :: "identity \<Rightarrow> client_ref" where
  "ref_of i = (if kind i = authBearer then BearerRef (key i) else BotRef (key i))"

lemma client_cases:
  assumes "client g i t = (g', r)"
  obtains (closed) "g' = g" "r = Inl ErrProxyClosed" "closed g \<or> kind i = authNone \<and> noAuth g = None"
  | (unauthenticated) c where "\<not> closed g" "kind i = authNone" "noAuth g = Some c"
      "g' = g\<lparr>noAuth := Some (client_begin c (at_begin t))\<rparr>" "r = Inr NoAuthRef"
  | (known) c where "\<not> closed g" "kind i \<noteq> authNone" "map_of (group_map g (group_of i)) (key i) = Some c"
      "g' = set_group g (group_of i) (AList.update (key i) (client_begin c (at_begin t)) (group_map g (group_of i)))"
      "r = Inr (ref_of i)"
  | (refused_bearer) "\<not> closed g" "map_of (group_map g (group_of i)) (key i) = None" "r = Inl ErrTooManyClients"
      "kind i = authBearer" "MaxBearerClients g \<le> int (length (bearers g))"
      "evictOldestIdle g (at_bearer_evict t) [Bearers] = (g', False)"
  | (refused) g1 where "\<not> closed g" "map_of (group_map g (group_of i)) (key i) = None" "r = Inl ErrTooManyClients"
      "kind i \<noteq> authNone"
      "evict_if (kind i = authBearer \<and> MaxBearerClients g \<le> int (length (bearers g))) g (at_bearer_evict t) [Bearers] = (g1, True)"
      "MaxClientStates g1 \<le> int (length (bots g1)) + int (length (bearers g1))"
      "evictOldestIdle g1 (at_evict t) [Bots, Bearers] = (g', False)"
  | (admitted) g1 g2 where "\<not> closed g" "map_of (group_map g (group_of i)) (key i) = None" "r = Inr (ref_of i)"
      "kind i \<noteq> authNone"
      "evict_if (kind i = authBearer \<and> MaxBearerClients g \<le> int (length (bearers g))) g (at_bearer_evict t) [Bearers] = (g1, True)"
      "evict_if (MaxClientStates g1 \<le> int (length (bots g1)) + int (length (bearers g1))) g1 (at_evict t) [Bots, Bearers] = (g2, True)"
      "g' = set_group g2 (group_of i) (AList.update (key i)
         (client_begin (newClientState i (globalLimit (globalOverrides g2) i) (MaxQueueDepth g2) (at_new t)) (at_begin t))
         (group_map g2 (group_of i)))"
proof (cases "closed g \<or> kind i = authNone")
  case True
  thus ?thesis using assms that(1,2) by (auto simp: client_def split: if_splits option.splits)
next
  case up: False
  show ?thesis
  proof (cases "map_of (group_map g (group_of i)) (key i)")
    case (Some c)
    thus ?thesis using assms that(3) [of c] up
      by (auto simp: client_def group_of_def ref_of_def Let_def split: if_splits)
  next
    case None
    obtain g1 o1 where e1: "evict_if (kind i = authBearer \<and> MaxBearerClients g \<le> int (length (bearers g))) g
        (at_bearer_evict t) [Bearers] = (g1, o1)" by (rule prod.exhaust)
    obtain g2 o2 where e2: "evict_if (MaxClientStates g1 \<le> int (length (bots g1)) + int (length (bearers g1))) g1
        (at_evict t) [Bots, Bearers] = (g2, o2)" by (rule prod.exhaust)
    have eq: "client g i t = (if \<not> o1 then (g1, Inl ErrTooManyClients) else if \<not> o2 then (g2, Inl ErrTooManyClients)
      else (set_group g2 (group_of i) (AList.update (key i)
         (client_begin (newClientState i (globalLimit (globalOverrides g2) i) (MaxQueueDepth g2) (at_new t)) (at_begin t))
         (group_map g2 (group_of i))), Inr (ref_of i)))"
      using None e1 e2 up
      by (simp add: client_def evict_if_def group_of_def [symmetric] ref_of_def [symmetric] Let_def)
    consider "\<not> o1" | "o1" "\<not> o2" | "o1" "o2" by blast
    thus ?thesis
    proof cases
      case 1
      thus ?thesis using e1 eq assms None up by (intro that(4)) (auto simp: evict_if_def split: if_splits)
    next
      case 2
      thus ?thesis using e1 e2 eq assms None up
        by (intro that(5) [of g1]) (auto simp: evict_if_def split: if_splits)
    next
      case 3
      thus ?thesis using e1 e2 eq assms None up by (intro that(6) [of g1 g2]) auto
    qed
  qed
qed

lemma evict_if_wf:
  assumes "registry_wf g" "evict_if b g now gs = (g', ok)"
  shows "registry_wf g'" "MaxBearerClients g' = MaxBearerClients g" "MaxClientStates g' = MaxClientStates g"
    "heap (r_world g') = heap (r_world g)" "limit (slots (r_world g')) = limit (slots (r_world g))"
    "closed g' = closed g" "noAuth g' = noAuth g"
  using assms evict_wf [OF assms(1)] by (auto simp: evict_if_def split: if_splits)

lemma registry_wf_update:
  assumes "registry_wf g" "client_wf c (heap (r_world g))"
    and "(case map_of (group_map g grp) k of None \<Rightarrow> 0 | Some c' \<Rightarrow> entries c') = entries c"
  shows "registry_wf (set_group g grp (AList.update k c (group_map g grp)))"
proof -
  note wf = registry_wfD [OF assms(1)]
  have "registry_wf ((set_group g grp (AList.update k c (group_map g grp)))\<lparr>r_world := r_world g\<rparr>)"
    using wf(2) wf(1) [of grp] assms(2,3) map_entries_update [of "group_map g grp" k c]
    by (intro registry_wf_group [OF assms(1)]) (simp_all add: map_wf_update, simp add: map_wf_def)
  thus ?thesis by (simp add: set_group_def split: group.splits)
qed

lemma evict_if_absent:
  assumes "evict_if b g now gs = (g', True)" "map_of (group_map g grp) k = None"
  shows "map_of (group_map g' grp) k = None"
proof (cases b)
  case True
  hence "evictOldestIdle g now gs = (g', True)" using assms(1) by (simp add: evict_if_def)
  thus ?thesis
    by (cases rule: evict_cases) (use assms(2) in \<open>auto simp: AList.delete_conv'\<close>)
qed (use assms in \<open>simp add: evict_if_def\<close>)

lemma client_keeps:
  assumes "registry_wf g" "client g i t = (g', r)"
  shows "registry_wf g'" "MaxBearerClients g' = MaxBearerClients g" "MaxClientStates g' = MaxClientStates g"
    "heap (r_world g') = heap (r_world g)" "limit (slots (r_world g')) = limit (slots (r_world g))"
proof -
  have "registry_wf g' \<and> MaxBearerClients g' = MaxBearerClients g \<and> MaxClientStates g' = MaxClientStates g \<and>
    heap (r_world g') = heap (r_world g) \<and> limit (slots (r_world g')) = limit (slots (r_world g))"
    using assms(2)
  proof (cases rule: client_cases)
    case closed thus ?thesis using assms(1) by simp
  next
    case (unauthenticated c)
    thus ?thesis using assms(1) by (auto simp: registry_wf_def held_entries_def)
  next
    case (known c)
    have "(key i, c) \<in> set (group_map g (group_of i))" using known(3) by (rule map_of_SomeD)
    hence "client_wf c (heap (r_world g))" using map_wf_lookup [OF registry_wfD(1) [OF assms(1)]] by blast
    thus ?thesis using known(3) registry_wf_update [OF assms(1), of _ "group_of i" "key i"] by (simp add: known(4))
  next
    case refused_bearer
    show ?thesis using evict_wf [OF assms(1) refused_bearer(6)] by simp
  next
    case (refused g1)
    note w1 = evict_if_wf [OF assms(1) refused(5)]
    show ?thesis using w1 evict_wf [OF w1(1) refused(7)] by simp
  next
    case (admitted g1 g2)
    note w1 = evict_if_wf [OF assms(1) admitted(5)]
    note w2 = evict_if_wf [OF w1(1) admitted(6)]
    have "map_of (group_map g2 (group_of i)) (key i) = None"
      by (rule evict_if_absent [OF admitted(6) evict_if_absent [OF admitted(5,2)]])
    thus ?thesis using w1 w2 registry_wf_update [OF w2(1), of _ "group_of i" "key i"] by (simp add: admitted(7))
  qed
  thus "registry_wf g'" "MaxBearerClients g' = MaxBearerClients g" "MaxClientStates g' = MaxClientStates g"
    "heap (r_world g') = heap (r_world g)" "limit (slots (r_world g')) = limit (slots (r_world g))" by auto
qed

lemma length_update_le: "length (AList.update k c m) \<le> Suc (length m)"
  by (induction m) auto

lemma length_update_present: "map_of m k = Some c' \<Longrightarrow> length (AList.update k c m) = length m"
  by (induction m) (auto split: if_splits)

lemma client_bounded:
  assumes "registry_wf g" "registry_bounded g" "client g i t = (g', r)"
  shows "registry_bounded g'"
  using assms(3)
proof (cases rule: client_cases)
  case (known c)
  thus ?thesis using assms(2) length_update_present [OF known(3)]
    by (auto simp: registry_bounded_def set_group_def group_map_def split: group.splits)
next
  case refused_bearer
  have "g' = g" using refused_bearer(6) by (cases rule: evict_cases) auto
  thus ?thesis using assms(2) by simp
next
  case (refused g1)
  have "g' = g1" using refused(7) by (cases rule: evict_cases) auto
  thus ?thesis using assms(2) refused(5) evict_lengths(1,2) [OF assms(1), of "at_bearer_evict t" "[Bearers]" g1]
      evict_if_wf(2,3) [OF assms(1) refused(5)] by (auto simp: registry_bounded_def evict_if_def split: if_splits)
next
  case (admitted g1 g2)
  note w1 = evict_if_wf [OF assms(1) admitted(5)]
  note w2 = evict_if_wf [OF w1(1) admitted(6)]
  have b1: "registry_bounded g1" "kind i = authBearer \<Longrightarrow> int (length (bearers g1)) < MaxBearerClients g1"
    using admitted(5) assms(2) evict_lengths [OF assms(1), of "at_bearer_evict t" "[Bearers]" g1] w1(2,3)
    by (auto simp: registry_bounded_def evict_if_def split: if_splits)
  have b2: "int (length (bots g2)) + int (length (bearers g2)) < MaxClientStates g2"
    "int (length (bearers g2)) \<le> int (length (bearers g1))"
    using admitted(6) b1 evict_lengths(1,2) [OF w1(1), of "at_evict t" "[Bots, Bearers]" g2] w2(3)
    by (auto simp: registry_bounded_def evict_if_def split: if_splits)
  show ?thesis unfolding admitted(7)
    using b1 b2 w2(2) length_update_le [of "key i" _ "bearers g2"] length_update_le [of "key i" _ "bots g2"]
    by (auto simp: registry_bounded_def set_group_def group_map_def group_of_def)
      (smt (verit) of_nat_Suc of_nat_mono)+
qed (use assms(2) in \<open>auto simp: registry_bounded_def\<close>)


subsection \<open>Expiring and sweeping\<close>

lemma drop_idle_props:
  assumes "map_wf m (heap w)" "budget_wf (slots w)" "map_entries m \<le> sint (used (slots w))" "drop_idle now m w = (m', w')"
  shows "m' = filter (\<lambda>e. \<not> client_idle (snd e) (heap w) now) m \<and> heap w' = heap w \<and> budget_wf (slots w') \<and>
    limit (slots w') = limit (slots w) \<and>
    sint (used (slots w')) - map_entries m' = sint (used (slots w)) - map_entries m"
  using assms
proof (induction now m w arbitrary: m' w' rule: drop_idle.induct)
  case (2 now k c rest w)
  have wf: "client_wf c (heap w)" "map_wf rest (heap w)" using "2.prems"(1) by (auto simp: map_wf_def)
  have le: "entries c \<le> sint (used (slots w))" "map_entries rest \<le> sint (used (slots w)) - entries c"
    using "2.prems"(3) map_entries_nonneg [of rest] by (simp_all add: map_entries_simps)
  note cw = clear_world [OF wf(1) "2.prems"(2) le(1)]
  show ?case
  proof (cases "client_idle c (heap w) now")
    case True
    have "drop_idle now rest (snd (clear c w)) = (m', w')" using True "2.prems"(4) by simp
    thus ?thesis using "2.IH"(1) [OF True, of m' w'] cw wf le True by (auto simp: map_entries_simps)
  next
    case False
    obtain m1 where "drop_idle now rest w = (m1, w')" "m' = (k, c) # m1"
      using False "2.prems"(4) by (auto split: prod.splits)
    moreover have "map_entries rest \<le> sint (used (slots w))" using le(2) entries_nonneg [of c] by linarith
    ultimately show ?thesis using "2.IH"(2) [OF False, of m1 w'] "2.prems"(2) wf False by (auto simp: map_entries_simps)
  qed
qed (simp add: map_entries_simps)

lemma registry_wf_maps:
  assumes "registry_wf g"
  shows "map_entries (bots g) + map_entries (bearers g) \<le> sint (used (slots (r_world g)))"
proof -
  have "0 \<le> (case noAuth g of None \<Rightarrow> 0 | Some c \<Rightarrow> entries c)" by (simp split: option.split)
  thus ?thesis using assms by (simp add: registry_wf_def held_entries_def)
qed

lemma expire_cases:
  assumes "registry_wf g"
  obtains w where "expire_clients g now = g\<lparr>bots := filter (\<lambda>e. \<not> client_idle (snd e) (heap (r_world g)) now) (bots g),
      bearers := filter (\<lambda>e. \<not> client_idle (snd e) (heap (r_world g)) now) (bearers g), r_world := w\<rparr>"
    "heap w = heap (r_world g)" "limit (slots w) = limit (slots (r_world g))" "registry_wf (expire_clients g now)"
proof -
  obtain bs w1 where d1: "drop_idle now (bots g) (r_world g) = (bs, w1)" by (rule prod.exhaust)
  obtain rs w2 where d2: "drop_idle now (bearers g) w1 = (rs, w2)" by (rule prod.exhaust)
  note sum = registry_wf_maps [OF assms]
  have wf: "map_wf (bots g) (heap (r_world g))" "map_wf (bearers g) (heap (r_world g))" "budget_wf (slots (r_world g))"
    using assms by (auto simp: registry_wf_def)
  have p1: "bs = filter (\<lambda>e. \<not> client_idle (snd e) (heap (r_world g)) now) (bots g) \<and> heap w1 = heap (r_world g) \<and>
    budget_wf (slots w1) \<and> limit (slots w1) = limit (slots (r_world g)) \<and>
    sint (used (slots w1)) - map_entries bs = sint (used (slots (r_world g))) - map_entries (bots g)"
    using drop_idle_props [OF wf(1,3) _ d1] sum map_entries_nonneg [of "bearers g"] by auto
  have p2: "rs = filter (\<lambda>e. \<not> client_idle (snd e) (heap (r_world g)) now) (bearers g) \<and> heap w2 = heap (r_world g) \<and>
    budget_wf (slots w2) \<and> limit (slots w2) = limit (slots (r_world g)) \<and>
    sint (used (slots w2)) - map_entries rs = sint (used (slots w1)) - map_entries (bearers g)"
    using drop_idle_props [OF _ _ _ d2] p1 wf sum map_entries_nonneg [of bs] by auto
  have e: "expire_clients g now = g\<lparr>bots := bs, bearers := rs, r_world := w2\<rparr>"
    by (simp add: expire_clients_def d1 d2)
  have filt: "map_wf (filter P m) hp" if "map_wf m hp" for P m hp
    using that by (auto simp: map_wf_def list_all_iff keys_distinct_filter)
  have "registry_wf (expire_clients g now)"
    using assms p1 p2 filt wf unfolding e by (auto simp: registry_wf_def held_entries_def)
  thus ?thesis using that [of w2] e p1 p2 by simp
qed

lemma sweep_world:
  assumes "client_wf c (heap w)" "budget_wf (slots w)" "entries c \<le> sint (used (slots w))" "sweep c w now = (c', w')"
  shows "heap w' = heap w" "budget_wf (slots w')" "limit (slots w') = limit (slots w)" "client_wf c' (heap w)"
    "sint (used (slots w')) - entries c' = sint (used (slots w)) - entries c"
proof -
  show "heap w' = heap w" using assms(4) by (auto simp: sweep_def Let_def)
  thus "budget_wf (slots w')" "limit (slots w') = limit (slots w)" "client_wf c' (heap w)"
    "sint (used (slots w')) - entries c' = sint (used (slots w)) - entries c"
    using sweep_accounts [OF assms] by (auto simp: accounts_def)
qed

lemma sweep_same_heap: "heap w = heap w' \<Longrightarrow> fst (sweep c w now) = fst (sweep c w' now)"
  by (simp add: sweep_def Let_def)

lemma sweep_all_props:
  assumes "map_wf m (heap w)" "budget_wf (slots w)" "map_entries m \<le> sint (used (slots w))" "sweep_all now m w = (m', w')"
  shows "m' = map (\<lambda>e. (fst e, fst (sweep (snd e) w now))) m \<and> list_all (\<lambda>e. client_wf (snd e) (heap w)) m' \<and>
    heap w' = heap w \<and> budget_wf (slots w') \<and> limit (slots w') = limit (slots w) \<and>
    sint (used (slots w')) - map_entries m' = sint (used (slots w)) - map_entries m"
  using assms
proof (induction now m w arbitrary: m' w' rule: sweep_all.induct)
  case (2 now k c rest w)
  obtain c1 w1 where s1: "sweep c w now = (c1, w1)" by (rule prod.exhaust)
  obtain m1 w2 where s2: "sweep_all now rest w1 = (m1, w2)" by (rule prod.exhaust)
  have wf: "client_wf c (heap w)" "map_wf rest (heap w)"
    using "2.prems"(1) by (auto simp: map_wf_def)
  have le: "entries c \<le> sint (used (slots w))" "map_entries rest \<le> sint (used (slots w)) - entries c"
    using "2.prems"(3) map_entries_nonneg [of rest] by (simp_all add: map_entries_simps)
  note sw = sweep_world [OF wf(1) "2.prems"(2) le(1) s1]
  have le1: "map_entries rest \<le> sint (used (slots w1))" using le(2) sw(5) entries_nonneg [of c1] by linarith
  have ih: "m1 = map (\<lambda>e. (fst e, fst (sweep (snd e) w1 now))) rest \<and> list_all (\<lambda>e. client_wf (snd e) (heap w)) m1 \<and>
    heap w2 = heap w \<and> budget_wf (slots w2) \<and> limit (slots w2) = limit (slots w1) \<and>
    sint (used (slots w2)) - map_entries m1 = sint (used (slots w1)) - map_entries rest"
    using "2.IH" [OF s1 [symmetric], of m1 w2] wf(2) sw(1,2) le1 s2 by auto
  have m: "m' = (k, c1) # m1" "w' = w2" using "2.prems"(4) s1 s2 by auto
  have "m' = map (\<lambda>e. (fst e, fst (sweep (snd e) w now))) ((k, c) # rest)"
    using ih m(1) s1 sweep_same_heap [OF sw(1)] by simp
  thus ?case using ih sw m by (auto simp: map_entries_simps)
qed (simp add: map_entries_simps)

lemma sweep_group_props:
  assumes "registry_wf g"
  shows "registry_wf (sweep_group g grp now)" "heap (r_world (sweep_group g grp now)) = heap (r_world g)"
    "limit (slots (r_world (sweep_group g grp now))) = limit (slots (r_world g))"
    "group_map (sweep_group g grp now) grp' =
       (if grp' = grp then map (\<lambda>e. (fst e, fst (sweep (snd e) (r_world g) now))) (group_map g grp) else group_map g grp')"
    "noAuth (sweep_group g grp now) = noAuth g" "closed (sweep_group g grp now) = closed g"
    "MaxBearerClients (sweep_group g grp now) = MaxBearerClients g" "MaxClientStates (sweep_group g grp now) = MaxClientStates g"
proof -
  obtain m w where s: "sweep_all now (group_map g grp) (r_world g) = (m, w)" by (rule prod.exhaust)
  note wf = registry_wfD(1,2) [OF assms]
  have e: "map_entries (group_map g grp) \<le> sint (used (slots (r_world g)))"
    using registry_wf_maps [OF assms] map_entries_nonneg [of "bots g"] map_entries_nonneg [of "bearers g"]
    by (cases grp) (simp_all add: group_map_def)
  note p = sweep_all_props [OF wf(1) wf(2) e s]
  have g': "sweep_group g grp now = (set_group g grp m)\<lparr>r_world := w\<rparr>" by (simp add: sweep_group_def s)
  have "map fst m = map fst (group_map g grp)" by (simp add: conjunct1 [OF p] comp_def)
  hence "map_wf m (heap w)" using conjunct2 [OF p] wf(1) [of grp] by (simp add: map_wf_def)
  thus "registry_wf (sweep_group g grp now)" unfolding g'
    using p by (intro registry_wf_group [OF assms]) auto
  show "heap (r_world (sweep_group g grp now)) = heap (r_world g)"
    "limit (slots (r_world (sweep_group g grp now))) = limit (slots (r_world g))"
    "group_map (sweep_group g grp now) grp' =
       (if grp' = grp then map (\<lambda>e. (fst e, fst (sweep (snd e) (r_world g) now))) (group_map g grp) else group_map g grp')"
    "noAuth (sweep_group g grp now) = noAuth g" "closed (sweep_group g grp now) = closed g"
    "MaxBearerClients (sweep_group g grp now) = MaxBearerClients g" "MaxClientStates (sweep_group g grp now) = MaxClientStates g"
    using p by (simp_all add: g')
qed

lemma sweep_noAuth_props:
  assumes "registry_wf g"
  shows "registry_wf (sweep_noAuth g now)" "heap (r_world (sweep_noAuth g now)) = heap (r_world g)"
    "limit (slots (r_world (sweep_noAuth g now))) = limit (slots (r_world g))"
    "group_map (sweep_noAuth g now) = group_map g" "closed (sweep_noAuth g now) = closed g"
    "MaxBearerClients (sweep_noAuth g now) = MaxBearerClients g" "MaxClientStates (sweep_noAuth g now) = MaxClientStates g"
proof -
  show "group_map (sweep_noAuth g now) = group_map g" "closed (sweep_noAuth g now) = closed g"
    "MaxBearerClients (sweep_noAuth g now) = MaxBearerClients g" "MaxClientStates (sweep_noAuth g now) = MaxClientStates g"
    by (auto simp: sweep_noAuth_def group_map_def fun_eq_iff split: option.split prod.split group.split)
  have "registry_wf (sweep_noAuth g now) \<and> heap (r_world (sweep_noAuth g now)) = heap (r_world g) \<and>
    limit (slots (r_world (sweep_noAuth g now))) = limit (slots (r_world g))"
  proof (cases "noAuth g")
    case (Some c)
    have wf: "client_wf c (heap (r_world g))" "budget_wf (slots (r_world g))"
      using assms Some by (auto simp: registry_wf_def)
    obtain c' w' where s: "sweep c (r_world g) now = (c', w')" by (rule prod.exhaust)
    note sw = sweep_world [OF wf registry_wfD(4) [OF assms Some] s]
    show ?thesis using sw assms Some by (auto simp: sweep_noAuth_def s registry_wf_def held_entries_def)
  qed (use assms in \<open>simp add: sweep_noAuth_def\<close>)
  thus "registry_wf (sweep_noAuth g now)" "heap (r_world (sweep_noAuth g now)) = heap (r_world g)"
    "limit (slots (r_world (sweep_noAuth g now))) = limit (slots (r_world g))" by auto
qed

lemma sweepClients_props:
  assumes "registry_wf g"
  shows "registry_wf (sweepClients g now)"
    "group_map (sweepClients g now) grp = map (\<lambda>e. (fst e, fst (sweep (snd e) (r_world g) now)))
       (filter (\<lambda>e. \<not> client_idle (snd e) (heap (r_world g)) now) (group_map g grp))"
proof -
  obtain w where e: "expire_clients g now = g\<lparr>bots := filter (\<lambda>e. \<not> client_idle (snd e) (heap (r_world g)) now) (bots g),
      bearers := filter (\<lambda>e. \<not> client_idle (snd e) (heap (r_world g)) now) (bearers g), r_world := w\<rparr>"
    "heap w = heap (r_world g)" "registry_wf (expire_clients g now)"
    by (rule expire_cases [OF assms])
  note n = sweep_noAuth_props [OF e(3), of now]
  note b = sweep_group_props [OF n(1), of Bots now]
  note r = sweep_group_props [OF b(1), of Bearers now]
  show "registry_wf (sweepClients g now)" using r(1) by (simp add: sweepClients_def)
  have "fst (sweep c w' now) = fst (sweep c (r_world g) now)"
    if "w' = r_world (sweep_noAuth (expire_clients g now) now) \<or>
        w' = r_world (sweep_group (sweep_noAuth (expire_clients g now) now) Bots now)" for c w'
    using that b(2) n(2) e(1,2) by (intro sweep_same_heap) auto
  moreover have "group_map (expire_clients g now) grp =
      filter (\<lambda>e. \<not> client_idle (snd e) (heap (r_world g)) now) (group_map g grp)"
    by (cases grp) (simp_all add: e(1) group_map_def)
  ultimately show "group_map (sweepClients g now) grp = map (\<lambda>e. (fst e, fst (sweep (snd e) (r_world g) now)))
       (filter (\<lambda>e. \<not> client_idle (snd e) (heap (r_world g)) now) (group_map g grp))"
    by (cases grp) (simp_all add: sweepClients_def r(4) b(4) n(4))
qed


subsection \<open>Runs of the registry\<close>

inductive client_section :: "clientState \<Rightarrow> world \<Rightarrow> clientState \<Rightarrow> world \<Rightarrow> bool" where
  \<comment> \<open>one critical section of a request, or of the sweeper, on a client\<close>
  find: "bucket_or_new c w h now = (c', w', r) \<Longrightarrow> client_section c w c' w'"
| learn: "\<lbrakk>current < length (heap w); learnBucket c w h b m current = (c', w', t)\<rbrakk> \<Longrightarrow> client_section c w c' w'"
| sweep: "sweep c w now = (c', w') \<Longrightarrow> client_section c w c' w'"
| other: "\<lbrakk>buckets c' = buckets c; aliases c' = aliases c\<rbrakk> \<Longrightarrow> client_section c w c' w"

inductive reg_step :: "registry \<Rightarrow> registry \<Rightarrow> bool" where
  client: "client g i t = (g', r) \<Longrightarrow> reg_step g g'"
| expire: "reg_step g (expire_clients g now)"
| on_client: "\<lbrakk>map_of (group_map g grp) k = Some c; client_section c (r_world g) c' w'\<rbrakk> \<Longrightarrow>
    reg_step g ((set_group g grp (AList.update k c' (group_map g grp)))\<lparr>r_world := w'\<rparr>)"
| on_noAuth: "\<lbrakk>noAuth g = Some c; client_section c (r_world g) c' w'\<rbrakk> \<Longrightarrow>
    reg_step g (g\<lparr>noAuth := Some c', r_world := w'\<rparr>)"
| on_bucket: "reg_step g (g\<lparr>r_world := (r_world g)\<lparr>heap := (heap (r_world g))[r := b]\<rparr>\<rparr>)"

inductive reg_reachable :: "registry \<Rightarrow> registry \<Rightarrow> bool" for g0 where
  start: "reg_reachable g0 g0"
| step: "reg_reachable g0 g \<Longrightarrow> reg_step g g' \<Longrightarrow> reg_reachable g0 g'"

definition newRegistry :: "int \<Rightarrow> int \<Rightarrow> int \<Rightarrow> (string, nat) gomap \<Rightarrow> int \<Rightarrow> time \<Rightarrow> registry" where
  \<comment> \<open>the registry that \<^verbatim>\<open>New\<close> builds\<close>
  "newRegistry maxBearers maxStates maxQueue overrides maxEntries now =
     \<lparr>bots = [], bearers = [], noAuth = Some (newClientState no_auth discordGlobalLimit maxQueue now), closed = False,
      r_world = \<lparr>heap = [], slots = newResourceBudget (word_of_int maxEntries)\<rparr>,
      MaxBearerClients = maxBearers, MaxClientStates = maxStates, MaxQueueDepth = maxQueue, globalOverrides = overrides\<rparr>"

definition registry_inv :: "registry \<Rightarrow> registry \<Rightarrow> bool" where
  "registry_inv g0 g \<longleftrightarrow> registry_wf g \<and> registry_bounded g \<and> MaxBearerClients g = MaxBearerClients g0 \<and>
     MaxClientStates g = MaxClientStates g0 \<and> limit (slots (r_world g)) = limit (slots (r_world g0))"

lemma client_section_accounts:
  assumes "client_section c w c' w'" "client_wf c (heap w)" "budget_wf (slots w)" "entries c \<le> sint (used (slots w))"
  shows "accounts c w c' w' \<and> length (heap w) \<le> length (heap w')"
  using assms
proof (induction rule: client_section.induct)
  case find thus ?case using bucket_or_new_accounts sections_heap(1) by blast
next
  case learn thus ?case using learnBucket_accounts sections_heap(2) by blast
next
  case sweep thus ?case using sweep_accounts sections_heap(3) by blast
next
  case other thus ?case by (simp add: accounts_def entries_def client_wf_def)
qed

lemma map_wf_heap: "map_wf m hp \<Longrightarrow> length hp \<le> length hp' \<Longrightarrow> map_wf m hp'"
  using client_wf_heap by (auto simp: map_wf_def list_all_iff)

lemma on_client_wf:
  assumes "registry_wf g" "map_of (group_map g grp) k = Some c" "client_section c (r_world g) c' w'"
  shows "registry_wf ((set_group g grp (AList.update k c' (group_map g grp)))\<lparr>r_world := w'\<rparr>)"
    and "limit (slots w') = limit (slots (r_world g))"
proof -
  note wf = registry_wfD [OF assms(1)]
  have c: "(k, c) \<in> set (group_map g grp)" using assms(2) by (rule map_of_SomeD)
  have a: "accounts c (r_world g) c' w'" "length (heap (r_world g)) \<le> length (heap w')"
    using client_section_accounts [OF assms(3)] map_wf_lookup [OF wf(1) c] wf(2) wf(3) [OF c] by auto
  show "limit (slots w') = limit (slots (r_world g))" using a by (simp add: accounts_def)
  have m: "map_wf (group_map g grp') (heap w')" for grp' by (rule map_wf_heap [OF wf(1) a(2)])
  have u: "map_wf (AList.update k c' (group_map g grp)) (heap w')"
    using m a(1) by (intro map_wf_update) (auto simp: accounts_def)
  have s: "map_entries (AList.update k c' (group_map g grp)) = map_entries (group_map g grp) - entries c + entries c'"
    using m [of grp] assms(2) map_entries_update [of "group_map g grp" k c'] by (simp add: map_wf_def)
  have "client_wf n (heap w')" if "noAuth g = Some n" for n
    using assms(1) that client_wf_heap [OF _ a(2)] by (auto simp: registry_wf_def)
  thus "registry_wf ((set_group g grp (AList.update k c' (group_map g grp)))\<lparr>r_world := w'\<rparr>)"
    using assms(1) a(1) m [of Bots] m [of Bearers] u s
    by (cases grp) (auto simp: registry_wf_def held_entries_def set_group_def group_map_def accounts_def)
qed

lemma on_noAuth_wf:
  assumes "registry_wf g" "noAuth g = Some c" "client_section c (r_world g) c' w'"
  shows "registry_wf (g\<lparr>noAuth := Some c', r_world := w'\<rparr>)" and "limit (slots w') = limit (slots (r_world g))"
proof -
  note wf = registry_wfD [OF assms(1)]
  have a: "accounts c (r_world g) c' w'" "length (heap (r_world g)) \<le> length (heap w')"
    using client_section_accounts [OF assms(3)] wf(2) wf(4) [OF assms(2)] assms(1,2) by (auto simp: registry_wf_def)
  show "limit (slots w') = limit (slots (r_world g))" using a by (simp add: accounts_def)
  have "map_wf (bots g) (heap w')" "map_wf (bearers g) (heap w')"
    using map_wf_heap [OF wf(1) a(2), of Bots] map_wf_heap [OF wf(1) a(2), of Bearers] by (simp_all add: group_map_def)
  thus "registry_wf (g\<lparr>noAuth := Some c', r_world := w'\<rparr>)"
    using assms(1,2) a(1) by (auto simp: registry_wf_def held_entries_def accounts_def)
qed

lemma reg_step_inv: "reg_step g g' \<Longrightarrow> registry_inv g0 g \<Longrightarrow> registry_inv g0 g'"
proof (induction rule: reg_step.induct)
  case (client g i t g' r)
  thus ?case using client_keeps [of g i t g' r] client_bounded [of g i t g' r] by (auto simp: registry_inv_def)
next
  case (expire g now)
  hence "registry_wf g" by (simp add: registry_inv_def)
  then obtain w where e: "expire_clients g now = g\<lparr>bots := filter (\<lambda>e. \<not> client_idle (snd e) (heap (r_world g)) now) (bots g),
      bearers := filter (\<lambda>e. \<not> client_idle (snd e) (heap (r_world g)) now) (bearers g), r_world := w\<rparr>"
    "limit (slots w) = limit (slots (r_world g))" "registry_wf (expire_clients g now)"
    by (rule expire_cases)
  define bs rs where d: "bs = filter (\<lambda>e. \<not> client_idle (snd e) (heap (r_world g)) now) (bots g)"
    "rs = filter (\<lambda>e. \<not> client_idle (snd e) (heap (r_world g)) now) (bearers g)"
  have "length bs \<le> length (bots g)" "length rs \<le> length (bearers g)" by (simp_all add: d)
  thus ?case using expire e(3) unfolding registry_inv_def registry_bounded_def e(1) d [symmetric]
    using e(2) by simp
next
  case (on_client g grp k c c' w')
  hence wf: "registry_wf g" by (simp add: registry_inv_def)
  show ?case using on_client on_client_wf [OF wf on_client.hyps] length_update_present [OF on_client.hyps(1)]
    by (cases grp) (auto simp: registry_inv_def registry_bounded_def set_group_def group_map_def)
next
  case (on_noAuth g c c' w')
  hence wf: "registry_wf g" by (simp add: registry_inv_def)
  show ?case using on_noAuth on_noAuth_wf [OF wf on_noAuth.hyps] by (auto simp: registry_inv_def registry_bounded_def)
next
  case (on_bucket g r b)
  thus ?case
    by (auto simp: registry_inv_def registry_bounded_def registry_wf_def held_entries_def map_wf_def client_wf_def)
qed

lemma registry_inv_new:
  assumes "0 \<le> maxBearers" "0 \<le> maxStates" "0 \<le> maxEntries" "maxEntries < 2 ^ 63"
  shows "registry_inv (newRegistry maxBearers maxStates maxQueue overrides maxEntries now)
    (newRegistry maxBearers maxStates maxQueue overrides maxEntries now)"
  using assms
  by (simp add: registry_inv_def registry_wf_def registry_bounded_def newRegistry_def held_entries_def map_wf_def
      map_entries_def newResourceBudget_def budget_wf_def sint_word_of_int_exact)

lemma reg_reachable_inv: "reg_reachable g0 g \<Longrightarrow> registry_inv g0 g0 \<Longrightarrow> registry_inv g0 g"
  by (induction rule: reg_reachable.induct) (auto intro: reg_step_inv)


subsection \<open>Properties\<close>

lemma evict_refused:
  "evictOldestIdle g now gs = (g', False) \<Longrightarrow>
   g' = g \<and> (\<forall>grp \<in> set gs. \<forall>x \<in> set (group_map g grp). \<not> client_idle (snd x) (heap (r_world g)) now)"
  by (erule evict_cases) auto

lemma evict_keeps_active:
  assumes "registry_wf g" "map_of (group_map g grp) k = Some c" "c_active c \<noteq> 0" "evict_if b g now gs = (g', ok)"
  shows "map_of (group_map g' grp) k = Some c"
proof (cases b)
  case True
  hence "evictOldestIdle g now gs = (g', ok)" using assms(4) by (simp add: evict_if_def)
  thus ?thesis
  proof (cases rule: evict_cases)
    case (evicted grp1 k1 c1)
    have "map_of (group_map g grp1) k1 = Some c1" using map_wf_lookup [OF registry_wfD(1) [OF assms(1)] evicted(3)] by simp
    moreover have "c_active c1 = 0" using evicted(4) by (simp add: client_idle_def)
    ultimately have "\<not> (grp1 = grp \<and> k1 = k)" using assms(2,3) by auto
    thus ?thesis using assms(2) by (auto simp: evicted(6) AList.delete_conv' simp del: map_of_eq_Some_iff)
  qed (use assms(2) in simp)
qed (use assms(2,4) in \<open>simp add: evict_if_def\<close>)

lemma client_keeps_active:
  assumes "registry_wf g" "map_of (group_map g grp) k = Some c" "c_active c \<noteq> 0" "client g i t = (g', r)"
  shows "map_of (group_map g' grp) k =
    Some (if \<not> closed g \<and> kind i \<noteq> authNone \<and> grp = group_of i \<and> k = key i then client_begin c (at_begin t) else c)"
  using assms(4)
proof (cases rule: client_cases)
  case unauthenticated
  thus ?thesis using assms(2) by (cases grp) (simp_all add: group_map_def)
next
  case (known c')
  thus ?thesis using assms(2) by (auto simp: update_conv' simp del: map_of_eq_Some_iff)
next
  case refused_bearer
  thus ?thesis using assms(2) evict_refused [OF refused_bearer(6)] by auto
next
  case (refused g1)
  thus ?thesis using assms(2) evict_keeps_active [OF assms(1-3) refused(5)] evict_refused [OF refused(7)] by auto
next
  case (admitted g1 g2)
  have "map_of (group_map g2 grp) k = Some c"
    by (rule evict_keeps_active [OF evict_if_wf(1) [OF assms(1) admitted(5)]
          evict_keeps_active [OF assms(1-3) admitted(5)] assms(3) admitted(6)])
  thus ?thesis using admitted(1,2) assms(2)
    by (auto simp: admitted(7) update_conv' simp del: map_of_eq_Some_iff)
qed (use assms(2) in auto)

lemma map_of_mapped: "map_of (map (\<lambda>e. (fst e, f (snd e))) m) k = map_option f (map_of m k)"
  by (induction m) auto

lemma map_of_filter_kept:
  "keys_distinct m \<Longrightarrow> map_of m k = Some c \<Longrightarrow> P (k, c) \<Longrightarrow> map_of (filter P m) k = Some c"
  by (simp add: map_of_eq_Some_iff)

text \<open>
  However requests of any identities, evictions, expiries, sweeps and bucket operations interleave, the registry
  never holds more than \<open>MaxBearerClients\<close> bearer clients, nor more than \<open>MaxClientStates\<close> clients in all, and the
  buckets and aliases of all clients together are exactly what is reserved of \<open>MaxBucketStates\<close>: dropping a client gives
  back all it held, and nothing is given back twice.
\<close>

theorem registry_capped:
  assumes "reg_reachable (newRegistry maxBearers maxStates maxQueue overrides maxEntries now) g"
    and "0 \<le> maxBearers" "0 \<le> maxStates" "0 \<le> maxEntries" "maxEntries < 2 ^ 63"
  shows "int (length (bearers g)) \<le> maxBearers \<and> int (length (bots g)) + int (length (bearers g)) \<le> maxStates \<and>
    held_entries g = sint (used (slots (r_world g))) \<and> held_entries g \<le> maxEntries"
proof -
  let ?g0 = "newRegistry maxBearers maxStates maxQueue overrides maxEntries now"
  have l: "sint (word_of_int maxEntries :: i64) = maxEntries"
    using assms(4,5) by (simp add: sint_word_of_int_exact)
  have "registry_inv ?g0 ?g0" by (rule registry_inv_new) (use assms(2-5) in simp_all)
  from reg_reachable_inv [OF assms(1) this] show ?thesis
    using l by (auto simp: registry_inv_def registry_bounded_def registry_wf_def newRegistry_def newResourceBudget_def budget_wf_def)
qed

definition example_bearer :: "8 word list \<Rightarrow> identity" where
  "example_bearer k = \<lparr>kind = authBearer, key = k, botID = [], label = ''Bearer''\<rparr>"

definition example_times :: now_readings where
  "example_times = \<lparr>at_bearer_evict = 1, at_evict = 1, at_new = 1, at_begin = 2\<rparr>"

definition example_registry :: registry where
  \<comment> \<open>room for one bearer client, taken by a request in flight\<close>
  "example_registry = fst (client (newRegistry 1 1 5 [] 10 0) (example_bearer [7]) example_times)"

lemmas example_defs = example_registry_def example_bearer_def example_times_def newRegistry_def client_def Let_def
  group_map_def set_group_def

lemma example_reachable: "reg_reachable (newRegistry 1 1 5 [] 10 0) example_registry"
  unfolding example_registry_def
  by (rule reg_reachable.step [OF reg_reachable.start]) (rule reg_step.client [OF prod.collapse [symmetric]])

lemma example_wf: "registry_wf example_registry" "registry_bounded example_registry"
proof -
  have "registry_inv (newRegistry 1 1 5 [] 10 0) example_registry"
    by (rule reg_reachable_inv [OF example_reachable]) (rule registry_inv_new, simp_all)
  thus "registry_wf example_registry" "registry_bounded example_registry" by (simp_all add: registry_inv_def)
qed

text \<open>
  C27. A client with a request in flight is never dropped: whatever identity asks next, and however full the registry
  is, it stays under its key unchanged, or with one more request when that identity is its own; and the background sweep
  leaves it there with only its own idle buckets removed. The claim holds for every order in which the maps are ranged over.
\<close>

theorem active_client_kept:
  assumes "registry_wf g" "map_of (group_map g grp) k = Some c" "c_active c \<noteq> 0"
  shows "map_of (group_map (fst (client g i t)) grp) k =
      Some (if \<not> closed g \<and> kind i \<noteq> authNone \<and> grp = group_of i \<and> k = key i then client_begin c (at_begin t) else c) \<and>
    map_of (group_map (sweepClients g now) grp) k = Some (fst (sweep c (r_world g) now))"
proof
  obtain g' r where "client g i t = (g', r)" by (rule prod.exhaust)
  thus "map_of (group_map (fst (client g i t)) grp) k =
      Some (if \<not> closed g \<and> kind i \<noteq> authNone \<and> grp = group_of i \<and> k = key i then client_begin c (at_begin t) else c)"
    using client_keeps_active [OF assms] by simp
  have "map_of (filter (\<lambda>e. \<not> client_idle (snd e) (heap (r_world g)) now) (group_map g grp)) k = Some c"
    using assms(2,3) registry_wfD(1) [OF assms(1), of grp]
    by (intro map_of_filter_kept) (simp_all add: map_wf_def client_idle_def del: map_of_eq_Some_iff)
  thus "map_of (group_map (sweepClients g now) grp) k = Some (fst (sweep c (r_world g) now))"
    by (simp add: sweepClients_props(2) [OF assms(1)] map_of_mapped [where f = "\<lambda>c. fst (sweep c (r_world g) now)"]
        del: map_of_eq_Some_iff)
qed

theorem active_client_kept_witness:
  "\<exists>c. map_of (bearers example_registry) [7] = Some c \<and>
    map_of (bearers (fst (client example_registry (example_bearer [8]) example_times))) [7] = Some c"
proof -
  obtain c where c: "map_of (group_map example_registry Bearers) [7] = Some c" "c_active c \<noteq> 0"
    by (simp add: example_defs newClientState_def client_touch_def)
  show ?thesis using active_client_kept [OF example_wf(1) c, of "example_bearer [8]" example_times 0] c(1)
    by (simp add: example_bearer_def group_map_def)
qed

text \<open>
  A request is refused only for a reason. When a lookup fails the registry is unchanged, and either the proxy is
  closed, or the identity has no client, the cap on bearer clients or on all clients is reached, and no client that could be
  evicted is idle.
\<close>

theorem client_refusal:
  assumes "registry_wf g" "registry_bounded g" "client g i t = (g', Inl e)"
  shows "g' = g \<and>
    (e = ErrProxyClosed \<and> (closed g \<or> kind i = authNone \<and> noAuth g = None) \<or>
     e = ErrTooManyClients \<and> kind i \<noteq> authNone \<and> map_of (group_map g (group_of i)) (key i) = None \<and>
     (kind i = authBearer \<and> int (length (bearers g)) = MaxBearerClients g \<and>
        list_all (\<lambda>x. \<not> client_idle (snd x) (heap (r_world g)) (at_bearer_evict t)) (bearers g) \<or>
      int (length (bots g)) + int (length (bearers g)) = MaxClientStates g \<and>
        list_all (\<lambda>x. \<not> client_idle (snd x) (heap (r_world g)) (at_evict t)) (bots g @ bearers g)))"
  using assms(3)
proof (cases rule: client_cases)
  case refused_bearer
  have "g' = g" "\<forall>x \<in> set (bearers g). \<not> client_idle (snd x) (heap (r_world g)) (at_bearer_evict t)"
    using evict_refused [OF refused_bearer(6)] by (simp_all add: group_map_def)
  thus ?thesis using refused_bearer(2-5) assms(2) by (simp add: registry_bounded_def list_all_iff)
next
  case (refused g1)
  have g1: "g1 = g"
  proof (cases "kind i = authBearer \<and> MaxBearerClients g \<le> int (length (bearers g))")
    case True
    hence e: "evictOldestIdle g (at_bearer_evict t) [Bearers] = (g1, True)" using refused(5) by (simp add: evict_if_def)
    show ?thesis using evict_lengths(1) [OF assms(1) e] refused(6) evict_wf(4) [OF assms(1) e] assms(2)
      by (simp add: registry_bounded_def)
  qed (use refused(5) in \<open>auto simp: evict_if_def split: if_splits\<close>)
  have "g' = g" "\<forall>x \<in> set (bots g) \<union> set (bearers g). \<not> client_idle (snd x) (heap (r_world g)) (at_evict t)"
    using evict_refused [OF refused(7)] g1 by (auto simp: group_map_def)
  thus ?thesis using refused(2,3,4,6) assms(2) by (simp add: registry_bounded_def list_all_iff g1)
qed simp_all

end
