(* ===== verification/Go_Net.thy ===== *)
theory Go_Net
  imports Go_Strings Go_Encoding
begin

section \<open>Addresses of the Go standard library\<close>

text \<open>
  \<^verbatim>\<open>net.JoinHostPort\<close>, and whether \<^verbatim>\<open>net.ParseIP\<close> accepts a text: the IPv4 and IPv6 parsers of
  \<^verbatim>\<open>net/netip\<close> without the value they compute.
\<close>

definition JoinHostPort :: "string \<Rightarrow> string \<Rightarrow> string" where
  "JoinHostPort host port =
     (if CHR '':'' \<in> set host then ''['' @ host @ '']:'' @ port else host @ '':'' @ port)"

definition ipv4_field :: "string \<Rightarrow> bool" where
  "ipv4_field s \<longleftrightarrow> s \<noteq> [] \<and> list_all is_digit s \<and> (length s = 1 \<or> hd s \<noteq> CHR ''0'') \<and> digits_value s \<le> 255"

definition valid_ipv4 :: "string \<Rightarrow> bool" where
  "valid_ipv4 s \<longleftrightarrow> length (Split CHR ''.'' s) = 4 \<and> list_all ipv4_field (Split CHR ''.'' s)"

definition is_hex :: "char \<Rightarrow> bool" where
  "is_hex c \<longleftrightarrow> hex_value c \<noteq> None"

definition ipv6_end :: "nat \<Rightarrow> bool \<Rightarrow> bool" where
  \<comment> \<open>an ellipsis stands for at least one of the eight groups\<close>
  "ipv6_end i ellipsis \<longleftrightarrow> (if i < 8 then ellipsis else \<not> ellipsis)"

function ipv6_groups :: "nat \<Rightarrow> bool \<Rightarrow> string \<Rightarrow> bool" where
  "ipv6_groups i ellipsis s =
     (if 8 \<le> i then s = [] \<and> ipv6_end i ellipsis
      else
        let off = length (takeWhile is_hex s); rest = dropWhile is_hex s
        in if off = 0 \<or> 4 < off then False
           else if rest = [] then ipv6_end (i + 1) ellipsis
           else if hd rest = CHR ''.'' then
             (ellipsis \<or> i = 6) \<and> i + 2 \<le> 8 \<and> valid_ipv4 s \<and> ipv6_end (i + 2) ellipsis
           else if hd rest \<noteq> CHR '':'' \<or> tl rest = [] then False
           else if hd (tl rest) \<noteq> CHR '':'' then ipv6_groups (i + 1) ellipsis (tl rest)
           else if ellipsis then False
           else if tl (tl rest) = [] then ipv6_end (i + 1) True
           else ipv6_groups (i + 1) True (tl (tl rest)))"
  by pat_completeness auto
termination
  by (relation "measure (\<lambda>(i, _, _). 8 - i)") auto

definition valid_ipv6 :: "string \<Rightarrow> bool" where
  "valid_ipv6 s =
     (if HasPrefix s ''::'' then drop 2 s = [] \<or> ipv6_groups 0 True (drop 2 s) else ipv6_groups 0 False s)"

definition ParseIP_ok :: "string \<Rightarrow> bool" where
  \<comment> \<open>a zone, which starts with a percent sign, is not accepted\<close>
  "ParseIP_ok s =
     (case dropWhile (\<lambda>c. c \<notin> {CHR ''.'', CHR '':'', CHR ''%''}) s of
        [] \<Rightarrow> False
      | c # _ \<Rightarrow> CHR ''%'' \<notin> set s \<and> (if c = CHR ''.'' then valid_ipv4 s else valid_ipv6 s))"

declare ipv6_groups.simps [simp del]

lemmas ip_eval = ParseIP_ok_def valid_ipv4_def valid_ipv6_def ipv4_field_def ipv6_end_def is_hex_def hex_value_def
  is_digit_def digits_value_def digit_value_def HasPrefix_def code_in_def

lemma ParseIP_examples:
  "ParseIP_ok ''10.0.0.1''" "ParseIP_ok ''::1''" "ParseIP_ok ''fe80::a:0''" "\<not> ParseIP_ok ''10.0.0.01''"
  "\<not> ParseIP_ok ''10.0.0.256''" "\<not> ParseIP_ok ''1:2''" "\<not> ParseIP_ok ''localhost''"
  by (simp_all add: ip_eval ipv6_groups.simps)

end
