(* ===== verification/Cluster.thy ===== *)
theory Cluster
  imports Identity Go_Net "HOL-Library.List_Lexorder" "HOL-Library.Char_ord"
begin

section \<open>Cluster routing\<close>

text \<open>
  The routing half of \<^verbatim>\<open>internal/proxy/cluster.go\<close>: members and their hashes, the route table that
  \<^verbatim>\<open>reindexMembers\<close> builds from what the member list reports, and the rendezvous hashing of \<^verbatim>\<open>calculateRoute\<close>.
  A node of the member list is its name, the text of its address and its metadata: the list itself is an
  argument. Names are compared bytewise, which is the order of \<open>List_Lexorder\<close> over \<open>Char_ord\<close>.
\<close>

unbundle bit_operations_syntax

subsection \<open>Members\<close>

record clusterMember =
  m_name :: string
  m_address :: string
  m_hash :: u64

definition newClusterMember :: "string \<Rightarrow> string \<Rightarrow> clusterMember" where
  "newClusterMember name address =
     \<lparr>m_name = name, m_address = address, m_hash = BigEndian_Uint64 (take 8 (Sum256 name))\<rparr>"

record routeTable =
  t_members :: "clusterMember list"
  t_localAddr :: string

record memberNode =
  n_name :: string
  n_addr :: string
  n_meta :: string

definition peer_port :: "string \<Rightarrow> int option" where
  \<comment> \<open>the port of valid metadata\<close>
  "peer_port meta =
     (case Atoi meta of None \<Rightarrow> None | Some p \<Rightarrow> if p < 1 \<or> 65535 < p then None else Some p)"

fun index_members :: "memberNode list \<Rightarrow> clusterMember list" where
  \<comment> \<open>the loop of \<^verbatim>\<open>reindexMembers\<close>\<close>
  "index_members [] = []"
| "index_members (n # ns) =
     (if peer_port (n_meta n) = None then index_members ns
      else newClusterMember (n_name n) (JoinHostPort (n_addr n) (n_meta n)) # index_members ns)"

definition build_table :: "string \<Rightarrow> memberNode list \<Rightarrow> routeTable" where
  "build_table local nodes = \<lparr>t_members = sort_key m_name (index_members nodes), t_localAddr = local\<rparr>"

record routing =
  routes :: "routeTable option"
  clusterOverCapacity :: bool

definition reindex :: "string \<Rightarrow> int \<Rightarrow> memberNode list \<Rightarrow> routing" where
  \<comment> \<open>what \<^verbatim>\<open>reindexMembers\<close> publishes for the members it read\<close>
  "reindex local maxNodes nodes =
     (if maxNodes < int (length nodes) then \<lparr>routes = None, clusterOverCapacity = True\<rparr>
      else \<lparr>routes = Some (build_table local nodes), clusterOverCapacity = False\<rparr>)"


subsection \<open>Rendezvous hashing\<close>

definition mix64 :: "u64 \<Rightarrow> u64" where
  "mix64 value =
     (let value = value + 0x9e3779b97f4a7c15;
          value = (value XOR drop_bit 30 value) * 0xbf58476d1ce4e5b9;
          value = (value XOR drop_bit 27 value) * 0x94d049bb133111eb
      in value XOR drop_bit 31 value)"

definition score :: "u64 \<Rightarrow> clusterMember \<Rightarrow> u64" where
  "score k m = mix64 (k XOR m_hash m)"

fun rendezvous_from :: "u64 \<Rightarrow> clusterMember \<Rightarrow> u64 \<Rightarrow> clusterMember list \<Rightarrow> clusterMember" where
  "rendezvous_from k selected bestScore [] = selected"
| "rendezvous_from k selected bestScore (m # ms) =
     (if bestScore < score k m then rendezvous_from k m (score k m) ms
      else rendezvous_from k selected bestScore ms)"

fun rendezvousMember :: "u64 \<Rightarrow> clusterMember list \<Rightarrow> clusterMember option" where
  \<comment> \<open>\<open>None\<close> is the panic on an empty list\<close>
  "rendezvousMember k [] = None"
| "rendezvousMember k (m # ms) = Some (rendezvous_from k m (score k m) ms)"

definition calculateRoute :: "routeTable option \<Rightarrow> u64 \<Rightarrow> string" where
  "calculateRoute tbl k =
     (case tbl of
        None \<Rightarrow> []
      | Some table \<Rightarrow>
          (case rendezvousMember k (t_members table) of
             None \<Rightarrow> []
           | Some member \<Rightarrow> if m_address member = t_localAddr table then [] else m_address member))"

definition clusterSecretKey :: "string \<Rightarrow> 8 word list option" where
  "clusterSecretKey secret = (if RuneCount secret < 32 then None else Some (Sum256 secret))"


subsection \<open>The mixing function is a bijection\<close>

definition unshift :: "nat \<Rightarrow> u64 \<Rightarrow> u64" where
  "unshift n y = y XOR drop_bit n y XOR drop_bit (2 * n) y"

lemma drop_bit_large: "64 \<le> n \<Longrightarrow> drop_bit n (w :: u64) = 0"
  by (rule bit_eqI) (auto simp: bit_drop_bit_eq dest: bit_imp_le_length)

lemma unshift_shift:
  assumes "64 \<le> 3 * n"
  shows "unshift n (v XOR drop_bit n v) = v"
proof -
  have "drop_bit (2 * n) (drop_bit n v) = 0" "drop_bit n (drop_bit n v) = drop_bit (2 * n) v"
    using assms by (simp_all add: drop_bit_drop_bit drop_bit_large mult_2)
  thus ?thesis by (simp add: unshift_def drop_bit_xor xor.assoc)
qed

definition unmix64 :: "u64 \<Rightarrow> u64" where
  "unmix64 v = unshift 30 (unshift 27 (unshift 31 v * 0x319642b2d24d8ec3) * 0x96de1b173f119089) - 0x9e3779b97f4a7c15"

lemma unmix64_mix64: "unmix64 (mix64 v) = v"
proof -
  have one: "(0x94d049bb133111eb :: u64) * 0x319642b2d24d8ec3 = 1" "(0xbf58476d1ce4e5b9 :: u64) * 0x96de1b173f119089 = 1"
    by simp_all
  have times: "a * 0x94d049bb133111eb * 0x319642b2d24d8ec3 = a" "a * 0xbf58476d1ce4e5b9 * 0x96de1b173f119089 = a" for a :: u64
    by (simp_all only: mult.assoc one mult_1_right)
  have shifts: "unshift 31 (a XOR drop_bit 31 a) = a" "unshift 27 (a XOR drop_bit 27 a) = a"
    "unshift 30 (a XOR drop_bit 30 a) = a" for a
    by (simp_all add: unshift_shift)
  show ?thesis by (simp only: unmix64_def mix64_def Let_def shifts times add_diff_cancel_right')
qed

lemma inj_mix64: "inj mix64"
  by (rule inj_on_inverseI [where g = unmix64]) (simp add: unmix64_mix64)

subsection \<open>The owner of a key\<close>

lemma rendezvous_from_split:
  "rendezvous_from k s (score k s) ms = m \<Longrightarrow>
   \<exists>xs ys. s # ms = xs @ m # ys \<and> (\<forall>x \<in> set xs. score k x < score k m) \<and> (\<forall>y \<in> set ys. score k y \<le> score k m)"
proof (induction ms arbitrary: s)
  case Nil
  thus ?case by (intro exI [of _ "[]"]) auto
next
  case (Cons a ms)
  show ?case
  proof (cases "score k s < score k a")
    case True
    hence "rendezvous_from k a (score k a) ms = m" using Cons.prems by simp
    then obtain xs ys where *: "a # ms = xs @ m # ys" "\<forall>x \<in> set xs. score k x < score k m" "\<forall>y \<in> set ys. score k y \<le> score k m"
      using Cons.IH by blast
    have "score k a \<le> score k m" using * by (cases xs) auto
    hence "score k s < score k m" using True by simp
    thus ?thesis using * by (intro exI [of _ "s # xs"] exI [of _ ys]) auto
  next
    case False
    hence "rendezvous_from k s (score k s) ms = m" using Cons.prems by simp
    then obtain xs ys where *: "s # ms = xs @ m # ys" "\<forall>x \<in> set xs. score k x < score k m" "\<forall>y \<in> set ys. score k y \<le> score k m"
      using Cons.IH by blast
    show ?thesis
    proof (cases xs)
      case Nil
      thus ?thesis using * False by (intro exI [of _ "[]"] exI [of _ "a # ys"]) auto
    next
      case (Cons z zs)
      hence "score k a < score k m" using * False by auto
      thus ?thesis using * Cons by (intro exI [of _ "s # a # zs"] exI [of _ ys]) auto
    qed
  qed
qed

lemma earlier_elements:
  assumes "xs @ m # ys = xs' @ m' # ys'" "length xs < length xs'"
  shows "m \<in> set xs'" "m' \<in> set ys"
proof -
  obtain zs where xs': "xs' = xs @ zs" "m # ys = zs @ m' # ys'"
    using assms by (auto simp: append_eq_append_conv2)
  then obtain z zs' where "zs = z # zs'" using assms(2) by (cases zs) auto
  thus "m \<in> set xs'" "m' \<in> set ys" using xs' by auto
qed

lemma first_maximum_unique:
  assumes "xs @ m # ys = xs' @ m' # ys'"
    and "\<forall>x \<in> set xs. score k x < score k m" "\<forall>y \<in> set ys. score k y \<le> score k m"
    and "\<forall>x \<in> set xs'. score k x < score k m'" "\<forall>y \<in> set ys'. score k y \<le> score k m'"
  shows "m = m'"
proof -
  consider "length xs = length xs'" | "length xs < length xs'" | "length xs' < length xs" by linarith
  thus ?thesis
  proof cases
    case 1 thus ?thesis using assms(1) by simp
  next
    case 2
    note e = earlier_elements [OF assms(1) 2]
    have "score k m < score k m'" "score k m' \<le> score k m" using e assms(3,4) by blast+
    thus ?thesis by simp
  next
    case 3
    note e = earlier_elements [OF assms(1) [symmetric] 3]
    have "score k m' < score k m" "score k m \<le> score k m'" using e assms(2,5) by blast+
    thus ?thesis by simp
  qed
qed

lemma rendezvous_iff:
  "rendezvousMember k ms = Some m \<longleftrightarrow>
   (\<exists>xs ys. ms = xs @ m # ys \<and> (\<forall>x \<in> set xs. score k x < score k m) \<and> (\<forall>y \<in> set ys. score k y \<le> score k m))"
  (is "?l \<longleftrightarrow> ?r")
proof
  assume ?l
  then obtain s ss where "ms = s # ss" "rendezvous_from k s (score k s) ss = m" by (cases ms) auto
  thus ?r using rendezvous_from_split by auto
next
  assume r: ?r
  then obtain s ss where ms: "ms = s # ss" by (cases ms) auto
  define n where "n = rendezvous_from k s (score k s) ss"
  obtain xs ys where n: "ms = xs @ n # ys" "\<forall>x \<in> set xs. score k x < score k n" "\<forall>y \<in> set ys. score k y \<le> score k n"
    using rendezvous_from_split [of k s ss n] ms n_def by auto
  obtain us vs where m: "ms = us @ m # vs" "\<forall>x \<in> set us. score k x < score k m" "\<forall>y \<in> set vs. score k y \<le> score k m"
    using r by auto
  have "n = m" by (rule first_maximum_unique [where k = k, OF _ n(2,3) m(2,3)]) (use n(1) m(1) in simp)
  thus ?l using ms n_def by simp
qed

lemma rendezvous_some: "ms \<noteq> [] \<Longrightarrow> \<exists>m \<in> set ms. rendezvousMember k ms = Some m"
proof (cases ms)
  case (Cons s ss)
  then obtain m where m: "rendezvousMember k ms = Some m" by simp
  moreover from this have "m \<in> set ms" by (auto simp: rendezvous_iff)
  ultimately show "\<exists>m \<in> set ms. rendezvousMember k ms = Some m" by blast
qed simp

lemma rendezvous_filter:
  assumes "rendezvousMember k ms = Some m" "P m"
  shows "rendezvousMember k (filter P ms) = Some m"
proof -
  obtain xs ys where "ms = xs @ m # ys" "\<forall>x \<in> set xs. score k x < score k m" "\<forall>y \<in> set ys. score k y \<le> score k m"
    using assms(1) by (auto simp: rendezvous_iff)
  thus ?thesis using assms(2) unfolding rendezvous_iff
    by (intro exI [of _ "filter P xs"] exI [of _ "filter P ys"]) auto
qed

lemma newClusterMember_fields [simp]:
  "m_name (newClusterMember n a) = n" "m_address (newClusterMember n a) = a"
  by (simp_all add: newClusterMember_def)

lemma index_members_filter:
  "index_members (filter (\<lambda>n. P (n_name n)) nodes) = filter (\<lambda>m. P (m_name m)) (index_members nodes)"
  by (induction nodes) auto

lemma index_members_names: "set (map m_name (index_members nodes)) \<subseteq> set (map n_name nodes)"
  by (induction nodes) auto

lemma index_members_distinct: "distinct (map n_name nodes) \<Longrightarrow> distinct (map m_name (index_members nodes))"
proof (induction nodes)
  case (Cons n nodes)
  thus ?case using index_members_names [of nodes] by auto
qed simp

lemma index_members_mset: "mset nodes = mset nodes' \<Longrightarrow> mset (index_members nodes) = mset (index_members nodes')"
proof -
  have "index_members nodes = map (\<lambda>n. newClusterMember (n_name n) (JoinHostPort (n_addr n) (n_meta n)))
      (filter (\<lambda>n. peer_port (n_meta n) \<noteq> None) nodes)" for nodes
    by (induction nodes) auto
  thus "mset nodes = mset nodes' \<Longrightarrow> mset (index_members nodes) = mset (index_members nodes')"
    by (simp add: mset_map mset_filter)
qed

lemma same_view_same_members:
  assumes "mset nodes = mset nodes'" "distinct (map n_name nodes)"
  shows "t_members (build_table a nodes) = t_members (build_table b nodes')"
proof -
  have "inj_on m_name (set (index_members nodes))"
    using index_members_distinct [OF assms(2)] by (simp add: distinct_map)
  moreover have "mset (index_members nodes) = mset (sort_key m_name (index_members nodes'))"
    using index_members_mset [OF assms(1)] by simp
  ultimately show ?thesis by (simp add: build_table_def) (intro sort_key_inj_key_eq; simp)
qed



subsection \<open>Properties\<close>

text \<open>
  Peers agree on the owner of a key. When two nodes see the same members, whatever the order in which their member
  lists report them, and one of them routes a key to a peer, the peer serves that key itself: a forwarded request is
  never forwarded again. And among the members exactly the one of the owner's address keeps the key.
\<close>

lemma routing_converges:
  assumes "mset nodes = mset nodes'" "distinct (map n_name nodes)"
    and "calculateRoute (Some (build_table local nodes)) k = target" "target \<noteq> []"
  shows "calculateRoute (Some (build_table target nodes')) k = [] \<and>
    (\<exists>m \<in> set (index_members nodes). m_address m = target \<and>
       (\<forall>m' \<in> set (index_members nodes). calculateRoute (Some (build_table (m_address m') nodes')) k =
          (if m_address m' = target then [] else target)))"
proof -
  define ms where "ms = t_members (build_table local nodes)"
  have same: "t_members (build_table a nodes') = ms" for a
    unfolding ms_def by (rule same_view_same_members [OF assms(1,2), symmetric])
  have set: "set ms = set (index_members nodes)" by (simp add: ms_def build_table_def)
  have ne: "ms \<noteq> []" using assms(3,4) by (auto simp: calculateRoute_def ms_def)
  obtain m where m: "m \<in> set ms" "rendezvousMember k ms = Some m" using rendezvous_some [OF ne] by blast
  have r: "calculateRoute (Some (build_table a nodes')) k = (if m_address m = a then [] else m_address m)" for a
    using same [of a] m(2) by (simp add: calculateRoute_def) (simp add: build_table_def)
  have t: "m_address m = target"
    using assms(3,4) m(2) by (auto simp: calculateRoute_def ms_def split: if_splits)
  have "calculateRoute (Some (build_table target nodes')) k = []" using r t by simp
  moreover have "calculateRoute (Some (build_table (m_address m') nodes')) k =
      (if m_address m' = target then [] else target)" for m' :: clusterMember
    using r [of "m_address m'"] t by auto
  ultimately show ?thesis using m(1) t set by auto
qed

definition example_nodes :: "memberNode list" where
  "example_nodes =
     [\<lparr>n_name = ''a'', n_addr = ''10.0.0.1'', n_meta = ''8080''\<rparr>, \<lparr>n_name = ''b'', n_addr = ''10.0.0.2'', n_meta = ''8080''\<rparr>]"

lemma example_members:
  "index_members example_nodes = [newClusterMember ''a'' ''10.0.0.1:8080'', newClusterMember ''b'' ''10.0.0.2:8080'']"
  by (simp add: example_nodes_def peer_port_def Atoi_def ParseInt_def ParseUint_def is_digit_def digits_value_def
      digit_value_def JoinHostPort_def)

text \<open>
  C29. A change of membership moves only the keys it must. When any set of members leaves, a key whose owner stays keeps
  its owner; read the other way round, members that join take keys to themselves and move no key between old members.
\<close>

theorem membership_change_minimal:
  assumes "rendezvousMember k (t_members (build_table local nodes)) = Some m" "m_name m \<notin> gone"
  shows "rendezvousMember k (t_members (build_table local (filter (\<lambda>n. n_name n \<notin> gone) nodes))) = Some m"
proof -
  have "t_members (build_table local (filter (\<lambda>n. n_name n \<notin> gone) nodes)) =
    filter (\<lambda>m. m_name m \<notin> gone) (t_members (build_table local nodes))"
    by (simp add: build_table_def filter_sort index_members_filter [where P = "\<lambda>x. x \<notin> gone"])
  thus ?thesis using rendezvous_filter [OF assms(1), of "\<lambda>m. m_name m \<notin> gone"] assms(2) by simp
qed

theorem membership_change_minimal_witness:
  "\<exists>m. rendezvousMember 7 (t_members (build_table [] example_nodes)) = Some m \<and>
     rendezvousMember 7 (t_members (build_table [] (filter (\<lambda>n. n_name n \<notin> {''a'', ''b''} - {m_name m}) example_nodes))) = Some m"
proof -
  let ?ms = "t_members (build_table [] example_nodes)"
  have "set ?ms = set (index_members example_nodes)" by (simp add: build_table_def)
  hence "?ms \<noteq> []" by (auto simp: example_members)
  then obtain m where "rendezvousMember 7 ?ms = Some m" using rendezvous_some [of ?ms 7] by blast
  thus ?thesis using membership_change_minimal [of 7 "[]" example_nodes m "{''a'', ''b''} - {m_name m}"] by blast
qed

end
