(* ===== verification/Membership.thy ===== *)
theory Membership
  imports Cluster Guard
begin

section \<open>Joining and leaving the cluster\<close>

text \<open>
  The protocol half of \<^verbatim>\<open>internal/proxy/cluster.go\<close>: \<^verbatim>\<open>JoinCluster\<close>, \<^verbatim>\<open>closeCluster\<close> and
  \<^verbatim>\<open>reindexMembers\<close> run by any number of goroutines, with \<^verbatim>\<open>Close\<close> of \<^verbatim>\<open>proxy.go\<close> that starts the
  closing once. Every section under \<^verbatim>\<open>clusterMu\<close> is one step. Goroutine \<open>i\<close> that runs \<^verbatim>\<open>JoinCluster\<close>
  makes the channel \<open>i\<close> (\<^verbatim>\<open>joinDone\<close>) and the member list \<open>i\<close>. Which calls of the member list fail and
  what it reports is up to the environment; parsing and verifying certificates are arguments.
\<close>

subsection \<open>Peer certificates and configuration\<close>

record 'c tlsCertificate =
  Leaf :: "'c option"
  Certificate :: "string list"

record 'c tlsConfig =
  InsecureSkipVerify :: bool
  hasRootCAs :: bool
  Certificates :: "'c tlsCertificate list"
  hasGetClientCertificate :: bool
  MinVersion :: nat
  MaxVersion :: nat

definition VersionTLS13 :: nat where "VersionTLS13 = 0x0304"

datatype tls_error = NoTLS | SkipsVerification | NoRootCAs | NoClientCertificate | OldTLS

record 'c peer_transport =
  \<comment> \<open>an \<^verbatim>\<open>http.Transport\<close>: whether it asks a proxy, the dialer's timeout and keep-alive, and its settings\<close>
  pt_Proxy :: bool
  pt_DisableCompression :: bool
  pt_DialTimeout :: duration
  pt_KeepAlive :: duration
  pt_ForceAttemptHTTP2 :: bool
  pt_MaxIdleConns :: nat
  pt_MaxIdleConnsPerHost :: nat
  pt_MaxConnsPerHost :: nat
  pt_IdleConnTimeout :: duration
  pt_TLSHandshakeTimeout :: duration
  pt_ExpectContinueTimeout :: duration
  pt_TLSClientConfig :: "'c tlsConfig"

definition peer_settings :: "'c tlsConfig \<Rightarrow> 'c peer_transport" where
  "peer_settings tls =
     \<lparr>pt_Proxy = False, pt_DisableCompression = True, pt_DialTimeout = 30 * Second, pt_KeepAlive = 30 * Second,
      pt_ForceAttemptHTTP2 = True, pt_MaxIdleConns = 512, pt_MaxIdleConnsPerHost = 256, pt_MaxConnsPerHost = 256,
      pt_IdleConnTimeout = 90 * Second, pt_TLSHandshakeTimeout = 10 * Second, pt_ExpectContinueTimeout = Second,
      pt_TLSClientConfig = tls\<rparr>"

definition newPeerHTTPTransport :: "'c tlsConfig option \<Rightarrow> tls_error + 'c peer_transport" where
  "newPeerHTTPTransport config =
     (case config of
        None \<Rightarrow> Inl NoTLS
      | Some c \<Rightarrow>
          if InsecureSkipVerify c then Inl SkipsVerification
          else if \<not> hasRootCAs c then Inl NoRootCAs
          else if Certificates c = [] \<and> \<not> hasGetClientCertificate c then Inl NoClientCertificate
          else if MaxVersion c \<noteq> 0 \<and> MaxVersion c < VersionTLS13 then Inl OldTLS
          else Inr (peer_settings (c\<lparr>MinVersion := max (MinVersion c) VersionTLS13\<rparr>)))"

datatype cert_error = NoStaticCertificate | EmptyCertificate | UnparsableCertificate | WrongAddress

definition validatePeerCertificateAddress ::
  "(string \<Rightarrow> 'c option) \<Rightarrow> ('c \<Rightarrow> string \<Rightarrow> bool) \<Rightarrow> 'c tlsConfig option \<Rightarrow> string \<Rightarrow> cert_error option" where
  "validatePeerCertificateAddress parse verifyHostname config address =
     (case config of
        None \<Rightarrow> Some NoStaticCertificate
      | Some c \<Rightarrow>
          (case Certificates c of
             [] \<Rightarrow> Some NoStaticCertificate
           | certificate # _ \<Rightarrow>
               (case (case Leaf certificate of
                        Some leaf \<Rightarrow> Inr leaf
                      | None \<Rightarrow>
                          (case Certificate certificate of
                             [] \<Rightarrow> Inl EmptyCertificate
                           | raw # _ \<Rightarrow> (case parse raw of None \<Rightarrow> Inl UnparsableCertificate | Some leaf \<Rightarrow> Inr leaf))) of
                  Inl e \<Rightarrow> Some e
                | Inr leaf \<Rightarrow> if verifyHostname leaf address then None else Some WrongAddress)))"

definition joinKnownMembers :: "string list \<Rightarrow> (string list \<Rightarrow> 'e option) \<Rightarrow> 'e option" where
  "joinKnownMembers members join = (if members = [] then None else join members)"

record 'c clusterConfig =
  KnownMembers :: "string list"
  BindAddress :: string
  Port :: int
  PeerPort :: int
  MaxNodes :: int
  NodeName :: string
  Secret :: string
  PeerTLS :: "'c tlsConfig option"

datatype join_error =
  BadPorts | BadBindAddress | BadMaxNodes | ShortSecret | BadPeerTLS tls_error |
  CreateFailed | BadCertificate cert_error | JoinFailed | TooManyMembers

definition join_check :: "'c clusterConfig \<Rightarrow> join_error option" where
  \<comment> \<open>the checks of \<^verbatim>\<open>JoinCluster\<close> before it takes the lock\<close>
  "join_check config =
     (if Port config < 1 \<or> 65535 < Port config \<or> PeerPort config < 1 \<or> 65535 < PeerPort config then Some BadPorts
      else if BindAddress config \<noteq> [] \<and> \<not> ParseIP_ok (BindAddress config) then Some BadBindAddress
      else if MaxNodes config < 1 \<or> InvalidRequestSafetyLimit < MaxNodes config then Some BadMaxNodes
      else if clusterSecretKey (Secret config) = None then Some ShortSecret
      else case newPeerHTTPTransport (PeerTLS config) of Inl e \<Rightarrow> Some (BadPeerTLS e) | Inr _ \<Rightarrow> None)"

record memberConfig =
  mc_BindAddr :: string
  mc_BindPort :: int
  mc_AdvertisePort :: int
  mc_SecretKey :: "8 word list"
  mc_peerPort :: string
  mc_Name :: string

definition NodeMeta :: "memberConfig \<Rightarrow> string" where
  \<comment> \<open>of the \<^verbatim>\<open>clusterDelegate\<close> of a configuration, whatever the limit\<close>
  "NodeMeta mc = mc_peerPort mc"

definition member_config :: "memberConfig \<Rightarrow> 'c clusterConfig \<Rightarrow> 8 word list \<Rightarrow> memberConfig" where
  \<comment> \<open>on top of the defaults of the library\<close>
  "member_config dflt config secretKey =
     dflt\<lparr>mc_BindAddr := (if BindAddress config \<noteq> [] then BindAddress config else mc_BindAddr dflt),
          mc_BindPort := Port config, mc_AdvertisePort := Port config, mc_SecretKey := secretKey,
          mc_peerPort := Itoa (PeerPort config),
          mc_Name := (if NodeName config \<noteq> [] then NodeName config else mc_Name dflt)\<rparr>"

definition local_address :: "'c clusterConfig \<Rightarrow> string \<Rightarrow> string" where
  \<comment> \<open>the \<^verbatim>\<open>localAddr\<close> that \<^verbatim>\<open>JoinCluster\<close> installs, for the address of the local node\<close>
  "local_address config addr = JoinHostPort addr (Itoa (PeerPort config))"

text \<open>
  A node that joined finds itself in the list it indexes: it advertises metadata that every
  \<^verbatim>\<open>reindexMembers\<close> accepts, and the address computed from them is the one it knows itself by.
\<close>

lemma own_node_indexed:
  assumes "join_check config = None" "n \<in> set nodes"
    and "n_meta n = NodeMeta (member_config dflt config secretKey)" "n_addr n = addr"
  shows "\<exists>m \<in> set (t_members (build_table (local_address config addr) nodes)).
    m_name m = n_name n \<and> m_address m = local_address config addr"
proof -
  have "1 \<le> PeerPort config" "PeerPort config \<le> 65535" using assms(1) by (auto simp: join_check_def split: if_splits)
  hence "peer_port (n_meta n) \<noteq> None"
    using ParseInt_Itoa [of "PeerPort config"] assms(3) by (simp add: peer_port_def Atoi_def NodeMeta_def member_config_def)
  hence "newClusterMember (n_name n) (JoinHostPort (n_addr n) (n_meta n)) \<in> set (index_members nodes)"
    using assms(2) by (induction nodes) auto
  moreover have "JoinHostPort (n_addr n) (n_meta n) = local_address config addr"
    using assms(3,4) by (simp add: local_address_def NodeMeta_def member_config_def)
  moreover have "m_name (newClusterMember x y) = x" "m_address (newClusterMember x y) = y" for x y
    by (simp_all add: newClusterMember_def)
  ultimately show ?thesis
    by (intro bexI [of _ "newClusterMember (n_name n) (JoinHostPort (n_addr n) (n_meta n))"]) (simp_all add: build_table_def)
qed

record candidate_env =
  \<comment> \<open>what the calls on the new member list return\<close>
  createFails :: bool
  localNodeAddr :: string
  joinFails :: bool
  memberCount :: int

definition candidate_check ::
  "(string \<Rightarrow> 'c option) \<Rightarrow> ('c \<Rightarrow> string \<Rightarrow> bool) \<Rightarrow> 'c clusterConfig \<Rightarrow> candidate_env \<Rightarrow> join_error option" where
  \<comment> \<open>the checks of \<^verbatim>\<open>JoinCluster\<close> on the member list it created\<close>
  "candidate_check parse verifyHostname config env =
     (case validatePeerCertificateAddress parse verifyHostname (PeerTLS config) (localNodeAddr env) of
        Some e \<Rightarrow> Some (BadCertificate e)
      | None \<Rightarrow>
          (case joinKnownMembers (KnownMembers config) (\<lambda>_. if joinFails env then Some JoinFailed else None) of
             Some e \<Rightarrow> Some e
           | None \<Rightarrow> if MaxNodes config < memberCount env then Some TooManyMembers else None))"

definition maxClusterLeaveTime :: duration where "maxClusterLeaveTime = 5 * Second"

definition leave_time :: "bool \<Rightarrow> time option \<Rightarrow> time \<Rightarrow> duration" where
  \<comment> \<open>how long \<^verbatim>\<open>closeCluster\<close> lets the member list leave; it calls \<^verbatim>\<open>Leave\<close> only if this is positive\<close>
  "leave_time ctxErr deadline now =
     (let t = (if ctxErr then 0 else maxClusterLeaveTime)
      in case deadline of None \<Rightarrow> t | Some d \<Rightarrow> if time_Sub d now < t then time_Sub d now else t)"


subsection \<open>State and sections\<close>

datatype cpc =
  JStart | JCreating | JCandidate | JInstalling | JFailed bool | JUnlocking bool |
  CStart | CLooping | CWaiting nat | CTaken "nat option" | CCleared "nat option" | CReturned |
  Indexing bool | Publishing bool string int | Returned

record csys =
  ctx_done :: bool
  cluster :: "nat option"
  peerTransport :: bool
  maxClusterNodes :: int
  localAddr :: string
  clusterJoining :: bool
  clusterJoinDone :: "nat option"
  index_owner :: "nat option"
  published :: routing
  closer :: "nat option"
  closed_chans :: "nat set"
  live :: "nat set"
  panicked :: bool
  c_pcs :: "nat \<Rightarrow> cpc"

definition goto :: "nat \<Rightarrow> cpc \<Rightarrow> csys \<Rightarrow> csys" where
  "goto i pc s = s\<lparr>c_pcs := (c_pcs s)(i := pc)\<rparr>"

definition close_chan :: "nat \<Rightarrow> csys \<Rightarrow> csys" where
  \<comment> \<open>closing a closed channel panics\<close>
  "close_chan t s = s\<lparr>closed_chans := insert t (closed_chans s), panicked := panicked s \<or> t \<in> closed_chans s\<rparr>"

definition join_begin :: "nat \<Rightarrow> csys \<Rightarrow> csys" where
  "join_begin i s =
     (if ctx_done s then goto i Returned s
      else if cluster s \<noteq> None \<or> clusterJoining s then goto i Returned s
      else goto i JCreating (s\<lparr>clusterJoining := True, clusterJoinDone := Some i\<rparr>))"

definition join_create :: "nat \<Rightarrow> bool \<Rightarrow> csys \<Rightarrow> csys" where
  "join_create i fails s =
     (if fails then goto i (JFailed False) s else goto i JCandidate (s\<lparr>live := insert i (live s)\<rparr>))"

definition join_candidate :: "nat \<Rightarrow> join_error option \<Rightarrow> csys \<Rightarrow> csys" where
  "join_candidate i e s = (case e of Some _ \<Rightarrow> goto i (JFailed True) s | None \<Rightarrow> goto i JInstalling s)"

definition join_install :: "nat \<Rightarrow> int \<Rightarrow> string \<Rightarrow> csys \<Rightarrow> csys" where
  "join_install i maxNodes addr s =
     (if ctx_done s then goto i (JFailed True) s
      else goto i (Indexing True)
        (close_chan i
          (s\<lparr>cluster := Some i, peerTransport := True, maxClusterNodes := maxNodes, localAddr := addr,
             clusterJoining := False, clusterJoinDone := None\<rparr>)))"

definition join_cleanup :: "nat \<Rightarrow> bool \<Rightarrow> csys \<Rightarrow> csys" where
  \<comment> \<open>the deferred function when nothing was installed: shut the candidate down, if there is one\<close>
  "join_cleanup i created s = goto i (JUnlocking False) (if created then s\<lparr>live := live s - {i}\<rparr> else s)"

definition join_unlock :: "nat \<Rightarrow> csys \<Rightarrow> csys" where
  "join_unlock i s =
     goto i Returned
       (if clusterJoinDone s = Some i then close_chan i (s\<lparr>clusterJoining := False, clusterJoinDone := None\<rparr>) else s)"

definition close_begin :: "nat \<Rightarrow> csys \<Rightarrow> csys" where
  \<comment> \<open>\<^verbatim>\<open>Close\<close>: the first caller, \<open>closer\<close>, cancels the context and starts \<^verbatim>\<open>finishClose\<close>\<close>
  "close_begin i s =
     (if closer s \<noteq> None then goto i Returned s else goto i CLooping (s\<lparr>closer := Some i, ctx_done := True\<rparr>))"

definition close_take :: "nat \<Rightarrow> csys \<Rightarrow> csys" where
  "close_take i s =
     (case clusterJoinDone s of
        Some t \<Rightarrow> goto i (CWaiting t) s
      | None \<Rightarrow>
          goto i (CTaken (cluster s))
            (s\<lparr>cluster := None, peerTransport := False, maxClusterNodes := 0, localAddr := []\<rparr>))"

definition close_clear :: "nat \<Rightarrow> nat option \<Rightarrow> csys \<Rightarrow> csys" where
  "close_clear i h s = goto i (CCleared h) (s\<lparr>published := \<lparr>routes = None, clusterOverCapacity = False\<rparr>\<rparr>)"

definition close_shutdown :: "nat \<Rightarrow> nat option \<Rightarrow> csys \<Rightarrow> csys" where
  "close_shutdown i h s =
     goto i CReturned (case h of None \<Rightarrow> s | Some n \<Rightarrow> s\<lparr>live := live s - {n}\<rparr>)"

definition indexed :: "bool \<Rightarrow> cpc" where
  "indexed joining = (if joining then JUnlocking True else Returned)"

definition reindex_read :: "nat \<Rightarrow> bool \<Rightarrow> csys \<Rightarrow> csys" where
  \<comment> \<open>\<^verbatim>\<open>reindexMembers\<close> holds \<^verbatim>\<open>clusterIndexMu\<close> from here until it has published\<close>
  "reindex_read i b s =
     (if cluster s = None then goto i (indexed b) s
      else goto i (Publishing b (localAddr s) (maxClusterNodes s)) (s\<lparr>index_owner := Some i\<rparr>))"

definition reindex_publish :: "nat \<Rightarrow> bool \<Rightarrow> string \<Rightarrow> int \<Rightarrow> memberNode list \<Rightarrow> csys \<Rightarrow> csys" where
  "reindex_publish i b addr maxNodes nodes s =
     goto i (indexed b) (s\<lparr>published := reindex addr maxNodes nodes, index_owner := None\<rparr>)"

inductive cstep :: "csys \<Rightarrow> csys \<Rightarrow> bool" where
  begin_join: "c_pcs s i = JStart \<Longrightarrow> cstep s (join_begin i s)"
| create: "c_pcs s i = JCreating \<Longrightarrow> cstep s (join_create i fails s)"
| candidate: "c_pcs s i = JCandidate \<Longrightarrow> cstep s (join_candidate i e s)"
| install: "c_pcs s i = JInstalling \<Longrightarrow> cstep s (join_install i maxNodes addr s)"
| cleanup: "c_pcs s i = JFailed created \<Longrightarrow> cstep s (join_cleanup i created s)"
| unlock: "c_pcs s i = JUnlocking installed \<Longrightarrow> cstep s (join_unlock i s)"
| begin_close: "c_pcs s i = CStart \<Longrightarrow> cstep s (close_begin i s)"
| take_cluster: "c_pcs s i = CLooping \<Longrightarrow> cstep s (close_take i s)"
| wait: "\<lbrakk>c_pcs s i = CWaiting t; t \<in> closed_chans s\<rbrakk> \<Longrightarrow> cstep s (goto i CLooping s)"
| clear: "c_pcs s i = CTaken h \<Longrightarrow> cstep s (close_clear i h s)"
| shutdown: "c_pcs s i = CCleared h \<Longrightarrow> cstep s (close_shutdown i h s)"
| read_members: "\<lbrakk>c_pcs s i = Indexing b; index_owner s = None\<rbrakk> \<Longrightarrow> cstep s (reindex_read i b s)"
| publish: "c_pcs s i = Publishing b addr maxNodes \<Longrightarrow> cstep s (reindex_publish i b addr maxNodes nodes s)"

definition cstart :: "(nat \<Rightarrow> cpc) \<Rightarrow> csys" where
  "cstart ps =
     \<lparr>ctx_done = False, cluster = None, peerTransport = False, maxClusterNodes = 0, localAddr = [],
      clusterJoining = False, clusterJoinDone = None, index_owner = None,
      published = \<lparr>routes = None, clusterOverCapacity = False\<rparr>, closer = None,
      closed_chans = {}, live = {}, panicked = False, c_pcs = ps\<rparr>"

inductive creachable :: "csys \<Rightarrow> bool" where
  start: "(\<And>i. ps i \<in> {JStart, CStart, Indexing False}) \<Longrightarrow> creachable (cstart ps)"
| step: "creachable s \<Longrightarrow> cstep s t \<Longrightarrow> creachable t"


subsection \<open>Invariant\<close>

fun joining :: "cpc \<Rightarrow> bool" where
  "joining JCreating = True"
| "joining JCandidate = True"
| "joining JInstalling = True"
| "joining (JFailed _) = True"
| "joining (JUnlocking installed) = (\<not> installed)"
| "joining _ = False"

fun owns_candidate :: "cpc \<Rightarrow> bool" where
  "owns_candidate JCandidate = True"
| "owns_candidate JInstalling = True"
| "owns_candidate (JFailed created) = created"
| "owns_candidate _ = False"

fun closing :: "cpc \<Rightarrow> bool" where
  "closing CLooping = True"
| "closing (CWaiting _) = True"
| "closing (CTaken _) = True"
| "closing (CCleared _) = True"
| "closing CReturned = True"
| "closing _ = False"

fun taken :: "cpc \<Rightarrow> bool" where
  "taken (CTaken _) = True"
| "taken (CCleared _) = True"
| "taken CReturned = True"
| "taken _ = False"

fun holds_handle :: "cpc \<Rightarrow> nat option" where
  "holds_handle (CTaken h) = h"
| "holds_handle (CCleared h) = h"
| "holds_handle _ = None"

definition join_inv :: "csys \<Rightarrow> bool" where
  "join_inv s \<longleftrightarrow> \<not> panicked s \<and> (clusterJoining s \<longleftrightarrow> clusterJoinDone s \<noteq> None) \<and>
     (clusterJoinDone s \<noteq> None \<longrightarrow> cluster s = None) \<and>
     (\<forall>i. clusterJoinDone s = Some i \<longleftrightarrow> joining (c_pcs s i)) \<and>
     (\<forall>i. i \<in> closed_chans s \<longrightarrow> c_pcs s i \<noteq> JStart \<and> \<not> joining (c_pcs s i))"

definition closer_ok :: "csys \<Rightarrow> nat \<Rightarrow> cpc \<Rightarrow> bool" where
  "closer_ok s i p \<longleftrightarrow> (closing p \<longrightarrow> ctx_done s \<and> closer s = Some i) \<and>
     (taken p \<longrightarrow> cluster s = None \<and> clusterJoinDone s = None) \<and>
     (\<forall>t. p = CWaiting t \<longrightarrow> t \<in> closed_chans s \<or> clusterJoinDone s = Some t)"

definition close_inv :: "csys \<Rightarrow> bool" where
  "close_inv s \<longleftrightarrow> (\<forall>i. closer_ok s i (c_pcs s i))"

definition owned :: "(nat \<Rightarrow> cpc) \<Rightarrow> nat option \<Rightarrow> nat \<Rightarrow> bool" where
  \<comment> \<open>some goroutine or the proxy is responsible for shutting the member list down\<close>
  "owned f c h \<longleftrightarrow> owns_candidate (f h) \<or> c = Some h \<or> (\<exists>j. holds_handle (f j) = Some h)"

definition live_inv :: "csys \<Rightarrow> bool" where
  "live_inv s \<longleftrightarrow> (\<forall>h \<in> live s. owned (c_pcs s) (cluster s) h)"

lemmas csections = join_begin_def join_create_def join_candidate_def join_install_def join_cleanup_def join_unlock_def
  close_begin_def close_take_def close_clear_def close_shutdown_def reindex_read_def reindex_publish_def indexed_def
  goto_def close_chan_def

lemma join_inv_step: "cstep s t \<Longrightarrow> join_inv s \<Longrightarrow> join_inv t"
  by (induction rule: cstep.induct)
    (auto simp: join_inv_def csections split: option.splits, (metis joining.simps(3,5))+)

lemma close_inv_goto:
  assumes "close_inv s" "c_pcs t = (c_pcs s)(i := c_pcs t i)"
    and "closer_ok s i (c_pcs s i) \<Longrightarrow> closer_ok t i (c_pcs t i)"
    and "\<And>j p. j \<noteq> i \<Longrightarrow> closer_ok s i (c_pcs s i) \<Longrightarrow> closer_ok s j p \<Longrightarrow> closer_ok t j p"
  shows "close_inv t"
  unfolding close_inv_def
proof
  fix j
  have "closer_ok s i (c_pcs s i)" "closer_ok s j (c_pcs s j)" using assms(1) by (simp_all add: close_inv_def)
  thus "closer_ok t j (c_pcs t j)" using assms(2-4) by (metis fun_upd_other)
qed

lemma taken_closing: "taken p \<Longrightarrow> closing p"
  by (cases p) auto

lemma close_inv_step: "cstep s t \<Longrightarrow> join_inv s \<Longrightarrow> close_inv s \<Longrightarrow> close_inv t"
proof (induction rule: cstep.induct)
  case (begin_join s i)
  show ?case by (rule close_inv_goto [where s = s and i = i]) (use begin_join in \<open>auto simp: csections closer_ok_def split: option.splits dest: taken_closing\<close>)
next
  case (create s i fails)
  show ?case by (rule close_inv_goto [where s = s and i = i]) (use create in \<open>auto simp: csections closer_ok_def split: option.splits dest: taken_closing\<close>)
next
  case (candidate s i e)
  show ?case by (rule close_inv_goto [where s = s and i = i]) (use candidate in \<open>auto simp: csections closer_ok_def split: option.splits dest: taken_closing\<close>)
next
  case (install s i maxNodes addr)
  show ?case by (rule close_inv_goto [where s = s and i = i]) (use install in \<open>auto simp: csections closer_ok_def split: option.splits dest: taken_closing\<close>)
next
  case (cleanup s i created)
  show ?case by (rule close_inv_goto [where s = s and i = i]) (use cleanup in \<open>auto simp: csections closer_ok_def split: option.splits dest: taken_closing\<close>)
next
  case (unlock s i installed)
  show ?case by (rule close_inv_goto [where s = s and i = i]) (use unlock in \<open>auto simp: csections closer_ok_def split: option.splits dest: taken_closing\<close>)
next
  case (begin_close s i)
  show ?case by (rule close_inv_goto [where s = s and i = i]) (use begin_close in \<open>auto simp: csections closer_ok_def split: option.splits dest: taken_closing\<close>)
next
  case (take_cluster s i)
  show ?case by (rule close_inv_goto [where s = s and i = i]) (use take_cluster in \<open>auto simp: csections closer_ok_def split: option.splits dest: taken_closing\<close>)
next
  case (wait s i t)
  show ?case by (rule close_inv_goto [where s = s and i = i]) (use wait in \<open>auto simp: csections closer_ok_def split: option.splits dest: taken_closing\<close>)
next
  case (clear s i h)
  show ?case by (rule close_inv_goto [where s = s and i = i]) (use clear in \<open>auto simp: csections closer_ok_def split: option.splits dest: taken_closing\<close>)
next
  case (shutdown s i h)
  show ?case by (rule close_inv_goto [where s = s and i = i]) (use shutdown in \<open>auto simp: csections closer_ok_def split: option.splits dest: taken_closing\<close>)
next
  case (read_members s i b)
  show ?case by (rule close_inv_goto [where s = s and i = i]) (use read_members in \<open>auto simp: csections closer_ok_def split: option.splits dest: taken_closing\<close>)
next
  case (publish s i b addr maxNodes nodes)
  show ?case by (rule close_inv_goto [where s = s and i = i]) (use publish in \<open>auto simp: csections closer_ok_def split: option.splits dest: taken_closing\<close>)
qed

lemma owned_upd:
  assumes "owned f c h" "owns_candidate (f i) \<longrightarrow> owns_candidate p \<or> h \<noteq> i"
    and "holds_handle (f i) = None \<or> holds_handle p = holds_handle (f i)"
  shows "owned (f(i := p)) c h"
proof -
  consider "owns_candidate (f h)" | "c = Some h" | j where "holds_handle (f j) = Some h"
    using assms(1) by (auto simp: owned_def)
  thus ?thesis
  proof cases
    case 1
    thus ?thesis using assms(2) by (cases "h = i") (auto simp: owned_def)
  next
    case 2
    thus ?thesis by (simp add: owned_def)
  next
    case (3 j)
    hence "holds_handle ((f(i := p)) j) = Some h" using assms(3) by auto
    thus ?thesis unfolding owned_def by blast
  qed
qed

lemma owned_any: "owned f None h \<Longrightarrow> owned f c h"
  by (auto simp: owned_def)

lemma live_inv_goto:
  assumes "live_inv s" "live t \<subseteq> live s" "cluster t = cluster s" "c_pcs t = (c_pcs s)(i := c_pcs t i)"
    and "owns_candidate (c_pcs s i) \<longrightarrow> owns_candidate (c_pcs t i) \<or> i \<notin> live t"
    and "holds_handle (c_pcs s i) = None \<or> holds_handle (c_pcs t i) = holds_handle (c_pcs s i)"
  shows "live_inv t"
  unfolding live_inv_def
proof
  fix h assume h: "h \<in> live t"
  hence "owned (c_pcs s) (cluster s) h" using assms(1,2) by (auto simp: live_inv_def)
  hence "owned ((c_pcs s)(i := c_pcs t i)) (cluster s) h" by (rule owned_upd) (use h assms(5,6) in auto)
  thus "owned (c_pcs t) (cluster t) h" using assms(3,4) by simp
qed

lemma live_inv_owned:
  assumes "live_inv s" "\<And>h. h \<in> live t \<Longrightarrow> h \<notin> live s \<Longrightarrow> owned (c_pcs t) (cluster t) h"
    and "\<And>h. h \<in> live t \<Longrightarrow> owned (c_pcs s) (cluster s) h \<Longrightarrow> owned (c_pcs t) (cluster t) h"
  shows "live_inv t"
  using assms unfolding live_inv_def by blast

lemma live_inv_create:
  assumes "c_pcs s i = JCreating" "live_inv s"
  shows "live_inv (join_create i False s)"
proof -
  have "owned ((c_pcs s)(i := JCandidate)) (cluster s) i" by (simp add: owned_def)
  moreover have "owned ((c_pcs s)(i := JCandidate)) (cluster s) h" if "owned (c_pcs s) (cluster s) h" for h
    by (rule owned_upd [OF that]) (use assms(1) in simp_all)
  ultimately show ?thesis by (intro live_inv_owned [OF assms(2)]) (auto simp: csections)
qed

lemma live_inv_install:
  assumes "c_pcs s i = JInstalling" "join_inv s" "live_inv s" "\<not> ctx_done s"
  shows "live_inv (join_install i maxNodes addr s)"
proof -
  have "joining (c_pcs s i)" using assms(1) by simp
  hence "clusterJoinDone s = Some i" using assms(2) unfolding join_inv_def by blast
  hence none: "cluster s = None" using assms(2) by (simp add: join_inv_def)
  have "owned ((c_pcs s)(i := Indexing True)) (Some i) h" if o: "owned (c_pcs s) (cluster s) h" for h
  proof (cases "h = i")
    case False
    have "owned ((c_pcs s)(i := Indexing True)) (cluster s) h" by (rule owned_upd [OF o]) (use assms(1) False in simp_all)
    thus ?thesis using none by (simp add: owned_any)
  qed (simp add: owned_def)
  thus ?thesis using assms(4) by (intro live_inv_owned [OF assms(3)]) (auto simp: csections)
qed

lemma live_inv_take:
  assumes "c_pcs s i = CLooping" "live_inv s" "clusterJoinDone s = None"
  shows "live_inv (close_take i s)"
proof -
  have "owned ((c_pcs s)(i := CTaken (cluster s))) None h" if "owned (c_pcs s) (cluster s) h" for h
  proof (cases "cluster s = Some h")
    case True
    hence "holds_handle (((c_pcs s)(i := CTaken (cluster s))) i) = Some h" by simp
    thus ?thesis unfolding owned_def by blast
  next
    case False
    hence "owned (c_pcs s) None h" using that by (simp add: owned_def)
    thus ?thesis by (rule owned_upd) (use assms(1) in simp_all)
  qed
  thus ?thesis using assms(3) by (intro live_inv_owned [OF assms(2)]) (auto simp: csections)
qed

lemma live_inv_shutdown:
  assumes "c_pcs s i = CCleared h" "live_inv s"
  shows "live_inv (close_shutdown i h s)"
proof -
  have "owned ((c_pcs s)(i := CReturned)) (cluster s) n" if o: "owned (c_pcs s) (cluster s) n" "h \<noteq> Some n" for n
  proof -
    consider "owns_candidate (c_pcs s n)" | "cluster s = Some n" | j where "holds_handle (c_pcs s j) = Some n"
      using o(1) by (auto simp: owned_def)
    thus ?thesis
    proof cases
      case (3 j)
      hence "holds_handle (((c_pcs s)(i := CReturned)) j) = Some n" using assms(1) o(2) by auto
      thus ?thesis unfolding owned_def by blast
    qed (use assms(1) in \<open>auto simp: owned_def\<close>)
  qed
  thus ?thesis by (intro live_inv_owned [OF assms(2)]) (auto simp: csections split: option.splits)
qed

lemma live_inv_step: "cstep s t \<Longrightarrow> join_inv s \<Longrightarrow> close_inv s \<Longrightarrow> live_inv s \<Longrightarrow> live_inv t"
proof (induction rule: cstep.induct)
  case (create s i fails)
  show ?case by (cases fails) (rule live_inv_goto [of s _ i], use create live_inv_create in \<open>auto simp: csections\<close>)
next
  case (install s i maxNodes addr)
  show ?case by (cases "ctx_done s") (rule live_inv_goto [of s _ i], use install live_inv_install in \<open>auto simp: csections\<close>)
next
  case (take_cluster s i)
  show ?case by (cases "clusterJoinDone s") (use take_cluster live_inv_take in simp, rule live_inv_goto [of s _ i],
    use take_cluster in \<open>auto simp: csections\<close>)
next
  case (shutdown s i h)
  thus ?case using live_inv_shutdown by blast
next
  case (begin_join s i)
  show ?case by (rule live_inv_goto [of s _ i]) (use begin_join in \<open>auto simp: csections split: option.split\<close>)
next
  case (candidate s i e)
  show ?case by (rule live_inv_goto [of s _ i]) (use candidate in \<open>auto simp: csections split: option.split\<close>)
next
  case (cleanup s i created)
  show ?case by (rule live_inv_goto [of s _ i]) (use cleanup in \<open>auto simp: csections split: option.split\<close>)
next
  case (unlock s i installed)
  show ?case by (rule live_inv_goto [of s _ i]) (use unlock in \<open>auto simp: csections split: option.split\<close>)
next
  case (begin_close s i)
  show ?case by (rule live_inv_goto [of s _ i]) (use begin_close in \<open>auto simp: csections split: option.split\<close>)
next
  case (wait s i t)
  show ?case by (rule live_inv_goto [of s _ i]) (use wait in \<open>auto simp: csections split: option.split\<close>)
next
  case (clear s i h)
  show ?case by (rule live_inv_goto [of s _ i]) (use clear in \<open>auto simp: csections split: option.split\<close>)
next
  case (read_members s i b)
  show ?case by (rule live_inv_goto [of s _ i]) (use read_members in \<open>auto simp: csections split: option.split\<close>)
next
  case (publish s i b addr maxNodes nodes)
  show ?case by (rule live_inv_goto [of s _ i]) (use publish in \<open>auto simp: csections split: option.split\<close>)
qed

lemma creachable_inv: "creachable s \<Longrightarrow> join_inv s \<and> close_inv s \<and> live_inv s"
proof (induction rule: creachable.induct)
  case (start ps)
  have "\<not> joining (ps i) \<and> \<not> closing (ps i) \<and> \<not> taken (ps i) \<and> ps i \<noteq> CWaiting t" for i t
    using start [of i] by auto
  thus ?case by (simp add: join_inv_def close_inv_def live_inv_def cstart_def closer_ok_def)
next
  case (step s t)
  thus ?case using join_inv_step close_inv_step live_inv_step by blast
qed


subsection \<open>Properties\<close>

text \<open>
  Closing is safe against joining, however \<open>JoinCluster\<close>, \<open>Close\<close> and the callbacks of the member list interleave:
  no channel is closed twice, and once \<open>closeCluster\<close> has returned the proxy holds no cluster and not a
  single member list that was ever created is still alive, nor will one come alive later.
\<close>

theorem close_leaves_nothing_alive:
  assumes "creachable s"
  shows "\<not> panicked s \<and> (c_pcs s i = CReturned \<longrightarrow> live s = {} \<and> cluster s = None \<and> \<not> clusterJoining s)"
proof -
  have inv: "join_inv s" "close_inv s" "live_inv s" using creachable_inv [OF assms] by auto
  have "live s = {} \<and> cluster s = None \<and> \<not> clusterJoining s" if r: "c_pcs s i = CReturned"
  proof -
    have ci: "closer_ok s i CReturned" using inv(2) r by (metis close_inv_def)
    hence c: "cluster s = None" "clusterJoinDone s = None" "closer s = Some i" by (auto simp: closer_ok_def)
    have nj: "\<not> joining (c_pcs s h)" for h using inv(1) c(2) by (auto simp: join_inv_def)
    have "\<not> owns_candidate (c_pcs s h)" for h using nj [of h] by (cases "c_pcs s h") auto
    moreover have "holds_handle (c_pcs s j) \<noteq> Some h" for j h
    proof
      assume "holds_handle (c_pcs s j) = Some h"
      hence "closing (c_pcs s j)" "j \<noteq> i" using r by (cases "c_pcs s j"; auto)+
      thus False using inv(2) c(3) by (auto simp: close_inv_def closer_ok_def)
    qed
    ultimately have "live s = {}" using inv(3) c(1) by (auto simp: live_inv_def owned_def)
    thus ?thesis using c inv(1) by (simp add: join_inv_def)
  qed
  thus ?thesis using inv(1) by (simp add: join_inv_def)
qed

definition example_pcs :: "nat \<Rightarrow> cpc" where
  \<comment> \<open>goroutine 0 joins, 1 closes, the others are callbacks of the member list\<close>
  "example_pcs = (\<lambda>_. Indexing False)(0 := JStart, 1 := CStart)"

definition example_join :: csys where
  "example_join =
     join_install 0 2 ''a'' (join_candidate 0 None (join_create 0 False (join_begin 0 (cstart example_pcs))))"

lemma example_join_reachable: "creachable example_join"
proof -
  have "creachable (cstart example_pcs)" by (rule creachable.start) (simp add: example_pcs_def)
  hence "creachable (join_begin 0 (cstart example_pcs))"
    by (rule creachable.step) (rule begin_join, simp add: cstart_def example_pcs_def)
  hence "creachable (join_create 0 False (join_begin 0 (cstart example_pcs)))"
    by (rule creachable.step) (rule create, simp add: csections cstart_def example_pcs_def)
  hence "creachable (join_candidate 0 None (join_create 0 False (join_begin 0 (cstart example_pcs))))"
    by (rule creachable.step) (rule candidate, simp add: csections cstart_def example_pcs_def)
  thus ?thesis unfolding example_join_def
    by (rule creachable.step) (rule install, simp add: csections cstart_def example_pcs_def)
qed

definition example_closed :: csys where
  \<comment> \<open>goroutine 2 reads the cluster before the close, and publishes after it\<close>
  "example_closed =
     reindex_publish 2 False ''a'' 2 []
       (close_shutdown 1 (Some 0) (close_clear 1 (Some 0) (close_take 1 (close_begin 1 (reindex_read 2 False example_join)))))"

lemmas example_run = csections cstart_def example_pcs_def example_join_def

lemma example_closed_reachable: "creachable example_closed"
proof -
  have "creachable (reindex_read 2 False example_join)"
    by (rule creachable.step [OF example_join_reachable]) (rule read_members, simp_all add: example_run)
  hence "creachable (close_begin 1 (reindex_read 2 False example_join))"
    by (rule creachable.step) (rule begin_close, simp add: example_run)
  hence "creachable (close_take 1 (close_begin 1 (reindex_read 2 False example_join)))"
    by (rule creachable.step) (rule take_cluster, simp add: example_run)
  hence "creachable (close_clear 1 (Some 0) (close_take 1 (close_begin 1 (reindex_read 2 False example_join))))"
    by (rule creachable.step) (rule clear, simp add: example_run)
  hence "creachable (close_shutdown 1 (Some 0) (close_clear 1 (Some 0)
      (close_take 1 (close_begin 1 (reindex_read 2 False example_join)))))"
    by (rule creachable.step) (rule shutdown, simp add: example_run)
  thus ?thesis unfolding example_closed_def
    by (rule creachable.step) (rule publish, simp add: example_run)
qed

text \<open>
  \<^verbatim>\<open>closeCluster\<close> clears the published routes, but does not take \<^verbatim>\<open>clusterIndexMu\<close>: a \<^verbatim>\<open>reindexMembers\<close> that
  read the cluster before can publish its table again afterwards, and the proxy keeps it for good. It is harmless as
  long as a closed proxy refuses every request before it looks at the table.
\<close>

theorem routes_survive_close: "\<exists>s i. creachable s \<and> c_pcs s i = CReturned \<and> routes (published s) \<noteq> None"
proof (intro exI conjI)
  show "creachable example_closed" by (rule example_closed_reachable)
  show "c_pcs example_closed 1 = CReturned"
    by (simp add: example_closed_def reindex_publish_def close_shutdown_def goto_def)
  show "routes (published example_closed) \<noteq> None"
    by (simp add: example_closed_def reindex_publish_def goto_def reindex_def)
qed

lemma joiner_finishes:
  assumes "joining (c_pcs s t)" "clusterJoinDone s = Some t"
  shows "\<exists>s'. cstep\<^sup>*\<^sup>* s s' \<and> t \<in> closed_chans s' \<and> clusterJoinDone s' = None \<and> (\<forall>i. i \<noteq> t \<longrightarrow> c_pcs s' i = c_pcs s i)"
    (is "?P s")
proof -
  have via: "?P s" if "cstep s u" "?P u" "\<forall>i. i \<noteq> t \<longrightarrow> c_pcs u i = c_pcs s i" for s u
    using that by (metis converse_rtranclp_into_rtranclp)
  have last: "?P s" if "cstep s u" "t \<in> closed_chans u" "clusterJoinDone u = None" "\<forall>i. i \<noteq> t \<longrightarrow> c_pcs u i = c_pcs s i" for s u
    using that by (blast intro: r_into_rtranclp)
  have unlock: "?P s" if "c_pcs s t = JUnlocking False" "clusterJoinDone s = Some t" for s
    by (rule last [OF cstep.unlock [OF that(1)]]) (use that in \<open>auto simp: csections\<close>)
  have failed: "?P s" if "c_pcs s t = JFailed b" "clusterJoinDone s = Some t" for s b
    by (rule via [OF cleanup [OF that(1)]], rule unlock) (use that in \<open>auto simp: csections\<close>)
  have installing: "?P s" if "c_pcs s t = JInstalling" "clusterJoinDone s = Some t" for s
  proof (cases "ctx_done s")
    case True
    show ?thesis
      by (rule via [OF install [OF that(1), of 0 "[]"]], rule failed [where b = True])
        (use that True in \<open>auto simp: csections\<close>)
  next
    case False
    show ?thesis
      by (rule last [OF install [OF that(1), of 0 "[]"]]) (use that False in \<open>auto simp: csections\<close>)
  qed
  have candidate: "?P s" if "c_pcs s t = JCandidate" "clusterJoinDone s = Some t" for s
    by (rule via [OF cstep.candidate [OF that(1), of None]], rule installing) (use that in \<open>auto simp: csections\<close>)
  have creating: "?P s" if "c_pcs s t = JCreating" "clusterJoinDone s = Some t" for s
    by (rule via [OF create [OF that(1), of True]], rule failed [where b = False]) (use that in \<open>auto simp: csections\<close>)
  show ?thesis using assms unlock failed installing candidate creating by (cases "c_pcs s t") auto
qed

definition returns :: "nat \<Rightarrow> csys \<Rightarrow> bool" where
  "returns i s \<longleftrightarrow> (\<exists>s'. cstep\<^sup>*\<^sup>* s s' \<and> c_pcs s' i = CReturned)"

lemma returns_steps: "cstep\<^sup>*\<^sup>* s u \<Longrightarrow> returns i u \<Longrightarrow> returns i s"
  unfolding returns_def by (meson rtranclp_trans)

lemma returns_step: "cstep s u \<Longrightarrow> returns i u \<Longrightarrow> returns i s"
  by (rule returns_steps [OF r_into_rtranclp [where r = cstep]])

lemma returns_taken: "c_pcs s i = CTaken h \<Longrightarrow> returns i s"
proof (rule returns_step [OF clear], assumption)
  have "c_pcs (close_clear i h s) i = CCleared h" by (simp add: csections)
  hence "cstep (close_clear i h s) (close_shutdown i h (close_clear i h s))" by (rule shutdown)
  thus "returns i (close_clear i h s)"
    by (rule returns_step) (auto simp: returns_def csections intro!: exI [of _ "close_shutdown i h (close_clear i h s)"])
qed

lemma returns_looping_free: "c_pcs s i = CLooping \<Longrightarrow> clusterJoinDone s = None \<Longrightarrow> returns i s"
  by (rule returns_step [OF take_cluster], assumption, rule returns_taken [where h = "cluster s"]) (simp add: csections)

lemma returns_waiting:
  assumes "c_pcs s i = CWaiting t" "clusterJoinDone s = Some t" "joining (c_pcs s t)"
  shows "returns i s"
proof -
  obtain u where u: "cstep\<^sup>*\<^sup>* s u" "t \<in> closed_chans u" "clusterJoinDone u = None" "\<forall>j. j \<noteq> t \<longrightarrow> c_pcs u j = c_pcs s j"
    using joiner_finishes [OF assms(3,2)] by blast
  have "i \<noteq> t" using assms(1,3) by auto
  hence w: "c_pcs u i = CWaiting t" using u(4) assms(1) by simp
  have "returns i (goto i CLooping u)" by (rule returns_looping_free) (simp_all add: csections u(3))
  thus ?thesis using returns_steps [OF u(1)] returns_step [OF wait [OF w u(2)]] by blast
qed

lemma returns_looping:
  assumes "join_inv s" "c_pcs s i = CLooping"
  shows "returns i s"
proof (cases "clusterJoinDone s")
  case (Some t)
  hence j: "joining (c_pcs s t)" using assms(1) by (auto simp: join_inv_def)
  hence "i \<noteq> t" using assms(2) by auto
  hence "returns i (close_take i s)" using Some j by (intro returns_waiting [where t = t]) (simp_all add: csections)
  thus ?thesis by (rule returns_step [OF take_cluster [OF assms(2)]])
qed (use assms(2) returns_looping_free in blast)

lemma closer_returns:
  assumes "join_inv s \<and> close_inv s \<and> live_inv s" "closing (c_pcs s i)"
  shows "\<exists>s'. cstep\<^sup>*\<^sup>* s s' \<and> c_pcs s' i = CReturned"
proof -
  have waiting: "returns i s" if w: "c_pcs s i = CWaiting t" for t
  proof (cases "t \<in> closed_chans s")
    case True
    have "join_inv (goto i CLooping s)" using join_inv_step [OF wait [OF w True]] assms(1) by blast
    thus ?thesis by (intro returns_step [OF wait [OF w True]] returns_looping) (simp_all add: csections)
  next
    case False
    hence "clusterJoinDone s = Some t" using assms(1) w by (metis close_inv_def closer_ok_def)
    thus ?thesis using w assms(1) by (intro returns_waiting) (auto simp: join_inv_def)
  qed
  have cleared: "returns i s" if "c_pcs s i = CCleared h" for h
    by (rule returns_step [OF shutdown [OF that]])
      (auto simp: returns_def csections intro!: exI [of _ "close_shutdown i h s"])
  have "returns i s"
    using assms waiting cleared returns_looping returns_taken [of s i] by (cases "c_pcs s i") (auto simp: returns_def)
  thus ?thesis by (simp add: returns_def)
qed

text \<open>
  Closing always gets done. From every reachable state in which \<open>closeCluster\<close> has begun, there is a way to go on
  in which it returns: the joiner whose channel it waits for, if any, still closes that channel, whether its
  member list can be created or not, and no other joiner can get in between.
\<close>

theorem closeCluster_completes:
  assumes "creachable s" "closing (c_pcs s i)"
  shows "\<exists>s'. cstep\<^sup>*\<^sup>* s s' \<and> c_pcs s' i = CReturned"
  using creachable_inv [OF assms(1)] assms(2) closer_returns by blast

end
