(* ===== verification/Go_Float.thy ===== *)
theory Go_Float
  imports Complex_Main Go_Strings Go_Encoding
begin

section \<open>Floating-point numbers of Go\<close>

text \<open>
  \<^verbatim>\<open>float64\<close> as IEEE 754 binary64 with round-to-nearest-even, the grammar and the value of
  \<^verbatim>\<open>strconv.ParseFloat\<close>, and the conversion to an integer. A finite float is its rational value: the sign of zero
  is not kept, since no comparison or conversion of the program depends on it.
\<close>

subsection \<open>Rounding\<close>

datatype float64 = Finite rat | Infinite | NaN

function floor_log2 :: "nat \<Rightarrow> nat" where
  "floor_log2 n = (if n < 2 then 0 else Suc (floor_log2 (n div 2)))"
  by pat_completeness auto
termination by (relation "measure id") auto

declare floor_log2.simps [simp del]

definition pow2 :: "int \<Rightarrow> rat" where
  "pow2 e = (if 0 \<le> e then 2 ^ nat e else 1 / 2 ^ nat (- e))"

definition float_exponent :: "rat \<Rightarrow> int" where
  \<comment> \<open>the exponent of the last of 53 bits of a positive number, or of the smallest subnormal\<close>
  "float_exponent x =
     (let (p, q) = quotient_of x;
          e = int (floor_log2 (nat p)) - int (floor_log2 (nat q)) - 53;
          e' = (if 2 ^ 53 \<le> x / pow2 e then e + 1 else e)
      in max e' (- 1074))"

definition round_half_even :: "rat \<Rightarrow> int" where
  "round_half_even x =
     (let f = \<lfloor>x\<rfloor>; d = x - of_int f
      in if d < 1 / 2 then f else if 1 / 2 < d then f + 1 else if even f then f else f + 1)"

definition round_pos :: "rat \<Rightarrow> rat" where
  "round_pos x = of_int (round_half_even (x / pow2 (float_exponent x))) * pow2 (float_exponent x)"

definition round64 :: "rat \<Rightarrow> float64" where
  "round64 x =
     (if x = 0 then Finite 0
      else let r = round_pos \<bar>x\<bar> in if 2 ^ 1024 \<le> r then Infinite else Finite (sgn x * r))"

definition float_of_int :: "int \<Rightarrow> float64" where
  "float_of_int n = round64 (of_int n)"

definition float_trunc :: "rat \<Rightarrow> int" where
  \<comment> \<open>the conversion of a float to an integer type that can hold it\<close>
  "float_trunc x = (if 0 \<le> x then \<lfloor>x\<rfloor> else - \<lfloor>- x\<rfloor>)"


subsection \<open>ParseFloat\<close>

definition mantissa_digit :: "nat \<Rightarrow> char \<Rightarrow> nat option" where
  "mantissa_digit base c =
     (case hex_value c of None \<Rightarrow> None | Some d \<Rightarrow> if d < base then Some d else None)"

fun scan_mantissa :: "nat \<Rightarrow> nat \<Rightarrow> nat \<Rightarrow> bool \<Rightarrow> bool \<Rightarrow> string \<Rightarrow> nat \<times> nat \<times> bool \<times> string" where
  \<comment> \<open>the digits read so far, how many of them follow the point, whether a point and a digit were seen\<close>
  "scan_mantissa base m fd sawdot sawdigits [] = (m, fd, sawdigits, [])"
| "scan_mantissa base m fd sawdot sawdigits (c # cs) =
     (if c = CHR ''_'' then scan_mantissa base m fd sawdot sawdigits cs
      else if c = CHR ''.'' then
        if sawdot then (m, fd, sawdigits, c # cs) else scan_mantissa base m fd True sawdigits cs
      else case mantissa_digit base c of
             None \<Rightarrow> (m, fd, sawdigits, c # cs)
           | Some d \<Rightarrow> scan_mantissa base (m * base + d) (if sawdot then fd + 1 else fd) sawdot True cs)"

fun scan_exponent :: "nat \<Rightarrow> string \<Rightarrow> nat \<times> string" where
  "scan_exponent e [] = (e, [])"
| "scan_exponent e (c # cs) =
     (if c = CHR ''_'' then scan_exponent e cs
      else if is_digit c then scan_exponent (if e < 10000 then e * 10 + digit_value c else e) cs
      else (e, c # cs))"

definition read_exponent :: "char \<Rightarrow> bool \<Rightarrow> string \<Rightarrow> (int \<times> string) option" where
  "read_exponent expChar required s =
     (case s of
        [] \<Rightarrow> if required then None else Some (0, [])
      | c # cs \<Rightarrow>
          if ascii_lower c \<noteq> expChar then if required then None else Some (0, s)
          else
            let neg = (cs \<noteq> [] \<and> hd cs = CHR ''-'');
                ds = (if cs \<noteq> [] \<and> (hd cs = CHR ''+'' \<or> hd cs = CHR ''-'') then tl cs else cs)
            in if ds = [] \<or> \<not> is_digit (hd ds) then None
               else case scan_exponent 0 ds of (e, rest) \<Rightarrow> Some (if neg then - int e else int e, rest))"

datatype underscore_state = Begin | Digit | Underscore | Other

fun underscores_from :: "bool \<Rightarrow> underscore_state \<Rightarrow> string \<Rightarrow> bool" where
  "underscores_from hex saw [] = (saw \<noteq> Underscore)"
| "underscores_from hex saw (c # cs) =
     (if is_digit c \<or> hex \<and> hex_value c \<noteq> None then underscores_from hex Digit cs
      else if c = CHR ''_'' then saw = Digit \<and> underscores_from hex Underscore cs
      else saw \<noteq> Underscore \<and> underscores_from hex Other cs)"

definition strip_sign :: "string \<Rightarrow> string" where
  "strip_sign s = (if s \<noteq> [] \<and> (hd s = CHR ''+'' \<or> hd s = CHR ''-'') then tl s else s)"

definition underscoreOK :: "string \<Rightarrow> bool" where
  "underscoreOK s =
     (let s = strip_sign s
      in if 2 \<le> length s \<and> s ! 0 = CHR ''0'' \<and> ascii_lower (s ! 1) \<in> {CHR ''b'', CHR ''o'', CHR ''x''}
         then underscores_from (ascii_lower (s ! 1) = CHR ''x'') Digit (drop 2 s)
         else underscores_from False Begin s)"

definition float_value :: "string \<Rightarrow> rat option" where
  \<comment> \<open>the exact value of a decimal or hexadecimal floating-point literal\<close>
  "float_value s =
     (let neg = (s \<noteq> [] \<and> hd s = CHR ''-'');
          t = strip_sign s;
          hex = (2 < length t \<and> t ! 0 = CHR ''0'' \<and> ascii_lower (t ! 1) = CHR ''x'');
          base = (if hex then 16 else 10)
      in case scan_mantissa base 0 0 False False (if hex then drop 2 t else t) of (m, fd, sawdigits, rest) \<Rightarrow>
           if \<not> sawdigits then None
           else case read_exponent (if hex then CHR ''p'' else CHR ''e'') hex rest of
                  None \<Rightarrow> None
                | Some (e, rest') \<Rightarrow>
                    if rest' \<noteq> [] \<or> CHR ''_'' \<in> set s \<and> \<not> underscoreOK s then None
                    else
                      let v = of_nat m / of_nat base ^ fd * (if hex then pow2 e else if 0 \<le> e then 10 ^ nat e else 1 / 10 ^ nat (- e))
                      in Some (if neg then - v else v))"

definition float_special :: "string \<Rightarrow> float64 option" where
  "float_special s =
     (if EqualFold s ''nan'' then Some NaN
      else if EqualFold (strip_sign s) ''inf'' \<or> EqualFold (strip_sign s) ''infinity'' then Some Infinite
      else None)"

definition ParseFloat :: "string \<Rightarrow> float64 option" where
  \<comment> \<open>\<open>None\<close> is an error; a number too large for a float is one\<close>
  "ParseFloat s =
     (case float_value s of
        Some v \<Rightarrow> if round64 v = Infinite then None else Some (round64 v)
      | None \<Rightarrow> float_special s)"


subsection \<open>Error of rounding\<close>

lemma pow2_pos [simp]: "0 < pow2 e"
  by (simp add: pow2_def)

lemma pow2_nat: "pow2 (int n) = 2 ^ n"
  by (simp add: pow2_def)

lemma pow2_add: "pow2 (a + b) = pow2 a * pow2 b"
proof -
  have eq: "pow2 e = 2 powi e" for e
    by (simp add: pow2_def power_int_def inverse_eq_divide power_one_over)
  show ?thesis by (simp add: eq power_int_add)
qed

lemma round_half_even_error: "\<bar>of_int (round_half_even x) - x\<bar> \<le> 1 / 2"
proof -
  have "of_int \<lfloor>x\<rfloor> \<le> x" "x < of_int \<lfloor>x\<rfloor> + 1" by linarith+
  moreover have "x - of_int \<lfloor>x\<rfloor> < 1 / 2 \<or> 1 / 2 \<le> x - of_int \<lfloor>x\<rfloor>" by linarith
  ultimately show ?thesis unfolding round_half_even_def Let_def abs_le_iff by (auto; linarith)
qed

lemma floor_log2_le: "0 < n \<Longrightarrow> 2 ^ floor_log2 n \<le> n"
proof (induction n rule: floor_log2.induct)
  case (1 n)
  show ?case
  proof (cases "n < 2")
    case True thus ?thesis using 1(2) by (simp add: floor_log2.simps [of n])
  next
    case False
    have "2 ^ floor_log2 (n div 2) \<le> n div 2" using 1 False by simp
    hence "2 * 2 ^ floor_log2 (n div 2) \<le> n" by linarith
    thus ?thesis using False by (simp add: floor_log2.simps [of n])
  qed
qed

lemma floor_log2_less: "n < 2 ^ Suc (floor_log2 n)"
proof (induction n rule: floor_log2.induct)
  case (1 n)
  show ?case
  proof (cases "n < 2")
    case False
    have "n div 2 < 2 ^ Suc (floor_log2 (n div 2))" using 1 False by simp
    hence "n < 2 * 2 ^ Suc (floor_log2 (n div 2))" by linarith
    thus ?thesis using False by (simp add: floor_log2.simps [of n])
  qed (simp add: floor_log2.simps [of n])
qed

lemma float_exponent_cases:
  assumes "0 < x"
  shows "float_exponent x = - 1074 \<or> 2 ^ 52 \<le> x / pow2 (float_exponent x)"
proof -
  obtain p q where pq: "quotient_of x = (p, q)" by (rule prod.exhaust)
  have q: "0 < q" using quotient_of_denom_pos [OF pq] .
  have x: "x = of_int p / of_int q" using quotient_of_div [OF pq] .
  have p: "0 < p" using assms q x by (simp add: zero_less_divide_iff)
  define a b where ab: "a = floor_log2 (nat p)" "b = floor_log2 (nat q)"
  define e where "e = int a - int b - 53"
  have "of_nat (2 ^ a) \<le> (of_nat (nat p) :: rat)"
    unfolding ab using p by (intro of_nat_mono floor_log2_le) simp
  moreover have "of_nat (nat q) \<le> (of_nat (2 ^ Suc b) :: rat)"
    unfolding of_nat_le_iff ab using floor_log2_less [of "nat q"] by simp
  ultimately have pq': "(2 :: rat) ^ a \<le> of_int p" "of_int q \<le> (2 :: rat) ^ Suc b" using p q by simp_all
  have "pow2 (int a - int b - 1) * pow2 (int (Suc b)) = pow2 (int a)" by (simp flip: pow2_add)
  hence "pow2 (int a - int b - 1) * 2 ^ Suc b = 2 ^ a" by (simp only: pow2_nat)
  hence "pow2 (int a - int b - 1) * of_int q \<le> of_int p"
    using pq'(1) mult_left_mono [OF pq'(2) less_imp_le [OF pow2_pos [of "int a - int b - 1"]]] by linarith
  hence "pow2 (int a - int b - 1) \<le> x" using q x by (simp add: pos_le_divide_eq)
  moreover have "pow2 (int a - int b - 1) = 2 ^ 52 * pow2 e" using pow2_add [of 52 e] by (simp add: e_def pow2_def [of 52])
  ultimately have n: "2 ^ 52 \<le> x / pow2 e" by (simp add: pos_le_divide_eq)
  define e' where "e' = (if 2 ^ 53 \<le> x / pow2 e then e + 1 else e)"
  have half: "x / pow2 (e + 1) = x / pow2 e / 2" using pow2_add [of e 1] by (simp add: pow2_def [of 1])
  have "2 ^ 52 \<le> x / pow2 e'"
  proof (cases "2 ^ 53 \<le> x / pow2 e")
    case True
    moreover have "2 ^ 53 \<le> y \<Longrightarrow> 2 ^ 52 \<le> y / 2" for y :: rat by simp
    ultimately have "2 ^ 52 \<le> x / pow2 e / 2" by blast
    thus ?thesis using True by (simp only: e'_def half if_True)
  qed (use n in \<open>simp add: e'_def\<close>)
  moreover have "float_exponent x = max e' (- 1074)"
    by (simp add: float_exponent_def pq Let_def e'_def e_def ab)
  ultimately show ?thesis by (auto simp: max_def)
qed

lemma round_pos_error:
  assumes "0 < x"
  shows "\<bar>round_pos x - x\<bar> \<le> x / 2 ^ 53 + pow2 (- 1075)"
proof -
  define e where "e = float_exponent x"
  have "\<bar>of_int (round_half_even (x / pow2 e)) - x / pow2 e\<bar> * pow2 e \<le> 1 / 2 * pow2 e"
    by (intro mult_right_mono round_half_even_error) (simp add: less_imp_le)
  moreover have "\<bar>of_int (round_half_even (x / pow2 e)) - x / pow2 e\<bar> * pow2 e = \<bar>round_pos x - x\<bar>"
  proof -
    have "round_pos x - x = (of_int (round_half_even (x / pow2 e)) - x / pow2 e) * pow2 e"
      using pow2_pos [of e] by (simp add: round_pos_def e_def [symmetric] left_diff_distrib less_imp_neq [symmetric])
    thus ?thesis using pow2_pos [of e] by (simp only: abs_mult abs_of_pos)
  qed
  ultimately have r: "\<bar>round_pos x - x\<bar> \<le> pow2 e / 2" by simp
  from float_exponent_cases [OF assms] show ?thesis
  proof
    assume "float_exponent x = - 1074"
    hence "pow2 e / 2 = pow2 (- 1075)" using pow2_add [of "-1075" 1] by (simp add: e_def pow2_def [of 1])
    moreover have "0 \<le> x / 2 ^ 53" using assms by simp
    ultimately show ?thesis using r by linarith
  next
    assume "2 ^ 52 \<le> x / pow2 (float_exponent x)"
    hence "pow2 e / 2 \<le> x / 2 ^ 53" by (simp add: e_def pos_le_divide_eq field_simps)
    thus ?thesis using r pow2_pos [of "-1075"] by linarith
  qed
qed

lemma round_pos_nonneg:
  assumes "0 < x"
  shows "0 \<le> round_pos x"
proof -
  have n: "0 \<le> round_half_even y" if "0 \<le> y" for y using that by (auto simp: round_half_even_def Let_def)
  have "0 \<le> x / pow2 (float_exponent x)" using assms by (intro divide_nonneg_pos) simp_all
  hence "0 \<le> (of_int (round_half_even (x / pow2 (float_exponent x))) :: rat)" using n by simp
  thus ?thesis unfolding round_pos_def by (rule mult_nonneg_nonneg) (rule less_imp_le [OF pow2_pos])
qed

end
