(* ===== verification/Go_Http.thy ===== *)
theory Go_Http
  imports Go_Strings
begin

section \<open>HTTP headers of the Go standard library\<close>

text \<open>
  A \<^verbatim>\<open>http.Header\<close> maps canonical names to lists of values. \<^verbatim>\<open>Get\<close>, \<^verbatim>\<open>Values\<close>, \<^verbatim>\<open>Set\<close> and
  \<^verbatim>\<open>Del\<close> canonicalise the name they are given; the status codes are those of \<^verbatim>\<open>net/http\<close>.
\<close>

type_synonym header = "(string, string list) gomap"

definition ascii_upper :: "char \<Rightarrow> char" where
  "ascii_upper c = (if 97 \<le> (of_char c :: nat) \<and> of_char c \<le> (122 :: nat) then char_of (of_char c - 32 :: nat) else c)"

fun canonical_from :: "bool \<Rightarrow> string \<Rightarrow> string" where
  "canonical_from up [] = []"
| "canonical_from up (c # cs) = (if up then ascii_upper c else ascii_lower c) # canonical_from (c = CHR ''-'') cs"

definition is_tchar :: "char \<Rightarrow> bool" where
  \<comment> \<open>the characters of a header name\<close>
  "is_tchar c \<longleftrightarrow> (let n = of_char c :: nat in
     48 \<le> n \<and> n \<le> 57 \<or> 65 \<le> n \<and> n \<le> 90 \<or> 97 \<le> n \<and> n \<le> 122 \<or>
     n \<in> {33, 35, 36, 37, 38, 39, 42, 43, 45, 46, 94, 95, 96, 124, 126})"

definition CanonicalHeaderKey :: "string \<Rightarrow> string" where
  \<comment> \<open>a text that is no header name is left as it is\<close>
  "CanonicalHeaderKey s = (if list_all is_tchar s then canonical_from True s else s)"

definition header_Values :: "header \<Rightarrow> string \<Rightarrow> string list" where
  "header_Values h k = (case map_of h (CanonicalHeaderKey k) of None \<Rightarrow> [] | Some vs \<Rightarrow> vs)"

definition header_Get :: "header \<Rightarrow> string \<Rightarrow> string" where
  "header_Get h k = (case header_Values h k of [] \<Rightarrow> [] | v # _ \<Rightarrow> v)"

definition header_Set :: "header \<Rightarrow> string \<Rightarrow> string \<Rightarrow> header" where
  "header_Set h k v = AList.update (CanonicalHeaderKey k) [v] h"

definition header_Del :: "header \<Rightarrow> string \<Rightarrow> header" where
  "header_Del h k = AList.delete (CanonicalHeaderKey k) h"

definition StatusOK :: nat where "StatusOK = 200"
definition StatusBadRequest :: nat where "StatusBadRequest = 400"
definition StatusUnauthorized :: nat where "StatusUnauthorized = 401"
definition StatusForbidden :: nat where "StatusForbidden = 403"
definition StatusNotFound :: nat where "StatusNotFound = 404"
definition StatusRequestTimeout :: nat where "StatusRequestTimeout = 408"
definition StatusTooManyRequests :: nat where "StatusTooManyRequests = 429"
definition StatusBadGateway :: nat where "StatusBadGateway = 502"
definition StatusServiceUnavailable :: nat where "StatusServiceUnavailable = 503"
definition StatusGatewayTimeout :: nat where "StatusGatewayTimeout = 504"

lemmas status_defs = StatusOK_def StatusBadRequest_def StatusUnauthorized_def StatusForbidden_def StatusNotFound_def
  StatusRequestTimeout_def StatusTooManyRequests_def StatusBadGateway_def StatusServiceUnavailable_def
  StatusGatewayTimeout_def

lemma header_Values_Set [simp]:
  "header_Values (header_Set h k v) k' = (if CanonicalHeaderKey k' = CanonicalHeaderKey k then [v] else header_Values h k')"
  by (simp add: header_Values_def header_Set_def)

lemma header_Get_Set [simp]:
  "header_Get (header_Set h k v) k' = (if CanonicalHeaderKey k' = CanonicalHeaderKey k then v else header_Get h k')"
  by (simp add: header_Get_def)

lemma header_Get_Del [simp]:
  "header_Get (header_Del h k) k' = (if CanonicalHeaderKey k' = CanonicalHeaderKey k then [] else header_Get h k')"
  by (simp add: header_Get_def header_Values_def header_Del_def)

lemmas header_eval = header_Get_def header_Values_def CanonicalHeaderKey_def is_tchar_def ascii_upper_def ascii_lower_def

end
