(* ===== verification/Headers.thy ===== *)
theory Headers
  imports Client Guard Go_Float Go_Http
begin

section \<open>Rate-limit headers\<close>

text \<open>
  \<^verbatim>\<open>parseRateLimitHeaders\<close>, \<^verbatim>\<open>invalidDiscordResponse\<close> and \<^verbatim>\<open>clientState.observeResponse\<close> of
  \<^verbatim>\<open>internal/proxy/ratelimit.go\<close>: what the proxy learns from a response of Discord. Delays are parsed as
  floats, so the theorem about them accounts for every rounding.
\<close>

subsection \<open>Parsing\<close>

definition rateLimitHeaderSlack :: duration where [time_defs]: "rateLimitHeaderSlack = 5 * Millisecond"
definition maximumRateLimitDelay :: duration where [time_defs]: "maximumRateLimitDelay = 24 * Hour"

record rateLimitInfo =
  ri_bucket :: string
  ri_scope :: string
  ri_remaining :: int
  ri_resetAfter :: duration
  ri_global :: bool

datatype header_error = MissingHeaders | BadRemaining | BadReset | BadResetAt

definition seconds_duration :: "rat \<Rightarrow> duration" where
  \<comment> \<open>a delay of so many seconds, capped\<close>
  "seconds_duration seconds =
     (if 86400 \<le> seconds then maximumRateLimitDelay
      else case round64 (seconds * 1000000000) of Finite d \<Rightarrow> float_trunc d | _ \<Rightarrow> maximumRateLimitDelay)"

definition seconds_until :: "rat \<Rightarrow> time \<Rightarrow> rat" where
  \<comment> \<open>\<^verbatim>\<open>remainingSeconds\<close>\<close>
  "seconds_until seconds now =
     (case float_of_int now of
        Finite n \<Rightarrow>
          (case round64 (n / 1000000000) of
             Finite s \<Rightarrow> (case round64 (seconds - s) of Finite r \<Rightarrow> r | _ \<Rightarrow> seconds - s)
           | _ \<Rightarrow> 0)
      | _ \<Rightarrow> 0)"

definition header_reset :: "header \<Rightarrow> nat \<Rightarrow> time \<Rightarrow> header_error + duration" where
  "header_reset h statusCode now =
     (let resetValue =
            (if statusCode = StatusTooManyRequests \<and> header_Get h ''Retry-After'' \<noteq> [] then header_Get h ''Retry-After''
             else header_Get h ''X-RateLimit-Reset-After'');
          resetAt = header_Get h ''X-RateLimit-Reset''
      in if resetValue \<noteq> [] then
           (case ParseFloat resetValue of
              Some (Finite seconds) \<Rightarrow> if seconds < 0 then Inl BadReset else Inr (seconds_duration seconds)
            | _ \<Rightarrow> Inl BadReset)
         else if resetAt \<noteq> [] then
           (case ParseFloat resetAt of
              Some (Finite seconds) \<Rightarrow>
                Inr (if seconds_until seconds now \<le> 0 then 0 else seconds_duration (seconds_until seconds now))
            | _ \<Rightarrow> Inl BadResetAt)
         else Inr 0)"

definition no_info :: rateLimitInfo where
  "no_info = \<lparr>ri_bucket = [], ri_scope = [], ri_remaining = - 1, ri_resetAfter = 0, ri_global = False\<rparr>"

definition header_remaining :: "header \<Rightarrow> int option" where
  "header_remaining h =
     (let value = header_Get h ''X-RateLimit-Remaining''
      in if value = [] then Some (- 1)
         else case ParseInt value 32 of None \<Rightarrow> None | Some r \<Rightarrow> if r < 0 then None else Some r)"

definition parseRateLimitHeaders :: "header option \<Rightarrow> nat \<Rightarrow> time \<Rightarrow> rateLimitInfo \<times> header_error option" where
  "parseRateLimitHeaders hdr statusCode now =
     (case hdr of
        None \<Rightarrow> (no_info, Some MissingHeaders)
      | Some h \<Rightarrow>
          if header_Get h ''X-RateLimit-Bucket'' = [] \<and> header_Get h ''X-RateLimit-Remaining'' = [] \<and>
             header_Get h ''X-RateLimit-Reset-After'' = [] \<and> header_Get h ''Retry-After'' = [] \<and>
             header_Get h ''X-RateLimit-Global'' = [] \<and> header_Get h ''X-RateLimit-Scope'' = []
          then (no_info, None)
          else
            let scope = ToLower (header_Get h ''X-RateLimit-Scope'');
                info = no_info\<lparr>ri_bucket := header_Get h ''X-RateLimit-Bucket'', ri_scope := scope,
                  ri_global := (EqualFold (header_Get h ''X-RateLimit-Global'') ''true'' \<or> scope = ''global'')\<rparr>
            in case header_remaining h of
                 None \<Rightarrow> (info, Some BadRemaining)
               | Some remaining \<Rightarrow>
                   (case header_reset h statusCode now of
                      Inl e \<Rightarrow> (info\<lparr>ri_remaining := remaining\<rparr>, Some e)
                    | Inr resetAfter \<Rightarrow>
                        (info\<lparr>ri_remaining := remaining,
                           ri_resetAfter :=
                             (if (remaining = 0 \<or> statusCode = StatusTooManyRequests) \<and> 0 < resetAfter
                              then resetAfter + rateLimitHeaderSlack else resetAfter)\<rparr>, None)))"

definition invalidDiscordResponse :: "nat \<Rightarrow> header \<Rightarrow> bool" where
  "invalidDiscordResponse statusCode h =
     (if statusCode = StatusTooManyRequests then \<not> EqualFold (header_Get h ''X-RateLimit-Scope'') ''shared''
      else statusCode = StatusUnauthorized \<or> statusCode = StatusForbidden)"


subsection \<open>Observing a response\<close>

record observe_times =
  at_parse :: time
  at_global :: time
  at_bucket :: time

definition block_bucket :: "world \<Rightarrow> nat \<Rightarrow> time \<Rightarrow> world" where
  "block_bucket w r t = w\<lparr>heap := (heap w)[r := blockUntil (heap w ! r) t]\<rparr>"

definition block_global :: "clientState \<Rightarrow> duration \<Rightarrow> time \<Rightarrow> clientState" where
  "block_global s d now = s\<lparr>c_global := blockFor (c_global s) d now\<rparr>"

definition note_invalid :: "clientState \<Rightarrow> nat \<Rightarrow> bool \<Rightarrow> bool \<Rightarrow> clientState" where
  \<comment> \<open>the first section of \<^verbatim>\<open>observeResponse\<close>\<close>
  "note_invalid s statusCode interaction disable401Lock =
     (if statusCode = StatusUnauthorized \<and> \<not> interaction \<and> kind (c_identity s) \<noteq> authNone \<and> \<not> disable401Lock
      then s\<lparr>c_validity := clientInvalid\<rparr> else s)"

definition apply_limits ::
  "clientState \<Rightarrow> world \<Rightarrow> rateLimitInfo \<Rightarrow> bool \<Rightarrow> bool \<Rightarrow> nat \<Rightarrow> nat \<Rightarrow> observe_times \<Rightarrow> clientState \<times> world" where
  \<comment> \<open>the cooldowns that \<^verbatim>\<open>observeResponse\<close> sets, for invalid headers and for valid ones\<close>
  "apply_limits s w info invalid interaction r statusCode t =
     (let limited = (statusCode = StatusTooManyRequests) in
      if invalid then
        if \<not> limited then (s, w)
        else if ri_global info then
          (block_global s minimumRetryDelay (at_global t),
           if interaction then block_bucket w r (at_bucket t + minimumRetryDelay) else w)
        else (s, block_bucket w r (at_bucket t + minimumRetryDelay))
      else if ri_global info then
        if \<not> limited then (s, w)
        else
          (block_global s (ri_resetAfter info) (at_global t),
           if interaction
           then block_bucket w r (at_bucket t +
                  (if ri_resetAfter info < minimumRetryDelay then minimumRetryDelay else ri_resetAfter info))
           else w)
      else if ri_remaining info = 0 \<or> limited then
        (s, block_bucket w r (at_bucket t +
              (if ri_resetAfter info < minimumRetryDelay \<and> limited then minimumRetryDelay else ri_resetAfter info)))
      else (s, w))"

definition observeResponse ::
  "clientState \<Rightarrow> world \<Rightarrow> u64 \<Rightarrow> string \<Rightarrow> bool \<Rightarrow> nat \<Rightarrow> nat \<Rightarrow> header option \<Rightarrow> bool \<Rightarrow> observe_times \<Rightarrow>
     clientState \<times> world \<times> nat" where
  "observeResponse s w route majorKey interaction bucket statusCode hdr disable401Lock t =
     (let s0 = note_invalid s statusCode interaction disable401Lock in
      case parseRateLimitHeaders hdr statusCode (at_parse t) of (info, err) \<Rightarrow>
      case apply_limits s0 w info (err \<noteq> None) interaction bucket statusCode t of (s1, w1) \<Rightarrow>
        learnBucket s1 w1 route (ri_bucket info) majorKey bucket)"



subsection \<open>Delays\<close>

lemma round64_pos:
  assumes "0 < x" "x \<le> 2 ^ 100"
  obtains r where "round64 x = Finite r" "0 \<le> r" "\<bar>r - x\<bar> \<le> x / 2 ^ 53 + pow2 (- 1075)"
proof -
  have e: "\<bar>round_pos x - x\<bar> \<le> x / 2 ^ 53 + pow2 (- 1075)" by (rule round_pos_error [OF assms(1)])
  have "pow2 (- 1075) \<le> 1" by (simp add: pow2_def)
  moreover have "x / 2 ^ 53 \<le> x" using assms(1) by (simp add: divide_le_eq)
  ultimately have "round_pos x \<le> 2 * x + 1" using e by linarith
  also have "\<dots> \<le> 2 * 2 ^ 100 + 1" using assms(2) by simp
  also have "\<dots> < 2 ^ 1024" by simp
  finally have "round64 x = Finite (round_pos x)" using assms(1) by (simp add: round64_def Let_def)
  thus ?thesis using that e round_pos_nonneg [OF assms(1)] by blast
qed

lemma tiny: "pow2 (- 1075) \<le> 1 / 2 ^ 60"
proof -
  have "pow2 (- 1075) = pow2 (- 60) * pow2 (- 1015)" by (simp flip: pow2_add)
  moreover have "pow2 (- 1015) \<le> 1" "pow2 (- 60) = 1 / 2 ^ 60" by (simp_all add: pow2_def)
  ultimately show ?thesis by (metis less_imp_le mult_left_le pow2_pos)
qed

lemma seconds_duration_bounds:
  assumes "0 \<le> s"
  shows "0 \<le> seconds_duration s" "seconds_duration s \<le> maximumRateLimitDelay"
    "s < 86400 \<Longrightarrow> s * 1000000000 - 2 \<le> of_int (seconds_duration s)"
proof -
  have m: "maximumRateLimitDelay = 86400000000000" by (simp add: time_defs)
  have "0 \<le> seconds_duration s \<and> seconds_duration s \<le> maximumRateLimitDelay \<and>
    (s < 86400 \<longrightarrow> s * 1000000000 - 2 \<le> of_int (seconds_duration s))"
  proof (cases "s = 0 \<or> 86400 \<le> s")
    case True
    thus ?thesis by (auto simp: seconds_duration_def round64_def float_trunc_def m)
  next
    case False
    define x where "x = s * 1000000000"
    have x: "0 < x" "x < 86400000000000" using False assms by (auto simp: x_def)
    obtain r where r: "round64 x = Finite r" "0 \<le> r" "\<bar>r - x\<bar> \<le> x / 2 ^ 53 + pow2 (- 1075)"
      using round64_pos [of x] x by auto
    have "x / 2 ^ 53 \<le> 86400000000000 / 2 ^ 53" using x by (simp add: divide_right_mono)
    hence "\<bar>r - x\<bar> \<le> 1 / 50" using r(3) tiny by simp
    hence b: "x - 1 / 50 \<le> r" "r \<le> x + 1 / 50" by linarith+
    have d: "seconds_duration s = \<lfloor>r\<rfloor>" using False r(1,2) by (simp add: seconds_duration_def x_def float_trunc_def)
    have "\<lfloor>r\<rfloor> \<le> 86400000000000"
    proof -
      have "r < 86400000000001" using b x by linarith
      thus ?thesis by (simp add: floor_le_iff)
    qed
    moreover have "r - 1 < of_int \<lfloor>r\<rfloor>" by linarith
    ultimately show ?thesis using b r(2) d m by (auto simp: x_def)
  qed
  thus "0 \<le> seconds_duration s" "seconds_duration s \<le> maximumRateLimitDelay"
    "s < 86400 \<Longrightarrow> s * 1000000000 - 2 \<le> of_int (seconds_duration s)" by auto
qed

lemma header_reset_bounds:
  assumes "header_reset h statusCode now = Inr d"
  shows "0 \<le> d \<and> d \<le> maximumRateLimitDelay"
proof -
  have m: "0 \<le> maximumRateLimitDelay" by (simp add: time_defs)
  show ?thesis using assms seconds_duration_bounds(1,2) m
    by (auto simp: header_reset_def Let_def split: if_splits option.splits float64.splits)
qed

lemma header_remaining_bounds: "header_remaining h = Some r \<Longrightarrow> - 1 \<le> r \<and> r < 2 ^ 31"
  by (auto simp: header_remaining_def Let_def ParseInt_def split: if_splits option.splits list.splits)

lemma parse_cases:
  obtains (no_header) "hdr = None" "parseRateLimitHeaders hdr st now = (no_info, Some MissingHeaders)"
  | (silent) h where "hdr = Some h" "header_Get h ''Retry-After'' = []" "parseRateLimitHeaders hdr st now = (no_info, None)"
  | (bad_remaining) h info where "hdr = Some h" "header_remaining h = None"
      "parseRateLimitHeaders hdr st now = (info, Some BadRemaining)" "ri_remaining info = - 1" "ri_resetAfter info = 0"
  | (bad_reset) h info e where "hdr = Some h" "header_remaining h = Some (ri_remaining info)" "header_reset h st now = Inl e"
      "parseRateLimitHeaders hdr st now = (info, Some e)" "ri_resetAfter info = 0"
  | (parsed) h info d where "hdr = Some h" "header_remaining h = Some (ri_remaining info)" "header_reset h st now = Inr d"
      "parseRateLimitHeaders hdr st now = (info, None)"
      "ri_resetAfter info =
         (if (ri_remaining info = 0 \<or> st = StatusTooManyRequests) \<and> 0 < d then d + rateLimitHeaderSlack else d)"
proof (cases hdr)
  case None
  thus ?thesis using that(1) by (simp add: parseRateLimitHeaders_def)
next
  case (Some h)
  show ?thesis
  proof (cases "header_Get h ''X-RateLimit-Bucket'' = [] \<and> header_Get h ''X-RateLimit-Remaining'' = [] \<and>
      header_Get h ''X-RateLimit-Reset-After'' = [] \<and> header_Get h ''Retry-After'' = [] \<and>
      header_Get h ''X-RateLimit-Global'' = [] \<and> header_Get h ''X-RateLimit-Scope'' = []")
    case True
    thus ?thesis using that(2) Some by (simp add: parseRateLimitHeaders_def)
  next
    case False
    define info where "info = no_info\<lparr>ri_bucket := header_Get h ''X-RateLimit-Bucket'',
      ri_scope := ToLower (header_Get h ''X-RateLimit-Scope''),
      ri_global := (EqualFold (header_Get h ''X-RateLimit-Global'') ''true'' \<or>
        ToLower (header_Get h ''X-RateLimit-Scope'') = ''global'')\<rparr>"
    have i: "ri_remaining info = - 1" "ri_resetAfter info = 0" by (simp_all add: info_def no_info_def)
    have p: "parseRateLimitHeaders hdr st now =
      (case header_remaining h of
         None \<Rightarrow> (info, Some BadRemaining)
       | Some remaining \<Rightarrow>
           (case header_reset h st now of
              Inl e \<Rightarrow> (info\<lparr>ri_remaining := remaining\<rparr>, Some e)
            | Inr d \<Rightarrow> (info\<lparr>ri_remaining := remaining, ri_resetAfter :=
                (if (remaining = 0 \<or> st = StatusTooManyRequests) \<and> 0 < d then d + rateLimitHeaderSlack else d)\<rparr>, None)))"
      using False Some unfolding parseRateLimitHeaders_def info_def by (simp only: option.case if_False Let_def)
    show ?thesis
    proof (cases "header_remaining h")
      case None
      thus ?thesis using that(3) [OF Some] p i by simp
    next
      case rem: (Some remaining)
      show ?thesis
        using that(4) [OF Some, of "info\<lparr>ri_remaining := remaining\<rparr>"]
          that(5) [OF Some, of "info\<lparr>ri_remaining := remaining, ri_resetAfter := _\<rparr>"] p i rem
        by (cases "header_reset h st now") auto
    qed
  qed
qed

text \<open>
  C36. Whatever text the headers of a response hold, also malformed, negative, infinite or astronomically large
  numbers, the parsed delay is never negative and at most 24 hours and the slack of five milliseconds, and the number of
  remaining requests is -1 for none or fits into 31 bits.
\<close>

theorem parsed_limits_bounded:
  "0 \<le> ri_resetAfter (fst (parseRateLimitHeaders hdr st now)) \<and>
   ri_resetAfter (fst (parseRateLimitHeaders hdr st now)) \<le> maximumRateLimitDelay + rateLimitHeaderSlack \<and>
   - 1 \<le> ri_remaining (fst (parseRateLimitHeaders hdr st now)) \<and>
   ri_remaining (fst (parseRateLimitHeaders hdr st now)) < 2 ^ 31"
proof -
  have t: "0 \<le> rateLimitHeaderSlack" "0 \<le> maximumRateLimitDelay" by (simp_all add: time_defs)
  show ?thesis
  proof (cases rule: parse_cases [of hdr st now])
    case (parsed h info d)
    thus ?thesis using header_reset_bounds [OF parsed(3)] header_remaining_bounds [OF parsed(2)] t by simp
  next
    case (bad_reset h info e)
    thus ?thesis using header_remaining_bounds [OF bad_reset(2)] t by simp
  qed (use t in \<open>simp_all add: no_info_def\<close>)
qed

lemma reset_close:
  assumes "float_value txt = Some v" "0 \<le> v" "v \<le> 2 ^ 100"
  obtains s where "ParseFloat txt = Some (Finite s)" "0 \<le> s"
    "min v 86400 * 1000000000 - 1000 \<le> of_int (seconds_duration s)"
proof (cases "v = 0")
  case True
  thus ?thesis using that [of 0] assms seconds_duration_bounds(1) [of 0] by (simp add: ParseFloat_def round64_def)
next
  case False
  then obtain s where s: "round64 v = Finite s" "0 \<le> s" "\<bar>s - v\<bar> \<le> v / 2 ^ 53 + pow2 (- 1075)"
    using round64_pos [of v] assms by auto
  have "min v 86400 * 1000000000 - 1000 \<le> of_int (seconds_duration s)"
  proof (cases "86400 \<le> s")
    case True
    thus ?thesis by (simp add: seconds_duration_def time_defs min_def)
  next
    case False
    have "v - v / 2 ^ 53 \<le> s + 1 / 2 ^ 60" using s(3) tiny by linarith
    moreover have "v / 2 ^ 53 \<le> v / 2" using assms(2) by simp
    ultimately have "v \<le> 200000" using False by simp
    hence "v / 2 ^ 53 \<le> 200000 / 2 ^ 53" by (simp add: divide_right_mono)
    hence "v * 1000000000 - 900 \<le> s * 1000000000" using s(3) tiny by simp
    moreover have "s * 1000000000 - 2 \<le> of_int (seconds_duration s)" using seconds_duration_bounds(3) [OF s(2)] False by simp
    moreover have "min v 86400 * 1000000000 \<le> v * 1000000000" by simp
    ultimately show ?thesis by linarith
  qed
  thus ?thesis using that [of s] s assms(1) by (simp add: ParseFloat_def)
qed



subsection \<open>Obeying a rate limit\<close>

lemma learnBucket_ready:
  assumes "learnBucket s w h b m r = (s', w', r')" "r < length (heap w)" "client_wf s (heap w)"
  shows "c_global s' = c_global s" "readyAt (heap w ! r) \<le> readyAt (heap w' ! r')"
    "readyAt (heap w ! r) \<le> readyAt (heap w' ! r)"
proof -
  have "c_global s' = c_global s \<and> readyAt (heap w ! r) \<le> readyAt (heap w' ! r') \<and> readyAt (heap w ! r) \<le> readyAt (heap w' ! r)"
  proof (cases "b = [] \<or> learn_refused s w h (canonical_hash b m) r")
    case True
    thus ?thesis using assms(1) by (auto simp: learnBucket_def learn_at_refused split: if_splits)
  next
    case False
    define t where "t = learn_target s (canonical_hash b m) r"
    have l: "s' = learned s h (canonical_hash b m) r" "heap w' = learned_heap (heap w) t r" "r' = t"
      using assms(1) False by (auto simp: learnBucket_def learn_at_done t_def)
    have "t < length (heap w)"
      using assms(2,3) by (auto simp: t_def learn_target_def client_wf_def simp del: map_of_eq_Some_iff split: option.split)
    thus ?thesis using l assms(2)
      by (auto simp: learned_def Let_def learned_heap_def bucket_merge_def blockUntil_def nth_list_update)
  qed
  thus "c_global s' = c_global s" "readyAt (heap w ! r) \<le> readyAt (heap w' ! r')"
    "readyAt (heap w ! r) \<le> readyAt (heap w' ! r)" by auto
qed

lemma block_bucket_ready: "r < length (heap w) \<Longrightarrow> t \<le> readyAt (heap (block_bucket w r t) ! r)"
  by (simp add: block_bucket_def blockUntil_def)

lemma block_bucket_length [simp]: "length (heap (block_bucket w r t)) = length (heap w)"
  by (simp add: block_bucket_def)

lemma block_global_until:
  "now + (if d < minimumRetryDelay then minimumRetryDelay else d) \<le> blockedUntil (c_global (block_global s d now))"
  by (simp add: block_global_def blockFor_def Let_def)

lemma limits_obeyed:
  assumes "apply_limits s w info False interaction r StatusTooManyRequests t = (s', w')" "r < length (heap w)"
    and "d = (if ri_resetAfter info < minimumRetryDelay then minimumRetryDelay else ri_resetAfter info)"
  shows "if ri_global info then at_global t + d \<le> blockedUntil (c_global s') \<and> (interaction \<longrightarrow> at_bucket t + d \<le> readyAt (heap w' ! r))
    else at_bucket t + d \<le> readyAt (heap w' ! r)"
  using assms block_bucket_ready [OF assms(2), of "at_bucket t + d"] block_global_until [of "at_global t" "ri_resetAfter info" s]
  by (auto simp: apply_limits_def Let_def split: if_splits)

lemma apply_limits_shape:
  assumes "apply_limits s w info bad interaction r st t = (s', w')"
  shows "length (heap w') = length (heap w)" "buckets s' = buckets s" "aliases s' = aliases s"
  using assms by (auto simp: apply_limits_def Let_def block_global_def split: if_splits)

lemma note_invalid_keeps [simp]:
  "buckets (note_invalid s st i d) = buckets s" "aliases (note_invalid s st i d) = aliases s"
  by (simp_all add: note_invalid_def)

lemma retry_after_parsed:
  \<comment> \<open>the delay that a 429 with a numeric \<open>Retry-After\<close> header leads to\<close>
  assumes "header_Get h ''Retry-After'' \<noteq> []" "float_value (header_Get h ''Retry-After'') = Some v" "0 \<le> v" "v \<le> 2 ^ 100"
    and "header_remaining h \<noteq> None"
  obtains info where "parseRateLimitHeaders (Some h) StatusTooManyRequests now = (info, None)"
    "min v 86400 * 1000000000 \<le>
       (of_int (if ri_resetAfter info < minimumRetryDelay then minimumRetryDelay else ri_resetAfter info) :: rat)"
proof -
  obtain s0 where s0: "ParseFloat (header_Get h ''Retry-After'') = Some (Finite s0)" "0 \<le> s0"
    "min v 86400 * 1000000000 - 1000 \<le> of_int (seconds_duration s0)"
    using reset_close [OF assms(2-4)] by blast
  have reset: "header_reset h StatusTooManyRequests now = Inr (seconds_duration s0)"
    using s0(1,2) assms(1) by (simp add: header_reset_def)
  obtain info where info: "parseRateLimitHeaders (Some h) StatusTooManyRequests now = (info, None)"
    "ri_resetAfter info = (if 0 < seconds_duration s0 then seconds_duration s0 + rateLimitHeaderSlack else seconds_duration s0)"
    by (cases rule: parse_cases [of "Some h" StatusTooManyRequests now]) (use reset assms(1,5) in auto)
  define d where "d = (if ri_resetAfter info < minimumRetryDelay then minimumRetryDelay else ri_resetAfter info)"
  have "min v 86400 * 1000000000 \<le> of_int d"
  proof (cases "0 < seconds_duration s0")
    case True
    hence "seconds_duration s0 + 5000000 \<le> d" using info(2) by (simp add: d_def time_defs)
    hence "of_int (seconds_duration s0) + 5000000 \<le> (of_int d :: rat)" by (metis of_int_add of_int_le_iff of_int_numeral)
    thus ?thesis using s0(3) by linarith
  next
    case False
    hence "seconds_duration s0 = 0" using seconds_duration_bounds(1) [OF s0(2)] by simp
    moreover have "50000000 \<le> d" by (simp add: d_def minimumRetryDelay_def time_defs)
    hence "50000000 \<le> (of_int d :: rat)" by (metis of_int_le_iff of_int_numeral)
    ultimately show ?thesis using s0(3) by simp
  qed
  thus thesis using that info(1) by (simp add: d_def)
qed


definition example_limited :: "clientState \<times> world \<times> nat" where
  "example_limited =
     observeResponse (newClientState no_auth 50 5 0) \<lparr>heap = [newBucketState 5 0], slots = newResourceBudget 10\<rparr> 7 [] False 0
       StatusTooManyRequests (Some [(''Retry-After'', [''1.5''])]) False \<lparr>at_parse = 0, at_global = 0, at_bucket = 0\<rparr>"

lemma example_get:
  "header_Get [(''Retry-After'', [''1.5''])] ''Retry-After'' = ''1.5''"
  "header_Get [(''Retry-After'', [''1.5''])] ''X-RateLimit-Remaining'' = []"
  "header_Get [(''Retry-After'', [''1.5''])] ''X-RateLimit-Global'' = []"
  "header_Get [(''Retry-After'', [''1.5''])] ''X-RateLimit-Scope'' = []"
  by (simp_all add: header_eval)

lemma example_value: "float_value ''1.5'' = Some (3 / 2)"
  by (simp add: float_value_def strip_sign_def mantissa_digit_def hex_value_def code_in_def read_exponent_def pow2_def
      ascii_lower_def)


end
