(* ===== verification/Replay.thy ===== *)
theory Replay
  imports Budget
begin

section \<open>Replaying request bodies\<close>

text \<open>
  \<^verbatim>\<open>captureBody\<close> and \<^verbatim>\<open>bodyReplay\<close> of \<^verbatim>\<open>internal/proxy/transport.go\<close>: the bytes of a request body are kept
  while the first attempt reads them, in memory or in a temporary file, so that a retry can send them again.
  What is kept is charged to the budget \<^verbatim>\<open>retryCapture\<close>. Calls of the file system fail as an argument says.
  The temporary file is its contents (\<open>c_disk\<close>, while it exists) and whether the handle is open (\<open>c_file\<close>).
\<close>

subsection \<open>Capturing\<close>

definition retryMemoryLimit :: int where "retryMemoryLimit = 1048576"

record captureBody =
  c_buffer :: string
  c_file :: bool
  c_disk :: "string option"
  c_limit :: int
  c_contentLength :: int
  c_read :: int
  c_complete :: bool
  c_overflow :: bool
  c_sealed :: bool
  c_reserved :: int

record file_env =
  createFails :: bool
  spillFails :: bool
  writeFails :: bool
  closeFails :: bool
  openFails :: bool
  getBodyFails :: bool

definition releaseReservationLocked :: "captureBody \<Rightarrow> resourceBudget \<Rightarrow> captureBody \<times> resourceBudget" where
  "releaseReservationLocked b bud =
     (if c_reserved b = 0 then (b, bud) else (b\<lparr>c_reserved := 0\<rparr>, release_int bud (c_reserved b)))"

definition discardLocked :: "captureBody \<Rightarrow> resourceBudget \<Rightarrow> captureBody \<times> resourceBudget" where
  "discardLocked b bud =
     releaseReservationLocked (b\<lparr>c_overflow := True, c_buffer := [], c_file := False, c_disk := None\<rparr>) bud"

definition append_file :: "captureBody \<Rightarrow> resourceBudget \<Rightarrow> string \<Rightarrow> file_env \<Rightarrow> captureBody \<times> resourceBudget" where
  "append_file b bud data env =
     (if writeFails env then discardLocked b bud
      else (b\<lparr>c_disk := Some ((case c_disk b of None \<Rightarrow> [] | Some d \<Rightarrow> d) @ data)\<rparr>, bud))"

definition store_captured :: "captureBody \<Rightarrow> resourceBudget \<Rightarrow> string \<Rightarrow> file_env \<Rightarrow> captureBody \<times> resourceBudget" where
  \<comment> \<open>the part of \<^verbatim>\<open>captureLocked\<close> after the reservation\<close>
  "store_captured b bud data env =
     (if \<not> c_file b \<and> int (length (c_buffer b) + length data) \<le> min (c_limit b) retryMemoryLimit
      then (b\<lparr>c_buffer := c_buffer b @ data\<rparr>, bud)
      else if \<not> c_file b then
        if createFails env then discardLocked b bud
        else
          let b1 = b\<lparr>c_file := True, c_disk := Some []\<rparr>
          in if spillFails env then discardLocked b1 bud
             else append_file (b1\<lparr>c_disk := Some (c_buffer b), c_buffer := []\<rparr>) bud data env
      else append_file b bud data env)"

definition captureLocked :: "captureBody \<Rightarrow> resourceBudget \<Rightarrow> string \<Rightarrow> file_env \<Rightarrow> captureBody \<times> resourceBudget" where
  "captureLocked b bud data env =
     (if c_overflow b \<or> c_sealed b then (b, bud)
      else if c_limit b < c_read b then discardLocked b bud
      else
        let additional = c_read b - c_reserved b
        in if 0 < additional then
             (case reserve_int bud additional of (bud1, granted) \<Rightarrow>
                if \<not> granted then discardLocked b bud1
                else store_captured (b\<lparr>c_reserved := c_reserved b + additional\<rparr>) bud1 data env)
           else store_captured b bud data env)"

definition capture_Read ::
  "captureBody \<Rightarrow> resourceBudget \<Rightarrow> string \<Rightarrow> bool \<Rightarrow> file_env \<Rightarrow> captureBody \<times> resourceBudget" where
  \<comment> \<open>one \<^verbatim>\<open>Read\<close>: the bytes the underlying body returned, and whether with \<^verbatim>\<open>io.EOF\<close>\<close>
  "capture_Read b bud data eof env =
     (case (if data \<noteq> [] then captureLocked (b\<lparr>c_read := c_read b + int (length data)\<rparr>) bud data env else (b, bud)) of
        (b1, bud1) \<Rightarrow>
          (if eof \<or> 0 \<le> c_contentLength b1 \<and> c_read b1 = c_contentLength b1 then b1\<lparr>c_complete := True\<rparr> else b1, bud1))"

datatype replayed = NotReplayable | ReplayFails | ReplayData string | ReplayFile

definition capture_replay :: "captureBody \<Rightarrow> file_env \<Rightarrow> captureBody \<times> replayed" where
  "capture_replay b env =
     (if \<not> c_complete b \<or> c_overflow b then (b, NotReplayable)
      else
        let b1 = b\<lparr>c_sealed := True\<rparr>
        in if \<not> c_file b then (b1\<lparr>c_buffer := []\<rparr>, ReplayData (c_buffer b))
           else if closeFails env then (b1\<lparr>c_file := False\<rparr>, ReplayFails)
           else (b1\<lparr>c_file := False\<rparr>, ReplayFile))"


subsection \<open>Bodies of attempts\<close>

record bodyReplay =
  r_first :: bool
  r_getBody :: bool
  r_capture :: "captureBody option"
  r_data :: string
  r_fileName :: bool
  r_prepared :: bool

datatype replay_error = CaptureBudget | CannotReplay | ReplayIO

datatype outgoing = NoBody | FirstBody | RegeneratedBody | Bytes string

definition newBodyReplay ::
  "bool \<Rightarrow> bool \<Rightarrow> int \<Rightarrow> int \<Rightarrow> resourceBudget \<Rightarrow> resourceBudget \<times> (replay_error + bodyReplay)" where
  \<comment> \<open>whether the request has no body, has \<^verbatim>\<open>GetBody\<close>, and its \<^verbatim>\<open>ContentLength\<close>\<close>
  "newBodyReplay noBody hasGetBody requestLength lim bud =
     (let none = \<lparr>r_first = False, r_getBody = False, r_capture = None, r_data = [], r_fileName = False, r_prepared = False\<rparr> in
      if noBody then (bud, Inr none)
      else if hasGetBody then (bud, Inr (none\<lparr>r_first := True, r_getBody := True\<rparr>))
      else
        let len = (if requestLength = 0 then - 1 else requestLength);
            c = \<lparr>c_buffer = [], c_file = False, c_disk = None, c_limit = lim, c_contentLength = len, c_read = 0,
                 c_complete = False, c_overflow = False, c_sealed = False, c_reserved = 0\<rparr>;
            r = (\<lambda>c. none\<lparr>r_first := True, r_capture := Some c\<rparr>)
        in if lim < len then (bud, Inr (r (c\<lparr>c_overflow := True\<rparr>)))
           else if limit bud = 0 then (bud, Inr (r (c\<lparr>c_overflow := True\<rparr>)))
           else if 0 < len then
             (case reserve_int bud len of (bud1, granted) \<Rightarrow>
                if \<not> granted then (bud1, Inl CaptureBudget) else (bud1, Inr (r (c\<lparr>c_reserved := len\<rparr>))))
           else (bud, Inr (r c)))"

definition prepareRetry :: "bodyReplay \<Rightarrow> file_env \<Rightarrow> bodyReplay \<times> (replay_error + bool)" where
  "prepareRetry r env =
     (if r_getBody r \<or> \<not> r_first r then (r\<lparr>r_prepared := True\<rparr>, Inr True)
      else if r_prepared r then (r, Inr True)
      else case r_capture r of
             None \<Rightarrow> (r, Inr False)
           | Some c \<Rightarrow>
               (case capture_replay c env of (c', res) \<Rightarrow>
                  let r1 = r\<lparr>r_capture := Some c'\<rparr> in
                  case res of
                    NotReplayable \<Rightarrow> (r1, Inr False)
                  | ReplayFails \<Rightarrow> (r1, Inl ReplayIO)
                  | ReplayData d \<Rightarrow> (r1\<lparr>r_data := d, r_fileName := False, r_prepared := True\<rparr>, Inr True)
                  | ReplayFile \<Rightarrow> (r1\<lparr>r_data := [], r_fileName := True, r_prepared := True\<rparr>, Inr True)))"

definition prepared_body :: "bodyReplay \<Rightarrow> file_env \<Rightarrow> replay_error + outgoing" where
  \<comment> \<open>the last part of \<^verbatim>\<open>body\<close>\<close>
  "prepared_body r env =
     (if r_fileName r then
        (case r_capture r of
           Some c \<Rightarrow> (case c_disk c of Some d \<Rightarrow> if openFails env then Inl ReplayIO else Inr (Bytes d) | None \<Rightarrow> Inl ReplayIO)
         | None \<Rightarrow> Inl ReplayIO)
      else if r_capture r = None then Inr NoBody
      else Inr (Bytes (r_data r)))"

definition body :: "bodyReplay \<Rightarrow> nat \<Rightarrow> file_env \<Rightarrow> bodyReplay \<times> (replay_error + outgoing)" where
  "body r attempt env =
     (if attempt = 0 then (r, Inr (if r_first r then FirstBody else NoBody))
      else if \<not> r_first r \<and> \<not> r_getBody r \<and> r_capture r = None then (r, Inr NoBody)
      else if r_getBody r then (r, if getBodyFails env then Inl ReplayIO else Inr RegeneratedBody)
      else if r_prepared r then (r, prepared_body r env)
      else case prepareRetry r env of (r1, res) \<Rightarrow>
             (case res of
                Inl e \<Rightarrow> (r1, Inl e)
              | Inr ok \<Rightarrow> if ok then (r1, prepared_body r1 env) else (r1, Inl CannotReplay)))"

definition replay_close :: "bodyReplay \<Rightarrow> resourceBudget \<Rightarrow> bodyReplay \<times> resourceBudget" where
  "replay_close r bud =
     (case r_capture r of
        None \<Rightarrow> (r, bud)
      | Some c \<Rightarrow> (case discardLocked c bud of (c', bud') \<Rightarrow> (r\<lparr>r_capture := Some c', r_fileName := False\<rparr>, bud')))"


subsection \<open>What is captured\<close>

definition captured :: "captureBody \<Rightarrow> string \<Rightarrow> bool" where
  \<comment> \<open>a capture that has read \<open>got\<close>, and not been sealed\<close>
  "captured b got \<longleftrightarrow> \<not> c_sealed b \<and> c_read b = int (length got) \<and>
     (if c_overflow b then c_buffer b = [] \<and> \<not> c_file b \<and> c_disk b = None
      else if c_file b then c_disk b = Some got \<and> c_buffer b = []
      else c_buffer b = got \<and> c_disk b = None)"

lemma discard_fields [simp]:
  "c_overflow (fst (discardLocked b bud))" "c_buffer (fst (discardLocked b bud)) = []"
  "\<not> c_file (fst (discardLocked b bud))" "c_disk (fst (discardLocked b bud)) = None"
  "c_read (fst (discardLocked b bud)) = c_read b" "c_sealed (fst (discardLocked b bud)) = c_sealed b"
  "c_contentLength (fst (discardLocked b bud)) = c_contentLength b" "c_complete (fst (discardLocked b bud)) = c_complete b"
  "c_reserved (fst (discardLocked b bud)) = 0" "c_limit (fst (discardLocked b bud)) = c_limit b"
  by (simp_all add: discardLocked_def releaseReservationLocked_def)

lemma store_fields:
  "c_read (fst (store_captured b bud data env)) = c_read b" "c_sealed (fst (store_captured b bud data env)) = c_sealed b"
  "c_contentLength (fst (store_captured b bud data env)) = c_contentLength b"
  "c_complete (fst (store_captured b bud data env)) = c_complete b"
  "c_limit (fst (store_captured b bud data env)) = c_limit b"
  by (simp_all add: store_captured_def append_file_def Let_def)

lemma store_captured_content:
  assumes "\<not> c_overflow b" "if c_file b then c_disk b = Some got \<and> c_buffer b = [] else c_buffer b = got \<and> c_disk b = None"
    and "b' = fst (store_captured b bud data env)"
  shows "if c_overflow b' then c_buffer b' = [] \<and> \<not> c_file b' \<and> c_disk b' = None
    else if c_file b' then c_disk b' = Some (got @ data) \<and> c_buffer b' = []
    else c_buffer b' = got @ data \<and> c_disk b' = None"
  using assms by (auto simp: store_captured_def append_file_def Let_def)

lemma captureLocked_cases:
  obtains (ignored) "c_overflow b \<or> c_sealed b" "captureLocked b bud data env = (b, bud)"
  | (discarded) "\<not> c_overflow b" "\<not> c_sealed b" "captureLocked b bud data env = discardLocked b bud"
  | (stored) b1 bud1 where "\<not> c_overflow b" "\<not> c_sealed b" "c_read b \<le> c_limit b"
      "captureLocked b bud data env = store_captured b1 bud1 data env"
      "b1 = b\<lparr>c_reserved := max (c_reserved b) (c_read b)\<rparr>"
      "bud1 = (if c_reserved b < c_read b then fst (reserve_int bud (c_read b - c_reserved b)) else bud)"
      "c_reserved b < c_read b \<Longrightarrow> snd (reserve_int bud (c_read b - c_reserved b))"
proof (cases "c_overflow b \<or> c_sealed b \<or> c_limit b < c_read b")
  case True
  show ?thesis
    by (cases "c_overflow b \<or> c_sealed b") (use True that(1,2) in \<open>auto simp: captureLocked_def\<close>)
next
  case False
  show ?thesis
  proof (cases "c_reserved b < c_read b")
    case True
    obtain bud1 g where r: "reserve_int bud (c_read b - c_reserved b) = (bud1, g)" by (rule prod.exhaust)
    show ?thesis
    proof (cases g)
      case g: True
      show ?thesis by (rule that(3) [where ?bud1.0 = bud1]) (use False True r g in \<open>simp_all add: captureLocked_def max_def\<close>)
    next
      case g: False
      hence "bud1 = bud" using r by (auto simp: reserve_int_def reserve_def split: if_splits)
      thus ?thesis using False True r g by (intro that(2)) (simp_all add: captureLocked_def)
    qed
  next
    case le: False
    have "b\<lparr>c_reserved := max (c_reserved b) (c_read b)\<rparr> = b" using le by (simp add: max_def)
    thus ?thesis using False le by (intro that(3)) (simp_all add: captureLocked_def)
  qed
qed

lemma captureLocked_content:
  assumes "\<not> c_sealed b" "c_read b = int (length (got @ data))"
    and "if c_overflow b then c_buffer b = [] \<and> \<not> c_file b \<and> c_disk b = None
      else if c_file b then c_disk b = Some got \<and> c_buffer b = [] else c_buffer b = got \<and> c_disk b = None"
  shows "captured (fst (captureLocked b bud data env)) (got @ data)"
proof (cases rule: captureLocked_cases [of b bud data env])
  case ignored
  thus ?thesis using assms by (simp add: captured_def)
next
  case discarded
  thus ?thesis using assms by (simp add: captured_def)
next
  case (stored b1 bud1)
  have "\<not> c_overflow b1" "if c_file b1 then c_disk b1 = Some got \<and> c_buffer b1 = [] else c_buffer b1 = got \<and> c_disk b1 = None"
    using stored(1,5) assms(3) by simp_all
  from store_captured_content [OF this refl, of bud1 data env]
  have "captured (fst (store_captured b1 bud1 data env)) (got @ data)"
    using assms(1,2) stored(5) unfolding captured_def store_fields by simp
  thus ?thesis by (simp only: stored(4))
qed

lemma capture_Read_captured:
  assumes "captured b got"
  shows "captured (fst (capture_Read b bud data eof env)) (got @ data)"
proof (cases "data = []")
  case True
  thus ?thesis using assms by (simp add: capture_Read_def captured_def)
next
  case False
  obtain b1 bud1 where c: "captureLocked (b\<lparr>c_read := c_read b + int (length data)\<rparr>) bud data env = (b1, bud1)"
    by (rule prod.exhaust)
  have "captured (fst (captureLocked (b\<lparr>c_read := c_read b + int (length data)\<rparr>) bud data env)) (got @ data)"
    by (rule captureLocked_content) (use assms in \<open>auto simp: captured_def\<close>)
  thus ?thesis using False c by (simp add: capture_Read_def captured_def)
qed

type_synonym reading = "string \<times> bool \<times> file_env \<times> resourceBudget"

definition capture_reads :: "captureBody \<Rightarrow> reading list \<Rightarrow> captureBody" where
  \<comment> \<open>the reads of the first attempt; other requests change the budget in between\<close>
  "capture_reads b rs = foldl (\<lambda>b (data, eof, env, bud). fst (capture_Read b bud data eof env)) b rs"

definition read_bytes :: "reading list \<Rightarrow> string" where
  "read_bytes rs = concat (map fst rs)"

lemma capture_Read_fields:
  "c_contentLength (fst (capture_Read b bud data eof env)) = c_contentLength b"
  "c_complete (fst (capture_Read b bud data eof env)) \<Longrightarrow> c_complete b \<or> eof \<or>
     0 \<le> c_contentLength b \<and> c_read (fst (capture_Read b bud data eof env)) = c_contentLength b"
proof -
  have l: "c_contentLength (fst (captureLocked c bud data env)) = c_contentLength c"
    "c_complete (fst (captureLocked c bud data env)) = c_complete c" for c
    by (cases rule: captureLocked_cases [of c bud data env]; simp add: store_fields)+
  show "c_contentLength (fst (capture_Read b bud data eof env)) = c_contentLength b"
    using l [of "b\<lparr>c_read := c_read b + int (length data)\<rparr>"] by (auto simp: capture_Read_def split: prod.split)
  show "c_complete (fst (capture_Read b bud data eof env)) \<Longrightarrow> c_complete b \<or> eof \<or>
     0 \<le> c_contentLength b \<and> c_read (fst (capture_Read b bud data eof env)) = c_contentLength b"
    using l [of "b\<lparr>c_read := c_read b + int (length data)\<rparr>"]
    by (auto simp: capture_Read_def split: prod.splits if_splits)
qed

lemma capture_reads_snoc:
  "capture_reads b (rs @ [(data, eof, env, bud)]) = fst (capture_Read (capture_reads b rs) bud data eof env)"
  by (simp add: capture_reads_def)

lemma capture_reads_props:
  assumes "captured b []" "\<not> c_complete b"
  shows "captured (capture_reads b rs) (read_bytes rs)" "c_contentLength (capture_reads b rs) = c_contentLength b"
    "c_complete (capture_reads b rs) \<Longrightarrow>
       (\<exists>x \<in> set rs. fst (snd x)) \<or> (\<exists>k \<le> length rs. int (length (read_bytes (take k rs))) = c_contentLength b)"
proof (induction rs rule: rev_induct)
  case Nil
  {
    case 1 show ?case using assms(1) by (simp add: capture_reads_def read_bytes_def)
  next
    case 2 show ?case by (simp add: capture_reads_def)
  next
    case 3 thus ?case using assms(2) by (simp add: capture_reads_def)
  }
next
  case (snoc x rs)
  obtain data eof env bud where x: "x = (data, eof, env, bud)" by (cases x)
  have b: "read_bytes (rs @ [x]) = read_bytes rs @ data" by (simp add: read_bytes_def x)
  {
    case 1 show ?case unfolding x capture_reads_snoc b [unfolded x] by (rule capture_Read_captured [OF snoc(1)])
  next
    case 2 show ?case unfolding x capture_reads_snoc capture_Read_fields(1) by (rule snoc(2))
  next
    case 3
    have c: "captured (capture_reads b (rs @ [x])) (read_bytes (rs @ [x]))"
      unfolding x capture_reads_snoc b [unfolded x] by (rule capture_Read_captured [OF snoc(1)])
    from 3 have "c_complete (capture_reads b rs) \<or> eof \<or>
      0 \<le> c_contentLength (capture_reads b rs) \<and> c_read (capture_reads b (rs @ [x])) = c_contentLength (capture_reads b rs)"
      unfolding x capture_reads_snoc by (rule capture_Read_fields(2))
    thus ?case
    proof (elim disjE)
      assume "c_complete (capture_reads b rs)"
      from snoc(3) [OF this] show ?thesis by (auto; metis le_Suc_eq take_append diff_is_0_eq' take0 append_Nil2 le_SucI)
    next
      assume eof then show ?thesis by (simp add: x)
    next
      assume "0 \<le> c_contentLength (capture_reads b rs) \<and>
        c_read (capture_reads b (rs @ [x])) = c_contentLength (capture_reads b rs)"
      hence "int (length (read_bytes (rs @ [x]))) = c_contentLength b" using c snoc(2) by (simp add: captured_def)
      thus ?thesis by (intro disjI2 exI [of _ "length (rs @ [x])"]) simp
    qed
  }
qed

lemma new_captured:
  assumes "newBodyReplay noBody hasGetBody len lim bud = (bud', Inr r)" "r_capture r = Some c"
  shows "captured c [] \<and> \<not> c_complete c \<and> r_first r \<and> \<not> r_getBody r \<and> \<not> r_prepared r \<and> r_data r = [] \<and> \<not> r_fileName r \<and>
    c_contentLength c = (if len = 0 then - 1 else len)"
  using assms by (auto simp: newBodyReplay_def Let_def captured_def split: if_splits prod.splits)

lemma prepare_captured:
  assumes "captured c got" "r_capture r = Some c" "r_first r" "\<not> r_getBody r" "\<not> r_prepared r"
    and "prepareRetry r env = (r', Inr True)"
  shows "c_complete c" "0 < attempt \<Longrightarrow> \<not> openFails env' \<Longrightarrow> body r' attempt env' = (r', Inr (Bytes got))"
  using assms by (auto simp: prepareRetry_def capture_replay_def captured_def Let_def body_def prepared_body_def
      split: if_splits prod.splits replayed.splits)

text \<open>
  C22. A retry sends what the first attempt read. However the transport cut the body into reads, whether the
  bytes went to memory or to a file, and whatever other requests did to the budget meanwhile: if the proxy decides that a
  request can be retried, the body of every later attempt is the concatenation of all that was read, byte for byte, and
  the first attempt had read the body to its end or to its declared length.
\<close>

theorem replay_faithful:
  assumes "newBodyReplay noBody hasGetBody len lim bud = (bud', Inr r)" "r_capture r = Some c"
    and "prepareRetry (r\<lparr>r_capture := Some (capture_reads c rs)\<rparr>) env = (r', Inr True)"
    and "0 < attempt" "\<not> openFails env'"
  shows "body r' attempt env' = (r', Inr (Bytes (read_bytes rs))) \<and>
    ((\<exists>x \<in> set rs. fst (snd x)) \<or> (\<exists>k \<le> length rs. int (length (read_bytes (take k rs))) = len))"
proof -
  have n: "captured c []" "\<not> c_complete c" "r_first r" "\<not> r_getBody r" "\<not> r_prepared r"
    "c_contentLength c = (if len = 0 then - 1 else len)"
    using new_captured [OF assms(1,2)] by auto
  note p = capture_reads_props [OF n(1,2), of rs]
  note q = prepare_captured [OF p(1) _ _ _ _ assms(3), simplified, OF n(3-5)]
  have "(\<exists>x \<in> set rs. fst (snd x)) \<or> (\<exists>k \<le> length rs. int (length (read_bytes (take k rs))) = c_contentLength c)"
    by (rule p(3) [OF q(1)])
  hence "(\<exists>x \<in> set rs. fst (snd x)) \<or> (\<exists>k \<le> length rs. int (length (read_bytes (take k rs))) = len)"
    using n(6) by (auto split: if_splits)
  thus ?thesis using q(2) [OF assms(4,5)] by blast
qed

definition all_well :: file_env where
  "all_well = \<lparr>createFails = False, spillFails = False, writeFails = False, closeFails = False, openFails = False,
     getBodyFails = False\<rparr>"

theorem replay_faithful_witness:
  "\<exists>r c r'. newBodyReplay False False 4 100 (newResourceBudget 50) = (\<lparr>limit = 50, used = 4\<rparr>, Inr r) \<and> r_capture r = Some c \<and>
     prepareRetry (r\<lparr>r_capture := Some (capture_reads c [(''ab'', False, all_well, newResourceBudget 50),
       (''cd'', False, all_well, newResourceBudget 50)])\<rparr>) all_well = (r', Inr True) \<and>
     body r' 1 all_well = (r', Inr (Bytes ''abcd''))"
proof -
  let ?rs = "[(''ab'', False, all_well, newResourceBudget 50), (''cd'', False, all_well, newResourceBudget 50)]"
  define c where "c = \<lparr>c_buffer = [], c_file = False, c_disk = None, c_limit = 100, c_contentLength = 4, c_read = 0,
    c_complete = False, c_overflow = False, c_sealed = False, c_reserved = 4\<rparr>"
  define r where "r = \<lparr>r_first = True, r_getBody = False, r_capture = Some c, r_data = [], r_fileName = False, r_prepared = False\<rparr>"
  have new: "newBodyReplay False False 4 100 (newResourceBudget 50) = (\<lparr>limit = 50, used = 4\<rparr>, Inr r)"
    by (simp add: newBodyReplay_def newResourceBudget_def reserve_int_def reserve_def exhausted_def c_def r_def)
  have c: "r_capture r = Some c" by (simp add: r_def)
  obtain r' where r': "prepareRetry (r\<lparr>r_capture := Some (capture_reads c ?rs)\<rparr>) all_well = (r', Inr True)"
    by (simp add: prepareRetry_def capture_reads_def capture_Read_def captureLocked_def store_captured_def capture_replay_def
        c_def r_def retryMemoryLimit_def)
  have "body r' 1 all_well = (r', Inr (Bytes (read_bytes ?rs)))"
    using replay_faithful [OF new c r', of 1 all_well] by (simp add: all_well_def)
  thus ?thesis using new c r' by (auto simp: read_bytes_def)
qed


subsection \<open>What captures hold\<close>

definition capture_size :: "captureBody \<Rightarrow> int" where
  "capture_size c = int (length (c_buffer c)) + (case c_disk c of None \<Rightarrow> 0 | Some d \<Rightarrow> int (length d))"

definition replay_size :: "bodyReplay \<Rightarrow> int" where
  "replay_size r = int (length (r_data r)) + (case r_capture r of None \<Rightarrow> 0 | Some c \<Rightarrow> capture_size c)"

definition replay_reserved :: "bodyReplay \<Rightarrow> int" where
  "replay_reserved r = (case r_capture r of None \<Rightarrow> 0 | Some c \<Rightarrow> c_reserved c)"

record capture_sys =
  replays :: "bodyReplay list"
  captureBudget :: resourceBudget

inductive capture_step :: "int \<Rightarrow> capture_sys \<Rightarrow> capture_sys \<Rightarrow> bool" for lim where
  \<comment> \<open>requests in flight share the budget; a closed replay leaves the list\<close>
  new: "newBodyReplay noBody hasGetBody len lim (captureBudget s) = (bud, Inr r) \<Longrightarrow>
    capture_step lim s \<lparr>replays = replays s @ [r], captureBudget = bud\<rparr>"
| refused: "newBodyReplay noBody hasGetBody len lim (captureBudget s) = (bud, Inl e) \<Longrightarrow>
    capture_step lim s (s\<lparr>captureBudget := bud\<rparr>)"
| read: "\<lbrakk>i < length (replays s); r_capture (replays s ! i) = Some c;
    capture_Read c (captureBudget s) data eof env = (c', bud)\<rbrakk> \<Longrightarrow>
    capture_step lim s \<lparr>replays = (replays s)[i := (replays s ! i)\<lparr>r_capture := Some c'\<rparr>], captureBudget = bud\<rparr>"
| prepare: "\<lbrakk>i < length (replays s); prepareRetry (replays s ! i) env = (r, res)\<rbrakk> \<Longrightarrow>
    capture_step lim s (s\<lparr>replays := (replays s)[i := r]\<rparr>)"
| close: "\<lbrakk>i < length (replays s); replay_close (replays s ! i) (captureBudget s) = (r, bud)\<rbrakk> \<Longrightarrow>
    capture_step lim s \<lparr>replays = take i (replays s) @ drop (Suc i) (replays s), captureBudget = bud\<rparr>"

inductive capture_reachable :: "int \<Rightarrow> i64 \<Rightarrow> capture_sys \<Rightarrow> bool" for lim maxBytes where
  start: "capture_reachable lim maxBytes \<lparr>replays = [], captureBudget = newResourceBudget maxBytes\<rparr>"
| step: "capture_reachable lim maxBytes s \<Longrightarrow> capture_step lim s t \<Longrightarrow> capture_reachable lim maxBytes t"

definition capture_ok :: "int \<Rightarrow> string \<Rightarrow> captureBody \<Rightarrow> bool" where
  \<comment> \<open>for a replay that already took the bytes \<open>data\<close> out of its capture\<close>
  "capture_ok lim data c \<longleftrightarrow> c_limit c = lim \<and> 0 \<le> c_reserved c \<and>
     (if c_overflow c then c_reserved c = 0 \<and> c_buffer c = [] \<and> c_disk c = None \<and> \<not> c_file c \<and> data = []
      else if c_sealed c then int (length data) + capture_size c \<le> c_reserved c
      else 0 \<le> c_read c \<and> c_read c \<le> c_reserved c \<and> capture_size c = c_read c \<and> data = [] \<and>
        (if c_file c then c_disk c \<noteq> None \<and> c_buffer c = [] else c_disk c = None))"

definition replay_ok :: "int \<Rightarrow> bodyReplay \<Rightarrow> bool" where
  "replay_ok lim r \<longleftrightarrow> (\<not> r_prepared r \<longrightarrow> r_data r = []) \<and>
     (case r_capture r of None \<Rightarrow> r_data r = [] | Some c \<Rightarrow> capture_ok lim (r_data r) c)"

definition charges :: "captureBody \<Rightarrow> resourceBudget \<Rightarrow> captureBody \<times> resourceBudget \<Rightarrow> bool" where
  \<comment> \<open>the budget changed by what the reservation changed\<close>
  "charges b bud res \<longleftrightarrow> sint (used (snd res)) - c_reserved (fst res) = sint (used bud) - c_reserved b \<and>
     budget_wf (snd res) \<and> limit (snd res) = limit bud"

lemma int_limits [simp]: "limit (fst (reserve_int b n)) = limit b" "limit (release_int b n) = limit b"
  by (simp_all add: reserve_int_def reserve_def release_int_def release_def)

lemma budget_used_max: "budget_wf b \<Longrightarrow> sint (used b) \<le> 2 ^ 63 - 1"
  using sint_i64_range(2) [of "used b"] by simp

lemma discard_charges:
  assumes "budget_wf bud" "0 \<le> c_reserved b" "c_reserved b \<le> sint (used bud)"
  shows "charges b bud (discardLocked b bud)"
proof (cases "c_reserved b = 0")
  case True
  thus ?thesis using assms(1) by (simp add: charges_def discardLocked_def releaseReservationLocked_def)
next
  case False
  thus ?thesis
    using assms rb.give_level [of bud "c_reserved b"] rb.invar_give [of bud "c_reserved b"] budget_used_max [OF assms(1)]
    by (simp add: charges_def discardLocked_def releaseReservationLocked_def)
qed

lemma store_charges:
  assumes "budget_wf bud" "0 \<le> c_reserved b" "c_reserved b \<le> sint (used bud)"
  shows "charges b bud (store_captured b bud data env)"
  using assms discard_charges [of bud b] discard_charges [of bud "b\<lparr>c_file := True, c_disk := Some []\<rparr>"]
    discard_charges [of bud "b\<lparr>c_file := True, c_disk := Some (c_buffer b), c_buffer := []\<rparr>"]
  by (simp add: store_captured_def append_file_def Let_def charges_def)

lemma capture_locked_charges:
  assumes "budget_wf bud" "0 \<le> c_reserved b" "c_reserved b \<le> sint (used bud)" "c_limit b < 2 ^ 63"
  shows "charges b bud (captureLocked b bud data env)"
proof (cases rule: captureLocked_cases [of b bud data env])
  case ignored
  thus ?thesis using assms by (simp add: charges_def)
next
  case discarded
  thus ?thesis using discard_charges assms by simp
next
  case (stored b1 bud1)
  have "c_read b - c_reserved b \<le> 2 ^ 63 - 1" using stored(3) assms(2,4) by linarith
  hence u: "sint (used bud1) = sint (used bud) - c_reserved b + c_reserved b1 \<and> budget_wf bud1"
    using rb.settle [of bud "c_reserved b" "c_reserved b1" bud1] assms budget_used_max [OF assms(1)] stored(5-7)
    by (auto simp: max_def split: if_splits)
  have l: "limit bud1 = limit bud" by (simp add: stored(6))
  have "charges b1 bud1 (store_captured b1 bud1 data env)"
    by (rule store_charges) (use u assms stored(5) in \<open>auto simp: max_def\<close>)
  thus ?thesis using u l unfolding stored(4) by (simp add: charges_def)
qed

lemma capture_size_simps [simp]:
  "capture_size (b\<lparr>c_read := n\<rparr>) = capture_size b" "capture_size (b\<lparr>c_complete := x\<rparr>) = capture_size b"
  "capture_size (b\<lparr>c_reserved := n\<rparr>) = capture_size b" "capture_size (b\<lparr>c_sealed := x\<rparr>) = capture_size b"
  "capture_size (b\<lparr>c_file := x\<rparr>) = capture_size b"
  by (simp_all add: capture_size_def)

lemma store_ok:
  assumes "\<not> c_overflow b" "\<not> c_sealed b" "c_limit b = lim" "0 \<le> c_read b" "c_read b \<le> c_reserved b"
    and "capture_size b + int (length data) = c_read b"
    and "if c_file b then c_disk b \<noteq> None \<and> c_buffer b = [] else c_disk b = None"
  shows "capture_ok lim [] (fst (store_captured b bud data env))"
  using assms by (auto simp: store_captured_def append_file_def Let_def capture_ok_def capture_size_def split: option.splits)

lemma captureLocked_ok:
  assumes "capture_ok lim d b"
  shows "capture_ok lim d (fst (captureLocked (b\<lparr>c_read := c_read b + int (length data)\<rparr>) bud data env))"
proof (cases rule: captureLocked_cases [of "b\<lparr>c_read := c_read b + int (length data)\<rparr>" bud data env])
  case ignored
  thus ?thesis using assms by (cases "c_overflow b") (simp_all add: capture_ok_def)
next
  case discarded
  thus ?thesis using assms by (simp add: capture_ok_def)
next
  case (stored b1 bud1)
  have "d = []" using stored(1,2) assms by (simp add: capture_ok_def)
  moreover have "capture_ok lim [] (fst (store_captured b1 bud1 data env))"
    by (rule store_ok) (use stored(1,2,5) assms in \<open>auto simp: capture_ok_def\<close>)
  ultimately show ?thesis using stored(4) by simp
qed

lemma capture_Read_ok:
  assumes "capture_ok lim d b" "budget_wf bud" "c_reserved b \<le> sint (used bud)" "lim < 2 ^ 63"
  shows "capture_ok lim d (fst (capture_Read b bud data eof env)) \<and> charges b bud (capture_Read b bud data eof env)"
proof -
  let ?b = "b\<lparr>c_read := c_read b + int (length data)\<rparr>"
  have "capture_ok lim d (fst (captureLocked ?b bud data env))" by (rule captureLocked_ok [OF assms(1)])
  moreover have "charges ?b bud (captureLocked ?b bud data env)"
    by (rule capture_locked_charges) (use assms in \<open>auto simp: capture_ok_def\<close>)
  moreover have "capture_ok lim d (b\<lparr>c_complete := x\<rparr>) = capture_ok lim d b" for x b
    by (simp add: capture_ok_def)
  ultimately show ?thesis using assms(1,2)
    by (auto simp: capture_Read_def charges_def split: prod.split)
qed

lemma capture_replay_ok:
  assumes "capture_ok lim [] c" "capture_replay c env = (c', res)"
  shows "c_reserved c' = c_reserved c \<and>
    capture_ok lim (case res of ReplayData d \<Rightarrow> d | _ \<Rightarrow> []) c'"
proof (cases "\<not> c_complete c \<or> c_overflow c")
  case True
  thus ?thesis using assms by (auto simp: capture_replay_def)
next
  case False
  show ?thesis
  proof (cases "c_sealed c")
    case True
    thus ?thesis using assms False
      by (auto simp: capture_replay_def capture_ok_def capture_size_def Let_def split: if_splits)
  next
    case unsealed: False
    thus ?thesis using assms False
      by (auto simp: capture_replay_def capture_ok_def capture_size_def Let_def split: if_splits)
  qed
qed

lemma prepareRetry_ok:
  assumes "replay_ok lim r" "prepareRetry r env = (r', res)"
  shows "replay_ok lim r' \<and> replay_reserved r' = replay_reserved r"
proof (cases "r_getBody r \<or> \<not> r_first r \<or> r_prepared r \<or> r_capture r = None")
  case True
  thus ?thesis using assms by (auto simp: prepareRetry_def replay_ok_def replay_reserved_def split: option.splits if_splits)
next
  case False
  then obtain c where c: "r_capture r = Some c" by auto
  obtain c' x where x: "capture_replay c env = (c', x)" by (rule prod.exhaust)
  have d: "r_data r = []" "capture_ok lim [] c" using assms(1) False c by (auto simp: replay_ok_def)
  from capture_replay_ok [OF d(2) x] show ?thesis using assms(2) False c x d(1)
    by (cases x) (auto simp: prepareRetry_def replay_ok_def replay_reserved_def Let_def)
qed

lemma replay_bounds:
  assumes "replay_ok lim r"
  shows "0 \<le> replay_reserved r" "replay_size r \<le> replay_reserved r"
proof -
  have "capture_size c \<ge> 0" for c by (simp add: capture_size_def split: option.split)
  thus "0 \<le> replay_reserved r" "replay_size r \<le> replay_reserved r"
    using assms
    by (auto simp: replay_ok_def replay_reserved_def replay_size_def capture_ok_def capture_size_def split: option.splits if_splits)
qed

definition capture_inv :: "int \<Rightarrow> i64 \<Rightarrow> capture_sys \<Rightarrow> bool" where
  "capture_inv lim maxBytes s \<longleftrightarrow> list_all (replay_ok lim) (replays s) \<and> budget_wf (captureBudget s) \<and>
     limit (captureBudget s) = maxBytes \<and> sum_list (map replay_reserved (replays s)) = sint (used (captureBudget s))"

lemma sum_split:
  "i < length xs \<Longrightarrow> sum_list (map f xs) = sum_list (map f (take i xs @ drop (Suc i) xs)) + (f (xs ! i) :: int)"
proof -
  assume i: "i < length xs"
  have "sum_list (map f xs) = sum_list (map f (take i xs @ xs ! i # drop (Suc i) xs))" using id_take_nth_drop [OF i] by simp
  thus ?thesis by simp
qed

lemma reserved_le_used:
  assumes "capture_inv lim maxBytes s" "i < length (replays s)"
  shows "replay_reserved (replays s ! i) \<le> sint (used (captureBudget s))"
proof -
  let ?rest = "take i (replays s) @ drop (Suc i) (replays s)"
  have "set ?rest \<subseteq> set (replays s)" using set_take_subset set_drop_subset by fastforce
  hence "replay_ok lim r" if "r \<in> set ?rest" for r
    using that assms(1) by (auto simp: capture_inv_def list_all_iff)
  hence "0 \<le> replay_reserved r" if "r \<in> set ?rest" for r using that replay_bounds(1) by blast
  hence "0 \<le> sum_list (map replay_reserved ?rest)" by (intro sum_list_nonneg) auto
  thus ?thesis using assms sum_split [OF assms(2), of replay_reserved] by (simp add: capture_inv_def)
qed

lemma new_ok:
  assumes "newBodyReplay noBody hasGetBody len lim bud = (bud', res)" "budget_wf bud" "lim < 2 ^ 63"
  shows "budget_wf bud' \<and> limit bud' = limit bud \<and>
    (case res of Inl e \<Rightarrow> bud' = bud
     | Inr r \<Rightarrow> replay_ok lim r \<and> sint (used bud') = sint (used bud) + replay_reserved r)"
proof (cases "noBody \<or> hasGetBody \<or> lim < len \<or> limit bud = 0 \<or> len \<le> 0")
  case True
  thus ?thesis using assms
    by (auto simp: newBodyReplay_def Let_def replay_ok_def replay_reserved_def capture_ok_def capture_size_def split: if_splits)
next
  case False
  hence len: "0 < len" "len \<le> 2 ^ 63 - 1" using assms(3) by auto
  obtain b g where r: "reserve_int bud len = (b, g)" by (rule prod.exhaust)
  have w: "budget_wf b" "limit b = limit bud" "g \<longleftrightarrow> sint (used bud) + len \<le> sint (limit bud)"
    "sint (used b) = (if sint (used bud) + len \<le> sint (limit bud) then sint (used bud) + len else sint (used bud))"
    using rb.invar_take [OF assms(2), of len] rb.take_level [OF assms(2), of len] rb.take_granted [OF assms(2), of len]
      int_limits(1) [of bud len] len r by simp_all
  have "b = bud" if "\<not> g" using that r by (simp add: reserve_int_def reserve_def split: if_splits)
  thus ?thesis using assms(1) False len r w
    by (auto simp: newBodyReplay_def Let_def replay_ok_def replay_reserved_def capture_ok_def capture_size_def split: if_splits)
qed

lemma capture_inv_read:
  assumes "capture_inv lim maxBytes s" "lim < 2 ^ 63" "i < length (replays s)" "r_capture (replays s ! i) = Some c"
    and "capture_Read c (captureBudget s) data eof env = (c', bud)"
  shows "capture_inv lim maxBytes \<lparr>replays = (replays s)[i := (replays s ! i)\<lparr>r_capture := Some c'\<rparr>], captureBudget = bud\<rparr>"
proof -
  let ?r = "replays s ! i"
  have ok: "replay_ok lim ?r" using assms(1,3) by (simp add: capture_inv_def list_all_length)
  have res: "replay_reserved ?r = c_reserved c" by (simp add: replay_reserved_def assms(4))
  have "capture_ok lim (r_data ?r) c" using ok assms(4) by (simp add: replay_ok_def)
  moreover have "c_reserved c \<le> sint (used (captureBudget s))" using reserved_le_used [OF assms(1,3)] res by simp
  ultimately have c': "capture_ok lim (r_data ?r) c'" "charges c (captureBudget s) (c', bud)"
    using capture_Read_ok [of lim "r_data ?r" c "captureBudget s" data eof env] assms by (auto simp: capture_inv_def)
  have "replay_ok lim (?r\<lparr>r_capture := Some c'\<rparr>)" using c'(1) ok by (simp add: replay_ok_def)
  moreover have "replay_reserved (?r\<lparr>r_capture := Some c'\<rparr>) = c_reserved c'" by (simp add: replay_reserved_def)
  ultimately show ?thesis using assms(1,3) c'(2) res
    by (auto simp: capture_inv_def charges_def sum_list_map_update list_all_iff dest!: set_update_subset_insert [THEN subsetD])
qed

lemma capture_inv_close:
  assumes "capture_inv lim maxBytes s" "i < length (replays s)" "replay_close (replays s ! i) (captureBudget s) = (r, bud)"
  shows "capture_inv lim maxBytes \<lparr>replays = take i (replays s) @ drop (Suc i) (replays s), captureBudget = bud\<rparr>"
proof -
  let ?r = "replays s ! i"
  have ok: "replay_ok lim ?r" using assms(1,2) by (simp add: capture_inv_def list_all_length)
  have le: "replay_reserved ?r \<le> sint (used (captureBudget s))" by (rule reserved_le_used [OF assms(1,2)])
  have b: "sint (used bud) = sint (used (captureBudget s)) - replay_reserved ?r \<and> budget_wf bud \<and> limit bud = maxBytes"
  proof (cases "r_capture ?r")
    case None
    thus ?thesis using assms by (simp add: replay_close_def replay_reserved_def capture_inv_def)
  next
    case (Some c)
    have "0 \<le> c_reserved c" using ok Some by (simp add: replay_ok_def capture_ok_def)
    hence "charges c (captureBudget s) (discardLocked c (captureBudget s))"
      using assms(1) le Some by (intro discard_charges) (simp_all add: capture_inv_def replay_reserved_def)
    moreover have "bud = snd (discardLocked c (captureBudget s))"
      using assms(3) Some by (auto simp: replay_close_def split: prod.splits)
    ultimately show ?thesis using assms(1) Some by (simp add: charges_def replay_reserved_def capture_inv_def)
  qed
  have "list_all (replay_ok lim) (take i (replays s) @ drop (Suc i) (replays s))"
    using assms(1) by (auto simp: capture_inv_def list_all_iff dest: in_set_takeD in_set_dropD)
  thus ?thesis using b assms(1) sum_split [OF assms(2), of replay_reserved] by (simp add: capture_inv_def)
qed

lemma capture_step_inv:
  assumes "capture_step lim s t" "capture_inv lim maxBytes s" "lim < 2 ^ 63"
  shows "capture_inv lim maxBytes t"
  using assms
proof (induction rule: capture_step.induct)
  case (new noBody hasGetBody len s bud r)
  thus ?case using new_ok [OF new.hyps] by (auto simp: capture_inv_def)
next
  case (refused noBody hasGetBody len s bud e)
  thus ?case using new_ok [OF refused.hyps] by (auto simp: capture_inv_def)
next
  case (read i s c data eof env c' bud)
  thus ?case using capture_inv_read by blast
next
  case (prepare i s env r res)
  have ok: "replay_ok lim (replays s ! i)" using prepare.prems(1) prepare.hyps(1) by (simp add: capture_inv_def list_all_length)
  note p = prepareRetry_ok [OF ok prepare.hyps(2)]
  show ?case using prepare.prems(1) prepare.hyps(1) p
    by (auto simp: capture_inv_def sum_list_map_update list_all_iff dest!: set_update_subset_insert [THEN subsetD])
next
  case (close i s r bud)
  thus ?case using capture_inv_close by blast
qed

lemma capture_reachable_inv:
  assumes "capture_reachable lim maxBytes s" "lim < 2 ^ 63" "0 \<le> sint maxBytes"
  shows "capture_inv lim maxBytes s"
  using assms(1)
proof induction
  case start
  show ?case using assms(3) by (simp add: capture_inv_def newResourceBudget_def budget_wf_def)
next
  case (step s t)
  thus ?case using capture_step_inv assms(2) by blast
qed

lemma capture_inv_size:
  assumes "capture_inv lim maxBytes s"
  shows "sum_list (map replay_size (replays s)) \<le> sint maxBytes"
proof -
  have "sum_list (map replay_size (replays s)) \<le> sum_list (map replay_reserved (replays s))"
    by (rule sum_list_mono) (use assms replay_bounds(2) in \<open>auto simp: capture_inv_def list_all_iff\<close>)
  thus ?thesis using assms by (auto simp: capture_inv_def budget_wf_def)
qed

text \<open>
  C28. The bytes that all requests in flight keep for a retry, in memory and on disk together, never exceed
  \<open>MaxRetryCaptureBytes\<close>, and the budget is exact: when all replays are closed, everything was given back, once.
\<close>

theorem retry_capture_bounded:
  assumes "capture_reachable lim maxBytes s" "lim < 2 ^ 63" "0 \<le> sint maxBytes"
  shows "sum_list (map replay_size (replays s)) \<le> sint maxBytes \<and>
    sum_list (map replay_reserved (replays s)) = sint (used (captureBudget s)) \<and>
    (replays s = [] \<longrightarrow> captureBudget s = newResourceBudget maxBytes)"
proof -
  have inv: "capture_inv lim maxBytes s" by (rule capture_reachable_inv [OF assms])
  have "captureBudget s = newResourceBudget maxBytes" if "replays s = []"
  proof -
    have "sint (used (captureBudget s)) = 0" using inv that by (simp add: capture_inv_def)
    hence "used (captureBudget s) = 0" by (metis sint_0 signed_word_eqI)
    thus ?thesis using inv by (simp add: capture_inv_def newResourceBudget_def)
  qed
  thus ?thesis using inv capture_inv_size [OF inv] by (auto simp: capture_inv_def budget_wf_def)
qed

lemma capture_example:
  "\<exists>s. capture_reachable 100 50 s \<and> length (replays s) = 1 \<and> sum_list (map replay_reserved (replays s)) = 4"
proof -
  obtain r where new: "newBodyReplay False False 4 100 (newResourceBudget 50) = (\<lparr>limit = 50, used = 4\<rparr>, Inr r)"
    "replay_reserved r = 4"
    by (simp add: newBodyReplay_def newResourceBudget_def reserve_int_def reserve_def exhausted_def replay_reserved_def)
  have "capture_reachable 100 50 \<lparr>replays = [] @ [r], captureBudget = \<lparr>limit = 50, used = 4\<rparr>\<rparr>"
    using capture_reachable.step [OF capture_reachable.start capture_step.new] new(1) by fastforce
  thus ?thesis using new(2) by force
qed

theorem retry_capture_bounded_witness:
  "\<exists>s. capture_reachable 100 50 s \<and> length (replays s) = 1 \<and> sint (used (captureBudget s)) = 4 \<and>
     sum_list (map replay_size (replays s)) \<le> 50"
proof -
  obtain s where s: "capture_reachable 100 50 s" "length (replays s) = 1" "sum_list (map replay_reserved (replays s)) = 4"
    using capture_example by blast
  thus ?thesis using retry_capture_bounded [OF s(1)] by auto
qed

end
