(* ===== verification/Reply.thy ===== *)
theory Reply
  imports Go_Http
begin

section \<open>Responses the proxy writes itself\<close>

text \<open>
  \<^verbatim>\<open>writeUnavailable\<close> and \<^verbatim>\<open>writeProxyError\<close> of \<^verbatim>\<open>internal/proxy/proxy.go\<close>, the synthetic responses and the
  error handlers of the two reverse proxies of \<^verbatim>\<open>internal/proxy/transport.go\<close>. An error is its message and the
  list of sentinels it wraps, so that \<^verbatim>\<open>errors.Is\<close> is membership.
\<close>

subsection \<open>Errors\<close>

datatype sentinel =
  CtxCanceled | CtxDeadline | QueueDeadlineErr | UpstreamDeadlineErr | QueueFullErr | TooManyClientsErr |
  BucketStateLimitErr | InvalidRequestBudgetErr | RetryCaptureBudgetErr | RetryPreparationErr | ProxyClosedErr

type_synonym error = "string \<times> sentinel list"

definition errors_Is :: "error \<Rightarrow> sentinel \<Rightarrow> bool" where
  "errors_Is e s \<longleftrightarrow> s \<in> set (snd e)"

definition errRetryCaptureBudget :: error where
  "errRetryCaptureBudget = (''retry capture capacity exhausted'', [RetryCaptureBudgetErr])"

definition errRetryPreparation :: "string \<Rightarrow> error" where
  \<comment> \<open>wrapped with the text of its cause\<close>
  "errRetryPreparation cause = (''retry body preparation failed: '' @ cause, [RetryPreparationErr])"

definition errQueueDeadline :: error where
  "errQueueDeadline = (''Discord scheduler deadline exceeded: context deadline exceeded'', [QueueDeadlineErr, CtxDeadline])"

definition errUpstreamDeadline :: error where
  "errUpstreamDeadline = (''Discord upstream deadline exceeded: context deadline exceeded'', [UpstreamDeadlineErr, CtxDeadline])"

definition errInvalidRequestBudget :: error where
  "errInvalidRequestBudget = (''Discord invalid-request safety budget exhausted'', [InvalidRequestBudgetErr])"

definition contextCauseOrError :: "error option \<Rightarrow> error \<Rightarrow> error" where
  "contextCauseOrError cause err = (case cause of Some c \<Rightarrow> c | None \<Rightarrow> err)"


subsection \<open>Replies\<close>

record reply =
  rp_status :: nat
  rp_header :: header
  rp_body :: string

definition newline :: string where "newline = [char_of (10 :: nat)]"

definition writeProxyError :: "header \<Rightarrow> string \<Rightarrow> nat \<Rightarrow> reply" where
  \<comment> \<open>on top of the headers the writer already has\<close>
  "writeProxyError h message status =
     \<lparr>rp_status = status,
      rp_header = header_Set (header_Set h ''Content-Type'' ''text/plain; charset=utf-8'') ''X-Nirn-Proxy-Error'' ''true'',
      rp_body = message @ newline\<rparr>"

definition writeUnavailable :: "header \<Rightarrow> string \<Rightarrow> reply" where
  "writeUnavailable h message = writeProxyError (header_Set h ''Retry-After'' ''1'') message StatusServiceUnavailable"

definition StatusText :: "nat \<Rightarrow> string" where
  \<comment> \<open>of the codes that are synthesised\<close>
  "StatusText c = (if c = StatusTooManyRequests then ''Too Many Requests'' else if c = StatusUnauthorized then ''Unauthorized'' else [])"

record response =
  rs_status_line :: string
  rs_status :: nat
  rs_header :: header
  rs_body :: string
  rs_contentLength :: int

definition syntheticResponse :: "nat \<Rightarrow> string \<Rightarrow> response" where
  "syntheticResponse status bdy =
     \<lparr>rs_status_line = Itoa (int status) @ '' '' @ StatusText status, rs_status = status,
      rs_header = [(''Content-Type'', [''application/json''])], rs_body = bdy, rs_contentLength = int (length bdy)\<rparr>"

definition unauthorizedResponse :: response where
  "unauthorizedResponse =
     syntheticResponse StatusUnauthorized
       (''{'' @ newline @ [char_of (9 :: nat)] @ ''\"message\": \"401: Unauthorized\",'' @ newline @ [char_of (9 :: nat)] @
        ''\"code\": 0'' @ newline @ ''}'')"

definition remembered_seconds :: "duration \<Rightarrow> int" where
  "remembered_seconds delay = max 1 ((delay + Second - 1) div Second)"

definition rememberedRateLimitResponse :: "duration \<Rightarrow> bool \<Rightarrow> response" where
  "rememberedRateLimitResponse delay global =
     (let seconds = remembered_seconds delay;
          r = syntheticResponse StatusTooManyRequests
                (''{\"message\":\"You are being rate limited.\",\"retry_after\":'' @ Itoa seconds @ '',\"global\":'' @
                 (if global then ''true'' else ''false'') @ ''}'');
          h = header_Set (rs_header r) ''Retry-After'' (Itoa seconds)
      in r\<lparr>rs_header := (if global then header_Set (header_Set h ''X-RateLimit-Global'' ''true'') ''X-RateLimit-Scope'' ''global''
                        else h)\<rparr>)"


subsection \<open>Error handlers\<close>

datatype failure = QueueTimeoutFailure | UpstreamTimeoutFailure | DeadlineFailure | UpstreamErrorFailure | PeerErrorFailure

definition discord_ErrorHandler :: "bool \<Rightarrow> header \<Rightarrow> error \<Rightarrow> failure option \<times> reply option" where
  \<comment> \<open>the failure counted, and the reply: none for a client that went away\<close>
  "discord_ErrorHandler proxyDone h err =
     (if errors_Is err CtxCanceled then
        (None, if proxyDone then Some (writeUnavailable h ''proxy is shutting down'') else None)
      else if errors_Is err QueueDeadlineErr then
        (Some QueueTimeoutFailure, Some (writeProxyError h (fst err) StatusRequestTimeout))
      else if errors_Is err UpstreamDeadlineErr then
        (Some UpstreamTimeoutFailure, Some (writeProxyError h (fst err) StatusGatewayTimeout))
      else if errors_Is err CtxDeadline then
        (Some DeadlineFailure, Some (writeProxyError h (fst err) StatusRequestTimeout))
      else if errors_Is err QueueFullErr \<or> errors_Is err TooManyClientsErr \<or> errors_Is err BucketStateLimitErr \<or>
              errors_Is err InvalidRequestBudgetErr \<or> errors_Is err RetryCaptureBudgetErr \<or> errors_Is err RetryPreparationErr then
        (None, Some (writeUnavailable h (fst err)))
      else (Some UpstreamErrorFailure, Some (writeProxyError h ''Discord upstream unavailable'' StatusBadGateway)))"

definition peer_ErrorHandler :: "bool \<Rightarrow> header \<Rightarrow> bool \<times> failure option \<times> reply option" where
  \<comment> \<open>whether \<^verbatim>\<open>RequestsRoutedError\<close> is counted, the failure, and the reply\<close>
  "peer_ErrorHandler enableMetrics h =
     (enableMetrics, Some PeerErrorFailure, Some (writeUnavailable h ''cluster peer unavailable''))"


subsection \<open>Lemmas\<close>

lemma remembered_seconds_covers:
  "1 \<le> remembered_seconds delay" "delay \<le> remembered_seconds delay * Second"
  "0 < delay \<Longrightarrow> remembered_seconds delay * Second < delay + Second"
proof -
  define s where "s = (delay + Second - 1) div Second"
  have "0 < Second" by (simp add: Second_def)
  hence "(delay + Second - 1) - s * Second = (delay + Second - 1) mod Second"
    "0 \<le> (delay + Second - 1) mod Second" "(delay + Second - 1) mod Second < Second"
    unfolding s_def by (simp_all add: minus_div_mult_eq_mod)
  hence s: "delay \<le> s * Second" "s * Second < delay + Second" by linarith+
  have m: "remembered_seconds delay = max 1 s" by (simp add: remembered_seconds_def s_def)
  show "1 \<le> remembered_seconds delay" by (simp add: m)
  have "s * Second \<le> max 1 s * Second" by (rule mult_right_mono) (simp_all add: Second_def)
  from order_trans [OF s(1) this] show "delay \<le> remembered_seconds delay * Second" by (simp add: m)
  show "remembered_seconds delay * Second < delay + Second" if "0 < delay"
  proof -
    have "1 \<le> s" using s(1) that by (simp add: Second_def)
    thus ?thesis using s m by simp
  qed
qed

end
