(* ===== verification/Transport.thy ===== *)
theory Transport
  imports Headers Replay Reply Pacer
begin

section \<open>The scheduled transport\<close>

text \<open>
  \<^verbatim>\<open>scheduledTransport.RoundTrip\<close> of \<^verbatim>\<open>internal/proxy/transport.go\<close>: one request from the first check of the
  invalid-request budget to the response, with every early return, every deferred call and the retry loop. What
  it reads of state shared with other requests, what its blocking calls return, and what Discord answers are arguments: a
  \<open>request_env\<close> for the part before the loop and an \<open>attempt_env\<close> for each attempt. The result is the
  sequence of what it does, and what it returns, or \<open>None\<close> when the list of attempts ends before it returns. The replay
  of the request body is the model of \<open>Replay\<close>.
\<close>

subsection \<open>Small helpers\<close>

definition retryDrainLimit :: int where "retryDrainLimit = 65536"

definition retryWouldExceedDeadline :: "time option \<Rightarrow> duration \<Rightarrow> duration \<Rightarrow> time \<Rightarrow> bool" where
  "retryWouldExceedDeadline deadline delay rsv now \<longleftrightarrow>
     0 < delay \<and> (case deadline of None \<Rightarrow> False | Some d \<Rightarrow> time_Sub d now \<le> delay + rsv)"

record snapshot =
  \<comment> \<open>what \<^verbatim>\<open>knownRateLimit\<close> reads\<close>
  sn_bucket :: bucketState
  sn_pacer :: pacer
  sn_now :: time

definition knownRateLimit :: "bool \<Rightarrow> snapshot \<Rightarrow> duration \<times> bool" where
  "knownRateLimit interaction sn =
     (let delay = retryAfter (sn_bucket sn) (sn_now sn);
          globalDelay = (if interaction then 0 else pacer_retryAfter (sn_pacer sn) (sn_now sn))
      in if delay < globalDelay then (globalDelay, True) else (delay, False))"


subsection \<open>What happens\<close>

datatype rt_event =
  QueueStart | QueueCancel | Acquire nat | Release nat | ValidationAcquire | ValidationRelease | SetValidity validity |
  ReplayOpen | ReplayClose | Limited | BucketReady | PacerReady | AttemptStart | AttemptCancel | Reserve | Complete bool |
  Send nat outgoing | Observe nat header | CloseRequestBody | CloseResponseBody | Drain int | Histogram string | HandOver

datatype rt_result = RtError error | RtResponse response | RtUpstream nat header

datatype upstream_result = UpstreamError error "error option" bool | UpstreamNothing | Upstream nat header

record rt_config =
  UpstreamTimeout :: duration
  Disable401Lock :: bool
  queueDeadline :: "time option"
  MaxRetryBodyBytes :: int
  metricsEnabled :: bool

record request_env =
  hasMetadata :: bool
  budgetAvailable :: bool
  queueCause :: "error option"
  acquired :: "error + nat"
  validityBefore :: validity
  validationFails :: "error option"
  validityInside :: validity
  validityAfter :: validity
  noRequestBody :: bool
  hasGetBody :: bool
  requestLength :: int
  captureBefore :: resourceBudget

record attempt_env =
  known :: snapshot
  t_check :: time
  waitCause :: "error option"
  bucketWait :: "error + duration"
  knownLater :: snapshot
  pacerWait :: "error + duration"
  files :: file_env
  ioText :: string
  guardGrants :: bool
  upstream :: upstream_result
  statusLine :: string
  firstReads :: "reading list"
  knownObserved :: snapshot
  t_retry :: time
  reacquired :: "error + nat"

record rt_local =
  bucketNow :: nat
  bucketHeld :: bool
  validationHeld :: bool
  queuePending :: bool
  replaying :: bodyReplay

definition replay_error_text :: "string \<Rightarrow> replay_error \<Rightarrow> string" where
  "replay_error_text io e = (case e of CannotReplay \<Rightarrow> ''request body cannot be replayed'' | _ \<Rightarrow> io)"

definition before_send :: "rt_config \<Rightarrow> bool \<Rightarrow> attempt_env \<Rightarrow> rt_event list \<times> rt_result option" where
  \<comment> \<open>the top of the loop, up to the pacer: \<open>None\<close> goes on\<close>
  "before_send cfg interaction a =
     (case knownRateLimit interaction (known a) of (delay, global) \<Rightarrow>
        if retryWouldExceedDeadline (queueDeadline cfg) delay (UpstreamTimeout cfg) (t_check a)
        then ([Limited], Some (RtResponse (rememberedRateLimitResponse delay global)))
        else case bucketWait a of
          Inl e \<Rightarrow> ([], Some (RtError (contextCauseOrError (waitCause a) e)))
        | Inr d \<Rightarrow>
            if 0 < d then
              (case knownRateLimit interaction (knownLater a) of (d', g') \<Rightarrow>
                 ([Limited], Some (RtResponse (if 0 < d' then rememberedRateLimitResponse d' g'
                                               else rememberedRateLimitResponse d False))))
            else if interaction then ([BucketReady], None)
            else case pacerWait a of
              Inl e \<Rightarrow> ([BucketReady], Some (RtError (contextCauseOrError (waitCause a) e)))
            | Inr d' \<Rightarrow>
                if 0 < d' then ([BucketReady, Limited], Some (RtResponse (rememberedRateLimitResponse d' True)))
                else ([BucketReady, PacerReady], None))"

definition settle_validation :: "rt_config \<Rightarrow> nat \<Rightarrow> rt_local \<Rightarrow> rt_event list \<times> rt_local" where
  "settle_validation cfg status l =
     (if \<not> validationHeld l then ([], l)
      else ([SetValidity (if status = StatusUnauthorized \<and> \<not> Disable401Lock cfg then clientInvalid else clientValid),
             ValidationRelease], l\<lparr>validationHeld := False\<rparr>))"

definition releaseBucket :: "rt_local \<Rightarrow> rt_event list \<times> rt_local" where
  "releaseBucket l = (if bucketHeld l then ([Release (bucketNow l)], l\<lparr>bucketHeld := False\<rparr>) else ([], l))"

definition hand_over_response :: "nat \<Rightarrow> header \<Rightarrow> rt_local \<Rightarrow> rt_event list \<times> rt_local \<times> rt_result option" where
  \<comment> \<open>the response is returned, and cancels both contexts when its body is closed\<close>
  "hand_over_response status h l =
     (case releaseBucket l of (evs, l1) \<Rightarrow> (evs @ [HandOver], l1\<lparr>queuePending := False\<rparr>, Some (RtUpstream status h)))"

definition read_first :: "rt_local \<Rightarrow> nat \<Rightarrow> reading list \<Rightarrow> rt_local" where
  \<comment> \<open>what the transport read of the first body while it sent the request\<close>
  "read_first l attempt rs =
     (if attempt = 0
      then l\<lparr>replaying := (replaying l)\<lparr>r_capture := map_option (\<lambda>c. capture_reads c rs) (r_capture (replaying l))\<rparr>\<rparr>
      else l)"

definition observe_duration :: "rt_config \<Rightarrow> string \<Rightarrow> nat \<Rightarrow> header \<Rightarrow> rt_event list" where
  \<comment> \<open>the status label of \<^verbatim>\<open>RequestHistogram\<close>; its other labels are those of the request\<close>
  "observe_duration cfg text status h =
     (if metricsEnabled cfg
      then [Histogram (if status = StatusTooManyRequests \<and> header_Get h ''X-RateLimit-Scope'' = ''shared''
                       then ''429 Shared'' else text)]
      else [])"

definition after_response ::
  "rt_config \<Rightarrow> bool \<Rightarrow> attempt_env \<Rightarrow> nat \<Rightarrow> header \<Rightarrow> rt_local \<Rightarrow> rt_event list \<times> rt_local \<times> rt_result option" where
  \<comment> \<open>from the response to the next attempt: \<open>None\<close> goes on\<close>
  "after_response cfg interaction a status h l =
     (case settle_validation cfg status l of (ev0, l1) \<Rightarrow>
        let ev1 = ev0 @ observe_duration cfg (statusLine a) status h in
        if status \<noteq> StatusTooManyRequests then
          (case hand_over_response status h l1 of (ev2, l2, res) \<Rightarrow> (ev1 @ ev2, l2, res))
        else case prepareRetry (replaying l1) (files a) of (r, prep) \<Rightarrow>
          let l2 = l1\<lparr>replaying := r\<rparr> in
          case prep of
            Inl e \<Rightarrow> (ev1 @ [AttemptCancel, CloseResponseBody], l2,
                       Some (RtError (errRetryPreparation (''finish retry body: '' @ ioText a))))
          | Inr ok \<Rightarrow>
              let exceeds = (ok \<and> retryWouldExceedDeadline (queueDeadline cfg)
                               (fst (knownRateLimit interaction (knownObserved a))) (UpstreamTimeout cfg) (t_retry a))
              in if \<not> ok \<or> exceeds then
                   (case hand_over_response status h l2 of (ev2, l3, res) \<Rightarrow>
                      (ev1 @ (if exceeds then [Limited] else []) @ ev2, l3, res))
                 else case releaseBucket l2 of (ev2, l3) \<Rightarrow>
                   let evs = ev1 @ [Drain retryDrainLimit, AttemptCancel, CloseResponseBody] @ ev2 in
                   (case reacquired a of
                      Inl e \<Rightarrow> (evs, l3, Some (RtError (contextCauseOrError (waitCause a) e)))
                    | Inr r' \<Rightarrow> (evs @ [Acquire r'], l3\<lparr>bucketNow := r', bucketHeld := True\<rparr>, None)))"

definition send_attempt ::
  "rt_config \<Rightarrow> bool \<Rightarrow> nat \<Rightarrow> attempt_env \<Rightarrow> rt_local \<Rightarrow> rt_event list \<times> rt_local \<times> rt_result option" where
  "send_attempt cfg interaction attempt a l =
     (case body (replaying l) attempt (files a) of (r, bdy) \<Rightarrow>
        let l1 = l\<lparr>replaying := r\<rparr> in
        case bdy of
          Inl e \<Rightarrow> ([], l1, Some (RtError (errRetryPreparation (replay_error_text (ioText a) e))))
        | Inr b \<Rightarrow>
            if \<not> guardGrants a then
              ([AttemptStart] @ (if b = NoBody then [] else [CloseRequestBody]) @ [AttemptCancel], l1,
               Some (RtError errInvalidRequestBudget))
            else
              let l2 = read_first l1 attempt (firstReads a) in
              case upstream a of
                UpstreamError e cause hasBody \<Rightarrow>
                  ([AttemptStart, Reserve, Send attempt b, Complete False, AttemptCancel] @
                     (if hasBody then [CloseResponseBody] else []), l2, Some (RtError (contextCauseOrError cause e)))
              | UpstreamNothing \<Rightarrow>
                  ([AttemptStart, Reserve, Send attempt b, Complete False, AttemptCancel], l2,
                   Some (RtError (''upstream transport returned no response'', [])))
              | Upstream status h \<Rightarrow>
                  (case after_response cfg interaction a status h l2 of (evs, l3, res) \<Rightarrow>
                     ([AttemptStart, Reserve, Send attempt b, Complete (invalidDiscordResponse status h), Observe status h] @ evs,
                      l3, res)))"

fun attempts_loop ::
  "rt_config \<Rightarrow> bool \<Rightarrow> nat \<Rightarrow> attempt_env list \<Rightarrow> rt_local \<Rightarrow> rt_event list \<times> rt_local \<times> rt_result option" where
  "attempts_loop cfg interaction attempt [] l = ([], l, None)"
| "attempts_loop cfg interaction attempt (a # as) l =
     (case before_send cfg interaction a of (ev1, res1) \<Rightarrow>
        case res1 of
          Some res \<Rightarrow> (ev1, l, Some res)
        | None \<Rightarrow>
            (case send_attempt cfg interaction attempt a l of (ev2, l2, res2) \<Rightarrow>
               case res2 of
                 Some res \<Rightarrow> (ev1 @ ev2, l2, Some res)
               | None \<Rightarrow> (case attempts_loop cfg interaction (Suc attempt) as l2 of (ev3, l3, res3) \<Rightarrow>
                             (ev1 @ ev2 @ ev3, l3, res3))))"

definition deferred :: "bool \<Rightarrow> rt_local \<Rightarrow> rt_event list" where
  \<comment> \<open>the deferred calls, last one first\<close>
  "deferred hasReplay l =
     (if hasReplay then [ReplayClose] else []) @ (if validationHeld l then [ValidationRelease] else []) @
     (if bucketHeld l then [Release (bucketNow l)] else []) @ (if queuePending l then [QueueCancel] else [])"

definition take_validation :: "bool \<Rightarrow> request_env \<Rightarrow> rt_event list \<times> bool \<times> error option" where
  \<comment> \<open>the events, \<^verbatim>\<open>validationHeld\<close>, and an error\<close>
  "take_validation interaction env =
     (if \<not> interaction \<and> validityBefore env = clientUnknown then
        (case validationFails env of
           Some e \<Rightarrow> ([], False, Some (contextCauseOrError (queueCause env) e))
         | None \<Rightarrow>
             if validityInside env \<noteq> clientUnknown then ([ValidationAcquire, ValidationRelease], False, None)
             else ([ValidationAcquire], True, None))
      else ([], False, None))"

definition no_replay :: bodyReplay where
  "no_replay = \<lparr>r_first = False, r_getBody = False, r_capture = None, r_data = [], r_fileName = False, r_prepared = False\<rparr>"

definition RoundTrip :: "rt_config \<Rightarrow> bool \<Rightarrow> request_env \<Rightarrow> attempt_env list \<Rightarrow> rt_event list \<times> rt_result option" where
  "RoundTrip cfg interaction env as =
     (if \<not> hasMetadata env then ([], Some (RtError (''missing request scheduler metadata'', [])))
      else if \<not> budgetAvailable env then ([], Some (RtError errInvalidRequestBudget))
      else case acquired env of
        Inl e \<Rightarrow> ([QueueStart, QueueCancel], Some (RtError (contextCauseOrError (queueCause env) e)))
      | Inr r \<Rightarrow>
          (case take_validation interaction env of (ev1, vh, err) \<Rightarrow>
             let l = \<lparr>bucketNow = r, bucketHeld = True, validationHeld = vh, queuePending = True,
                      replaying = no_replay\<rparr>;
                 evs = [QueueStart, Acquire r] @ ev1
             in case err of
               Some e \<Rightarrow> (evs @ deferred False l, Some (RtError e))
             | None \<Rightarrow>
                 if validityAfter env = clientInvalid
                 then (evs @ deferred False l, Some (RtResponse unauthorizedResponse))
                 else case snd (newBodyReplay (noRequestBody env) (hasGetBody env) (requestLength env) (MaxRetryBodyBytes cfg)
                                  (captureBefore env)) of
                   Inl e \<Rightarrow> (evs @ deferred False l, Some (RtError errRetryCaptureBudget))
                 | Inr rep \<Rightarrow>
                     (case attempts_loop cfg interaction 0 as (l\<lparr>replaying := rep\<rparr>) of (ev2, l2, res) \<Rightarrow>
                        (evs @ [ReplayOpen] @ ev2 @ (if res = None then [] else deferred True l2), res))))"



subsection \<open>A monitor for what a request owns\<close>

record monitor =
  m_queue :: bool
  m_bucket :: "nat option"
  m_validation :: bool
  m_replay :: bool
  m_attempt :: bool
  m_reserved :: bool
  m_ready :: bool
  m_paced :: bool
  m_settled :: "bool option"

fun monitor_step :: "bool \<Rightarrow> rt_event \<Rightarrow> monitor \<Rightarrow> monitor option" where
  \<comment> \<open>\<open>None\<close> is a mistake: something is taken twice, given back without being owned, or used without being ready\<close>
  "monitor_step i QueueStart m = (if m_queue m then None else Some (m\<lparr>m_queue := True\<rparr>))"
| "monitor_step i QueueCancel m = (if m_queue m then Some (m\<lparr>m_queue := False\<rparr>) else None)"
| "monitor_step i (Acquire r) m =
     (if m_bucket m = None \<and> m_queue m then Some (m\<lparr>m_bucket := Some r, m_ready := False, m_paced := False\<rparr>) else None)"
| "monitor_step i (Release r) m = (if m_bucket m = Some r then Some (m\<lparr>m_bucket := None, m_ready := False\<rparr>) else None)"
| "monitor_step i ValidationAcquire m = (if m_validation m then None else Some (m\<lparr>m_validation := True\<rparr>))"
| "monitor_step i ValidationRelease m = (if m_validation m then Some (m\<lparr>m_validation := False\<rparr>) else None)"
| "monitor_step i (SetValidity v) m = (if m_validation m then Some m else None)"
| "monitor_step i ReplayOpen m = (if m_replay m then None else Some (m\<lparr>m_replay := True\<rparr>))"
| "monitor_step i ReplayClose m = (if m_replay m then Some (m\<lparr>m_replay := False\<rparr>) else None)"
| "monitor_step i Limited m = Some m"
| "monitor_step i BucketReady m = (if m_bucket m = None then None else Some (m\<lparr>m_ready := True\<rparr>))"
| "monitor_step i PacerReady m = (if m_ready m then Some (m\<lparr>m_paced := True\<rparr>) else None)"
| "monitor_step i AttemptStart m = (if m_attempt m \<or> \<not> m_queue m then None else Some (m\<lparr>m_attempt := True\<rparr>))"
| "monitor_step i AttemptCancel m = (if m_attempt m then Some (m\<lparr>m_attempt := False\<rparr>) else None)"
| "monitor_step i Reserve m = (if m_reserved m then None else Some (m\<lparr>m_reserved := True, m_settled := None\<rparr>))"
| "monitor_step i (Complete b) m = (if m_reserved m then Some (m\<lparr>m_reserved := False, m_settled := Some b\<rparr>) else None)"
| "monitor_step i (Send n b) m =
     (if m_bucket m \<noteq> None \<and> m_ready m \<and> (i \<or> m_paced m) \<and> m_reserved m \<and> m_attempt m \<and> m_replay m
      then Some (m\<lparr>m_ready := False, m_paced := False\<rparr>) else None)"
| "monitor_step i (Observe st h) m =
     (if m_bucket m \<noteq> None \<and> m_attempt m \<and> m_settled m = Some (invalidDiscordResponse st h) then Some m else None)"
| "monitor_step i CloseRequestBody m = (if m_attempt m then Some m else None)"
| "monitor_step i CloseResponseBody m = Some m"
| "monitor_step i (Drain n) m = (if m_attempt m then Some m else None)"
| "monitor_step i (Histogram st) m = (if m_attempt m then Some m else None)"
| "monitor_step i HandOver m =
     (if m_attempt m \<and> m_queue m then Some (m\<lparr>m_attempt := False, m_queue := False\<rparr>) else None)"

abbreviation monitored :: "bool \<Rightarrow> rt_event list \<Rightarrow> monitor \<Rightarrow> monitor option" where
  "monitored i \<equiv> trace_run (monitor_step i)"

definition owns_nothing :: "monitor \<Rightarrow> bool" where
  "owns_nothing m \<longleftrightarrow> \<not> m_queue m \<and> m_bucket m = None \<and> \<not> m_validation m \<and> \<not> m_replay m \<and> \<not> m_attempt m \<and> \<not> m_reserved m"

definition idle_monitor :: monitor where
  "idle_monitor = \<lparr>m_queue = False, m_bucket = None, m_validation = False, m_replay = False, m_attempt = False,
     m_reserved = False, m_ready = False, m_paced = False, m_settled = None\<rparr>"

definition owns :: "rt_local \<Rightarrow> monitor \<Rightarrow> bool" where
  \<comment> \<open>between attempts a request owns what its local variables say\<close>
  "owns l m \<longleftrightarrow> m_queue m = queuePending l \<and> m_bucket m = (if bucketHeld l then Some (bucketNow l) else None) \<and>
     m_validation m = validationHeld l \<and> m_replay m \<and> \<not> m_attempt m \<and> \<not> m_reserved m"

lemma before_send_monitored:
  assumes "before_send cfg i a = (evs, res)" "owns l m" "bucketHeld l"
  shows "\<exists>m'. monitored i evs m = Some m' \<and> owns l m' \<and> (res = None \<longrightarrow> m_ready m' \<and> (i \<or> m_paced m'))"
  using assms by (auto simp: before_send_def owns_def split: prod.splits if_splits sum.splits)

lemma after_response_monitored:
  assumes "after_response cfg i a status h l = (evs, l', res)" "owns l (m\<lparr>m_attempt := False\<rparr>)" "m_attempt m"
    and "bucketHeld l" "queuePending l"
  shows "\<exists>m'. monitored i evs m = Some m' \<and> owns l' m' \<and> (res = None \<longrightarrow> bucketHeld l' \<and> queuePending l')"
  using assms
  by (auto simp: after_response_def observe_duration_def settle_validation_def hand_over_response_def releaseBucket_def owns_def Let_def
      split: prod.splits if_splits sum.splits)

lemma send_attempt_monitored:
  assumes "send_attempt cfg i n a l = (evs, l', res)" "owns l m" "bucketHeld l" "queuePending l"
    and "m_ready m" "i \<or> m_paced m"
  shows "\<exists>m'. monitored i evs m = Some m' \<and> owns l' m' \<and> (res = None \<longrightarrow> bucketHeld l' \<and> queuePending l')"
proof -
  obtain r bdy where b: "body (replaying l) n (files a) = (r, bdy)" by (rule prod.exhaust)
  define l1 where "l1 = l\<lparr>replaying := r\<rparr>"
  define l2 where "l2 = read_first l1 n (firstReads a)"
  have l2: "bucketNow l2 = bucketNow l" "bucketHeld l2" "validationHeld l2 = validationHeld l" "queuePending l2"
    using assms(3,4) by (simp_all add: l2_def l1_def read_first_def)
  show ?thesis
  proof (cases "\<exists>status h x. bdy = Inr x \<and> guardGrants a \<and> upstream a = Upstream status h")
    case True
    then obtain status h x where up: "bdy = Inr x" "guardGrants a" "upstream a = Upstream status h" by blast
    obtain ev l3 res3 where ar: "after_response cfg i a status h l2 = (ev, l3, res3)" by (rule prod_cases3)
    define m1 where "m1 = m\<lparr>m_attempt := True, m_ready := False, m_paced := False, m_reserved := False,
      m_settled := Some (invalidDiscordResponse status h)\<rparr>"
    have m1: "owns l2 (m1\<lparr>m_attempt := False\<rparr>)" "m_attempt m1"
      using assms(2,3,4) l2 by (simp_all add: owns_def m1_def)
    have e: "evs = [AttemptStart, Reserve, Send n x, Complete (invalidDiscordResponse status h), Observe status h] @ ev"
      "l' = l3" "res = res3"
      using assms(1) b up ar by (auto simp: send_attempt_def l1_def [symmetric] l2_def [symmetric] Let_def)
    have "monitored i evs m = monitored i ev m1"
      using assms(2-6) unfolding e(1) by (auto simp: owns_def m1_def)
    thus ?thesis using after_response_monitored [OF ar m1 l2(2,4)] e(2,3) by simp
  next
    case False
    have "\<exists>m'. monitored i evs m = Some m' \<and> owns l' m' \<and> res \<noteq> None"
      using assms b False l2 unfolding send_attempt_def l1_def [symmetric]
      by (auto simp: owns_def l1_def l2_def [unfolded l1_def, symmetric] Let_def split: sum.splits if_splits upstream_result.splits)
    thus ?thesis by auto
  qed
qed

lemma attempts_loop_monitored:
  "attempts_loop cfg i n as l = (evs, l', res) \<Longrightarrow> owns l m \<Longrightarrow> bucketHeld l \<Longrightarrow> queuePending l \<Longrightarrow>
   \<exists>m'. monitored i evs m = Some m' \<and> owns l' m'"
proof (induction as arbitrary: n l m evs l' res)
  case Nil
  thus ?case by simp
next
  case (Cons a as)
  obtain ev1 res1 where b: "before_send cfg i a = (ev1, res1)" by (rule prod.exhaust)
  obtain m1 where m1: "monitored i ev1 m = Some m1" "owns l m1" "res1 = None \<longrightarrow> m_ready m1 \<and> (i \<or> m_paced m1)"
    using before_send_monitored [OF b Cons.prems(2,3)] by blast
  show ?case
  proof (cases res1)
    case (Some x)
    thus ?thesis using Cons.prems(1) b m1 by auto
  next
    case None
    obtain ev2 l2 res2 where s: "send_attempt cfg i n a l = (ev2, l2, res2)" by (rule prod_cases3)
    obtain m2 where m2: "monitored i ev2 m1 = Some m2" "owns l2 m2" "res2 = None \<longrightarrow> bucketHeld l2 \<and> queuePending l2"
      using send_attempt_monitored [OF s m1(2) Cons.prems(3,4)] m1(3) None by blast
    show ?thesis
    proof (cases res2)
      case (Some x)
      thus ?thesis using Cons.prems(1) b None s m1 m2 by (auto simp: trace_run_append)
    next
      case none2: None
      obtain ev3 l3 res3 where r: "attempts_loop cfg i (Suc n) as l2 = (ev3, l3, res3)" by (rule prod_cases3)
      obtain m3 where "monitored i ev3 m2 = Some m3" "owns l3 m3"
        using Cons.IH [OF r m2(2)] m2(3) none2 by blast
      thus ?thesis using Cons.prems(1) b None s none2 r m1 m2 by (auto simp: trace_run_append)
    qed
  qed
qed

lemma deferred_monitored:
  "owns l m \<Longrightarrow> \<exists>m'. monitored i (deferred True l) m = Some m' \<and> owns_nothing m'"
  by (auto simp: deferred_def owns_def owns_nothing_def)

lemma take_validation_monitored:
  assumes "take_validation i env = (evs, vh, err)"
  shows "monitored i evs \<lparr>m_queue = True, m_bucket = Some r, m_validation = False, m_replay = False, m_attempt = False,
    m_reserved = False, m_ready = False, m_paced = False, m_settled = None\<rparr> =
   Some \<lparr>m_queue = True, m_bucket = Some r, m_validation = vh, m_replay = False, m_attempt = False,
    m_reserved = False, m_ready = False, m_paced = False, m_settled = None\<rparr>"
  using assms by (auto simp: take_validation_def split: if_splits option.splits)

lemma RoundTrip_monitored:
  assumes "RoundTrip cfg i env as = (evs, res)"
  shows "\<exists>m. monitored i evs idle_monitor = Some m \<and> (res \<noteq> None \<longrightarrow> owns_nothing m)"
proof (cases "hasMetadata env \<and> budgetAvailable env \<and> (\<exists>r. acquired env = Inr r)")
  case False
  thus ?thesis using assms
    by (auto simp: RoundTrip_def idle_monitor_def owns_nothing_def split: if_splits sum.splits)
next
  case True
  then obtain r where acq: "hasMetadata env" "budgetAvailable env" "acquired env = Inr r" by blast
  obtain ev1 vh err where v: "take_validation i env = (ev1, vh, err)" by (rule prod_cases3)
  define l where "l = \<lparr>bucketNow = r, bucketHeld = True, validationHeld = vh, queuePending = True, replaying = no_replay\<rparr>"
  define m1 where "m1 = \<lparr>m_queue = True, m_bucket = Some r, m_validation = vh, m_replay = False, m_attempt = False,
    m_reserved = False, m_ready = False, m_paced = False, m_settled = None\<rparr>"
  define X where "X = [QueueStart, Acquire r] @ ev1"
  have pre: "monitored i X idle_monitor = Some m1"
    using take_validation_monitored [OF v, of r] by (simp add: idle_monitor_def m1_def X_def)
  have early: "\<exists>m. monitored i (X @ deferred False l) idle_monitor = Some m \<and> owns_nothing m"
    by (auto simp: trace_run_append pre) (auto simp: deferred_def l_def m1_def owns_nothing_def)
  define n where "n = snd (newBodyReplay (noRequestBody env) (hasGetBody env) (requestLength env) (MaxRetryBodyBytes cfg)
    (captureBefore env))"
  show ?thesis
  proof (cases "err = None \<and> validityAfter env \<noteq> clientInvalid \<and> (\<exists>rep. n = Inr rep)")
    case False
    hence "evs = X @ deferred False l"
      using assms acq v by (auto simp: RoundTrip_def l_def [symmetric] n_def [symmetric] X_def Let_def split: option.splits if_splits sum.splits)
    thus ?thesis using early by blast
  next
    case True
    then obtain rep where rep: "err = None" "validityAfter env \<noteq> clientInvalid" "n = Inr rep" by blast
    obtain ev2 l2 res2 where lp: "attempts_loop cfg i 0 as (l\<lparr>replaying := rep\<rparr>) = (ev2, l2, res2)" by (rule prod_cases3)
    have e: "evs = X @ [ReplayOpen] @ ev2 @ (if res2 = None then [] else deferred True l2)" "res = res2"
      using assms acq v rep lp [unfolded l_def, simplified] by (auto simp: RoundTrip_def n_def [symmetric] X_def Let_def)
    have "owns (l\<lparr>replaying := rep\<rparr>) (m1\<lparr>m_replay := True\<rparr>)" by (simp add: owns_def l_def m1_def)
    from attempts_loop_monitored [OF lp this]
    obtain m2 where m2: "monitored i ev2 (m1\<lparr>m_replay := True\<rparr>) = Some m2" "owns l2 m2" by (auto simp: l_def)
    have "monitor_step i ReplayOpen m1 = Some (m1\<lparr>m_replay := True\<rparr>)" by (simp add: m1_def)
    hence "monitored i evs idle_monitor = monitored i (if res2 = None then [] else deferred True l2) m2"
      unfolding e(1) trace_run_append pre using m2(1) by simp
    thus ?thesis using deferred_monitored [OF m2(2)] e(2) by auto
  qed
qed

text \<open>
  C1. On every path through \<open>RoundTrip\<close>, whatever its calls return, it handles what it owns correctly: it
  sends to Discord only while it owns its bucket, after the bucket and (unless the request is an interaction) the
  pacer let it through for this very attempt, and with the invalid response reserved; it settles each reservation with
  what the response means for the budget before it looks at the response further; it never takes a bucket while it
  owns one; and when it returns it has released the bucket and the validation gate, settled every reservation
  of the invalid-request budget, closed the replay and cancelled both contexts or handed them to the body of the response:
  each exactly once.
\<close>

theorem RoundTrip_owns_nothing:
  "\<exists>m. monitored i (fst (RoundTrip cfg i env as)) idle_monitor = Some m \<and>
     (snd (RoundTrip cfg i env as) = None \<or> owns_nothing m)"
proof -
  obtain evs res where rt: "RoundTrip cfg i env as = (evs, res)" by (rule prod.exhaust)
  show ?thesis using RoundTrip_monitored [OF rt] rt by auto
qed


subsection \<open>Retried bodies\<close>

definition resends :: "bodyReplay \<Rightarrow> string \<Rightarrow> bool" where
  \<comment> \<open>a prepared replay of the bytes \<open>got\<close>\<close>
  "resends r got \<longleftrightarrow> r_first r \<and> \<not> r_getBody r \<and> r_prepared r \<and>
     (case r_capture r of
        None \<Rightarrow> False
      | Some c \<Rightarrow> if r_fileName r then c_disk c = Some got else r_data r = got)"

lemma resends_body: "resends r got \<Longrightarrow> 0 < n \<Longrightarrow> body r n env = (r', Inr b) \<Longrightarrow> r' = r \<and> b = Bytes got"
  by (auto simp: resends_def body_def prepared_body_def split: option.splits if_splits)

lemma resends_prepare: "resends r got \<Longrightarrow> prepareRetry r env = (r, Inr True)"
  by (auto simp: resends_def prepareRetry_def)

lemma prepare_resends:
  assumes "captured c got" "r_capture r = Some c" "r_first r" "\<not> r_getBody r" "\<not> r_prepared r" "prepareRetry r env = (r', Inr True)"
  shows "resends r' got"
  using assms by (auto simp: prepareRetry_def capture_replay_def captured_def Let_def resends_def
      split: if_splits prod.splits replayed.splits)

lemma after_response_replay:
  assumes "after_response cfg i a status h l = (evs, l', None)"
  shows "prepareRetry (replaying l) (files a) = (replaying l', Inr True)"
  using assms by (auto simp: after_response_def observe_duration_def settle_validation_def hand_over_response_def releaseBucket_def Let_def
      split: prod.splits if_splits sum.splits)

lemma after_response_sends: "after_response cfg i a status h l = (evs, l', res) \<Longrightarrow> Send n b \<notin> set evs"
  by (auto simp: after_response_def observe_duration_def settle_validation_def hand_over_response_def releaseBucket_def Let_def
      split: prod.splits if_splits sum.splits)

lemma send_attempt_cases:
  assumes "send_attempt cfg i n a l = (evs, l', res)"
  obtains (failed) "res \<noteq> None" "\<And>k b. Send k b \<in> set evs \<Longrightarrow> k = n \<and> (\<exists>r. body (replaying l) n (files a) = (r, Inr b))"
  | (answered) r b status h ev where "body (replaying l) n (files a) = (r, Inr b)"
      "after_response cfg i a status h (read_first (l\<lparr>replaying := r\<rparr>) n (firstReads a)) = (ev, l', res)"
      "\<And>k b'. Send k b' \<in> set evs \<Longrightarrow> k = n \<and> b' = b"
proof -
  obtain r bdy where b: "body (replaying l) n (files a) = (r, bdy)" by (rule prod.exhaust)
  show ?thesis
  proof (cases "\<exists>status h x. bdy = Inr x \<and> guardGrants a \<and> upstream a = Upstream status h")
    case True
    then obtain status h x where up: "bdy = Inr x" "guardGrants a" "upstream a = Upstream status h" by blast
    obtain ev l3 res3 where ar: "after_response cfg i a status h (read_first (l\<lparr>replaying := r\<rparr>) n (firstReads a)) = (ev, l3, res3)"
      by (rule prod_cases3)
    have "evs = [AttemptStart, Reserve, Send n x, Complete (invalidDiscordResponse status h), Observe status h] @ ev"
      "l' = l3" "res = res3"
      using assms b up ar by (auto simp: send_attempt_def Let_def)
    thus ?thesis using after_response_sends [OF ar] b up ar by (intro that(2)) auto
  next
    case False
    thus ?thesis using assms b
      by (intro that(1)) (auto simp: send_attempt_def Let_def split: sum.splits if_splits upstream_result.splits)
  qed
qed

lemma before_send_sends: "before_send cfg i a = (evs, res) \<Longrightarrow> Send n b \<notin> set evs"
  by (auto simp: before_send_def split: prod.splits if_splits sum.splits)

lemma later_attempts:
  "attempts_loop cfg i n as l = (evs, l', res) \<Longrightarrow> resends (replaying l) got \<Longrightarrow> 0 < n \<Longrightarrow> Send k b \<in> set evs \<Longrightarrow> b = Bytes got"
proof (induction as arbitrary: n l evs l' res)
  case (Cons a as)
  obtain ev1 res1 where b: "before_send cfg i a = (ev1, res1)" by (rule prod.exhaust)
  obtain ev2 l2 res2 where s: "send_attempt cfg i n a l = (ev2, l2, res2)" by (rule prod_cases3)
  obtain ev3 l3 res3 where r: "attempts_loop cfg i (Suc n) as l2 = (ev3, l3, res3)" by (rule prod_cases3)
  have sent: "Send k b \<in> set ev2 \<or> res2 = None \<and> Send k b \<in> set ev3"
    using Cons.prems(1,4) b s r before_send_sends [OF b] by (auto split: option.splits)
  show ?case
  using s
  proof (cases rule: send_attempt_cases)
    case failed
    thus ?thesis using sent resends_body [OF Cons.prems(2,3)] by blast
  next
    case (answered r b' status h ev)
    have rb: "r = replaying l" "b' = Bytes got" using resends_body [OF Cons.prems(2,3) answered(1)] by auto
    show ?thesis
    proof (cases "Send k b \<in> set ev2")
      case True
      thus ?thesis using answered(3) rb by blast
    next
      case False
      hence e: "res2 = None" "Send k b \<in> set ev3" using sent by auto
      have "prepareRetry (replaying l) (files a) = (replaying l2, Inr True)"
        using after_response_replay [of cfg i a status h _ ev l2] answered(2) e(1) rb(1) Cons.prems(3) by (simp add: read_first_def)
      hence "resends (replaying l2) got" using resends_prepare [OF Cons.prems(2)] Cons.prems(2) by simp
      thus ?thesis using Cons.IH [OF r _ _ e(2)] by simp
    qed
  qed
qed simp

lemma first_attempt:
  assumes "attempts_loop cfg i 0 as l = (evs, l', res)" "r_capture (replaying l) = Some c" "captured c []" "\<not> c_complete c"
    and "r_first (replaying l)" "\<not> r_getBody (replaying l)" "\<not> r_prepared (replaying l)"
    and "Send k b \<in> set evs" "0 < k"
  shows "as \<noteq> [] \<and> b = Bytes (read_bytes (firstReads (hd as)))"
proof (cases as)
  case Nil
  thus ?thesis using assms(1,8) by simp
next
  case (Cons a as')
  obtain ev1 res1 where b: "before_send cfg i a = (ev1, res1)" by (rule prod.exhaust)
  obtain ev2 l2 res2 where s: "send_attempt cfg i 0 a l = (ev2, l2, res2)" by (rule prod_cases3)
  obtain ev3 l3 res3 where r: "attempts_loop cfg i 1 as' l2 = (ev3, l3, res3)" by (rule prod_cases3)
  have sent: "Send k b \<in> set ev2 \<or> res2 = None \<and> Send k b \<in> set ev3"
    using assms(1,8) Cons b s r before_send_sends [OF b] by (auto split: option.splits)
  have body0: "body (replaying l) 0 (files a) = (replaying l, Inr FirstBody)" using assms(5) by (simp add: body_def)
  show ?thesis
  using s
  proof (cases rule: send_attempt_cases)
    case failed
    thus ?thesis using sent assms(9) by blast
  next
    case (answered r b' status h ev)
    have e: "res2 = None" "Send k b \<in> set ev3" using sent answered(3) assms(9) by auto
    define r1 where "r1 = (replaying l)\<lparr>r_capture := Some (capture_reads c (firstReads a))\<rparr>"
    have "r = replaying l" using answered(1) body0 by simp
    hence "prepareRetry r1 (files a) = (replaying l2, Inr True)"
      using after_response_replay [of cfg i a status h "l\<lparr>replaying := r1\<rparr>" ev l2] answered(2) e(1) assms(2)
      by (simp add: read_first_def r1_def)
    hence "resends (replaying l2) (read_bytes (firstReads a))"
      by (intro prepare_resends [OF capture_reads_props(1) [OF assms(3,4)], of r1]) (use assms(5-7) in \<open>simp_all add: r1_def\<close>)
    thus ?thesis using later_attempts [OF r _ _ e(2)] Cons by simp
  qed
qed

text \<open>
  C21. When \<open>RoundTrip\<close> retries a request whose body it captured, every attempt after the first sends exactly the bytes
  that the first attempt read from the client, however often it retries and whatever happens in between.
\<close>

theorem retries_resend_body:
  assumes "Send n b \<in> set (fst (RoundTrip cfg i env as))" "0 < n" "\<not> noRequestBody env" "\<not> hasGetBody env"
  shows "as \<noteq> [] \<and> b = Bytes (read_bytes (firstReads (hd as)))"
proof -
  obtain bud rep where new: "newBodyReplay (noRequestBody env) (hasGetBody env) (requestLength env) (MaxRetryBodyBytes cfg)
      (captureBefore env) = (bud, rep)" by (rule prod.exhaust)
  obtain r where r: "hasMetadata env" "budgetAvailable env" "acquired env = Inr r"
    using assms(1) by (cases "acquired env") (auto simp: RoundTrip_def split: if_splits)
  obtain ev1 vh err where v: "take_validation i env = (ev1, vh, err)" by (rule prod_cases3)
  have nv: "Send n b \<notin> set ev1" using v by (auto simp: take_validation_def split: if_splits option.splits)
  have nd: "Send n b \<notin> set (deferred x l)" for x l by (simp add: deferred_def)
  obtain rp where rp: "rep = Inr rp" "err = None" "validityAfter env \<noteq> clientInvalid"
    using assms(1) r v nv nd new by (auto simp: RoundTrip_def Let_def split: option.splits if_splits sum.splits)
  define l where "l = \<lparr>bucketNow = r, bucketHeld = True, validationHeld = vh, queuePending = True, replaying = rp\<rparr>"
  obtain ev2 l2 res2 where lp: "attempts_loop cfg i 0 as l = (ev2, l2, res2)" by (rule prod_cases3)
  have sent: "Send n b \<in> set ev2"
    using assms(1) r v nv nd new rp lp by (auto simp: RoundTrip_def Let_def l_def split: if_splits)
  obtain c where c: "r_capture rp = Some c"
    using new rp(1) assms(3,4) by (auto simp: newBodyReplay_def Let_def split: if_splits prod.splits)
  have n: "captured c [] \<and> \<not> c_complete c \<and> r_first rp \<and> \<not> r_getBody rp \<and> \<not> r_prepared rp"
    using new_captured [OF new [unfolded rp(1)] c] by blast
  show ?thesis using first_attempt [OF lp _ _ _ _ _ _ sent assms(2)] c n by (simp add: l_def)
qed

definition example_attempt :: "nat \<Rightarrow> reading list \<Rightarrow> attempt_env" where
  "example_attempt status rs =
     (let quiet = \<lparr>sn_bucket = newBucketState 10 0, sn_pacer = newPacer 50 10, sn_now = 0\<rparr> in
      \<lparr>known = quiet, t_check = 0, waitCause = None, bucketWait = Inr 0, knownLater = quiet, pacerWait = Inr 0,
       files = all_well, ioText = [], guardGrants = True, upstream = Upstream status [], statusLine = [], firstReads = rs,
       knownObserved = quiet, t_retry = 0, reacquired = Inr 0\<rparr>)"

definition example_request :: request_env where
  "example_request =
     \<lparr>hasMetadata = True, budgetAvailable = True, queueCause = None, acquired = Inr 0, validityBefore = clientValid,
      validationFails = None, validityInside = clientValid, validityAfter = clientValid, noRequestBody = False,
      hasGetBody = False, requestLength = 4, captureBefore = newResourceBudget 50\<rparr>"

lemmas round_trip_eval =
  RoundTrip_def take_validation_def before_send_def send_attempt_def after_response_def observe_duration_def settle_validation_def
  hand_over_response_def releaseBucket_def read_first_def deferred_def knownRateLimit_def retryWouldExceedDeadline_def
  newBodyReplay_def reserve_int_def reserve_def exhausted_def newResourceBudget_def body_def prepared_body_def
  prepareRetry_def capture_reads_def capture_Read_def captureLocked_def store_captured_def capture_replay_def
  retryMemoryLimit_def

theorem retries_resend_body_witness:
  "let cfg = \<lparr>UpstreamTimeout = 10, Disable401Lock = False, queueDeadline = None, MaxRetryBodyBytes = 100,
    metricsEnabled = False\<rparr>;
       rs = [(''ab'', False, all_well, newResourceBudget 50), (''cd'', False, all_well, newResourceBudget 50)];
       as = [example_attempt 429 rs, example_attempt 200 []]
   in \<exists>b. Send 1 b \<in> set (fst (RoundTrip cfg True example_request as)) \<and> b = Bytes ''abcd''"
proof -
  let ?cfg = "\<lparr>UpstreamTimeout = 10, Disable401Lock = False, queueDeadline = None, MaxRetryBodyBytes = 100,
    metricsEnabled = False\<rparr>"
  let ?rs = "[(''ab'', False, all_well, newResourceBudget 50), (''cd'', False, all_well, newResourceBudget 50)]"
  let ?as = "[example_attempt 429 ?rs, example_attempt 200 []]"
  obtain b where b: "Send 1 b \<in> set (fst (RoundTrip ?cfg True example_request ?as))"
    by (simp add: round_trip_eval example_request_def example_attempt_def all_well_def Let_def status_defs retryAfter_def
        newBucketState_def time_Sub_def)
  have "b = Bytes (read_bytes (firstReads (hd ?as)))"
    using retries_resend_body [OF b] by (simp add: example_request_def)
  thus ?thesis using b by (auto simp: Let_def example_attempt_def read_bytes_def)
qed

end
