(* ===== verification/Cooling.thy ===== *)
theory Cooling
  imports Transport
begin

section \<open>Cooldowns of a route, and how often a request is retried\<close>

text \<open>
  Sections of \<^verbatim>\<open>clientState\<close> (\<^verbatim>\<open>scheduler.go\<close>) under a clock: what \<open>Client\<close>, \<open>Bucket\<close> and \<open>Headers\<close> say of
  single calls put together to what holds for a route over time. The first theorem follows a cooldown through lookups, learned
  buckets and sweeps of concurrent requests; the second one uses it to bound the retry loop of \<open>RoundTrip\<close>.
\<close>

subsection \<open>One client over time\<close>

text \<open>
  \<open>rts\<close> are the hashes of the routes in use. A route hash and the hash of a bucket that Discord named are both values of
  \<^verbatim>\<open>HashCRC64\<close>, on texts of different forms: the steps learn no bucket whose hash is that of a route in use. Clock readings
  of a section may be stale, that is earlier than the clock. A request calls \<^verbatim>\<open>learnBucket\<close> while it owns the bucket that its
  route resolves to, which is what \<open>Serial\<close> shows of \<^verbatim>\<open>acquireBucket\<close>.
\<close>

definition bucket_fresh :: "u64 set \<Rightarrow> string \<Rightarrow> string \<Rightarrow> bool" where
  "bucket_fresh rts discordBucket majorKey \<longleftrightarrow> discordBucket = [] \<or> canonical_hash discordBucket majorKey \<notin> rts"

record cool_sys =
  k_client :: clientState
  k_world :: world
  k_clock :: time

inductive cool_step :: "u64 set \<Rightarrow> cool_sys \<Rightarrow> cool_sys \<Rightarrow> bool" for rts where
  tick: "k_clock s \<le> t \<Longrightarrow> cool_step rts s (s\<lparr>k_clock := t\<rparr>)"
| find: "\<lbrakk>h \<in> rts; bucket_or_new (k_client s) (k_world s) h now = (c, w, res); now \<le> k_clock s\<rbrakk> \<Longrightarrow>
    cool_step rts s (s\<lparr>k_client := c, k_world := w\<rparr>)"
| learn: "\<lbrakk>h \<in> rts; resolve (k_client s) h = Some current; bucket_fresh rts discordBucket majorKey;
    learnBucket (k_client s) (k_world s) h discordBucket majorKey current = (c, w, target)\<rbrakk> \<Longrightarrow>
    cool_step rts s (s\<lparr>k_client := c, k_world := w\<rparr>)"
| sweep: "\<lbrakk>sweep (k_client s) (k_world s) now = (c, w); now \<le> k_clock s\<rbrakk> \<Longrightarrow>
    cool_step rts s (s\<lparr>k_client := c, k_world := w\<rparr>)"
| bucket: "readyAt (heap (k_world s) ! r) \<le> readyAt b \<Longrightarrow>
    cool_step rts s (s\<lparr>k_world := (k_world s)\<lparr>heap := (heap (k_world s))[r := b]\<rparr>\<rparr>)"
| client: "\<lbrakk>buckets c = buckets (k_client s); aliases c = aliases (k_client s);
    blockedUntil (c_global (k_client s)) \<le> blockedUntil (c_global c)\<rbrakk> \<Longrightarrow> cool_step rts s (s\<lparr>k_client := c\<rparr>)"
| others: "cool_step rts s (s\<lparr>k_world := \<lparr>heap = heap (k_world s) @ bs, slots = b\<rparr>\<rparr>)"

abbreviation cool_steps :: "u64 set \<Rightarrow> cool_sys \<Rightarrow> cool_sys \<Rightarrow> bool" where
  "cool_steps rts \<equiv> (cool_step rts)\<^sup>*\<^sup>*"

definition cool_inv :: "u64 set \<Rightarrow> cool_sys \<Rightarrow> bool" where
  "cool_inv rts s \<longleftrightarrow> client_wf (k_client s) (heap (k_world s)) \<and> (\<forall>h c. map_of (aliases (k_client s)) h = Some c \<longrightarrow> c \<notin> rts)"

definition route_cooling :: "u64 \<Rightarrow> time \<Rightarrow> cool_sys \<Rightarrow> bool" where
  \<comment> \<open>a request for the route finds a bucket that is blocked until \<open>B\<close> at least\<close>
  "route_cooling h B s \<longleftrightarrow>
     (case resolve (k_client s) h of None \<Rightarrow> False | Some r \<Rightarrow> B \<le> readyAt (heap (k_world s) ! r))"

lemma route_coolingE:
  assumes "route_cooling h B s"
  obtains r where "resolve (k_client s) h = Some r" "B \<le> readyAt (heap (k_world s) ! r)"
  using assms by (auto simp: route_cooling_def split: option.splits)

lemma resolve_bound: "client_wf c hp \<Longrightarrow> resolve c h = Some r \<Longrightarrow> r < length hp"
  by (auto simp: client_wf_def resolve_def simp del: map_of_eq_Some_iff)


subsection \<open>Steps keep a cooldown\<close>

lemma find_keeps:
  assumes "bucket_or_new c w h' now = (c', w', res)" "client_wf c (heap w)"
  shows "client_wf c' (heap w') \<and> aliases c' = aliases c \<and> c_global c' = c_global c \<and>
    (\<forall>r. resolve c h = Some r \<longrightarrow> resolve c' h = Some r \<and> heap w' ! r = heap w ! r)"
proof -
  have b: "r < length (heap w)" if "map_of (buckets c) k = Some r" for k r
    using assms(2) that by (auto simp: client_wf_def simp del: map_of_eq_Some_iff)
  thus ?thesis using assms
    by (auto simp: bucket_or_new_def client_wf_def resolve_def canonical_of_def nth_append less_SucI
        simp del: map_of_eq_Some_iff split: option.splits prod.splits if_splits)
qed

lemma learn_keeps:
  assumes "learnBucket c w h' d m current = (c', w', t)" "client_wf c (heap w)" "resolve c h' = Some current"
    and "bucket_fresh rts d m" "h' \<in> rts" "h \<in> rts" "\<And>k v. map_of (aliases c) k = Some v \<Longrightarrow> v \<notin> rts"
    and "resolve c h = Some r"
  shows "\<exists>r'. resolve c' h = Some r' \<and> readyAt (heap w ! r) \<le> readyAt (heap w' ! r')"
proof -
  have cur: "current < length (heap w)" by (rule resolve_bound [OF assms(2,3)])
  show ?thesis
  proof (cases "d = [] \<or> learn_refused c w h' (canonical_hash d m) current")
    case True
    thus ?thesis using assms(1,8) by (auto simp: learnBucket_def learn_at_refused resolve_def canonical_of_def split: if_splits)
  next
    case False
    let ?k = "canonical_hash d m" and ?t = "learn_target c (canonical_hash d m) current"
    have l: "c' = learned c h' ?k current" "heap w' = learned_heap (heap w) ?t current"
      using assms(1) False by (auto simp: learnBucket_def learn_at_done)
    have mono: "readyAt (heap w ! x) \<le> readyAt (heap w' ! x)" for x
      by (cases "?t < length (heap w)") (auto simp: l(2) learned_heap_def nth_list_update list_update_beyond)
    show ?thesis
    proof (cases "h = h'")
      case True
      hence "r = current" using assms(3,8) by simp
      moreover have "resolve c' h = Some ?t" using True l(1) learned_resolve(1) by simp
      moreover have "?t < length (heap w)"
        using cur assms(2) by (auto simp: learn_target_def client_wf_def simp del: map_of_eq_Some_iff split: option.split)
      ultimately show ?thesis by (auto simp: l(2) learned_heap_def)
    next
      case other: False
      have "canonical_of c h \<noteq> h'"
        using other assms(5,7) by (auto simp: canonical_of_def simp del: map_of_eq_Some_iff split: option.splits)
      hence "resolve c' h = Some r"
        using assms(8) other by (auto simp: l(1) resolve_def canonical_of_def learned_def Let_def)
      thus ?thesis using mono by blast
    qed
  qed
qed

lemma learn_inv:
  assumes "learnBucket c w h' d m current = (c', w', t)" "client_wf c (heap w)" "resolve c h' = Some current"
    and "bucket_fresh rts d m" "\<And>k v. map_of (aliases c) k = Some v \<Longrightarrow> v \<notin> rts"
  shows "client_wf c' (heap w') \<and> (\<forall>k v. map_of (aliases c') k = Some v \<longrightarrow> v \<notin> rts) \<and> c_global c' = c_global c"
proof -
  have cur: "current < length (heap w)" by (rule resolve_bound [OF assms(2,3)])
  have g: "c_global c' = c_global c" by (rule learnBucket_ready(1) [OF assms(1) cur assms(2)])
  show ?thesis
  proof (cases "d = [] \<or> learn_refused c w h' (canonical_hash d m) current")
    case True
    hence "buckets c' = buckets c" "aliases c' = aliases c" "heap w' = heap w"
      using assms(1) by (auto simp: learnBucket_def learn_at_refused split: if_splits)
    thus ?thesis using assms(2,5) g by (simp add: client_wf_def)
  next
    case False
    hence l: "c' = learned c h' (canonical_hash d m) current"
      "length (heap w') = length (heap w)"
      using assms(1) by (auto simp: learnBucket_def learn_at_done)
    have "client_wf c' (heap w')" using learned_wf [OF assms(2) cur, of h' "canonical_hash d m"] l by (simp add: client_wf_def)
    moreover have "aliases c' = AList.update h' (canonical_hash d m) (aliases c)" using l(1) by (simp add: learned_def Let_def)
    ultimately show ?thesis using assms(4,5) g False by (auto simp: bucket_fresh_def simp del: map_of_eq_Some_iff)
  qed
qed

lemma sweep_inv:
  assumes "sweep c w now = (c', w')" "client_wf c (heap w)" "\<And>k v. map_of (aliases c) k = Some v \<Longrightarrow> v \<notin> rts"
  shows "client_wf c' (heap w') \<and> (\<forall>k v. map_of (aliases c') k = Some v \<longrightarrow> v \<notin> rts) \<and> c_global c' = c_global c"
proof -
  have "keys_distinct (buckets c') \<and> keys_distinct (aliases c') \<and> c_global c' = c_global c"
    using assms(1,2) by (auto simp: sweep_def client_wf_def Let_def)
  thus ?thesis using sweep_maps [OF assms(2,1)] assms(2,3)
    by (auto simp: client_wf_def simp del: map_of_eq_Some_iff split: option.splits if_splits)
qed

lemma cool_step_inv:
  assumes "cool_step rts s t" "cool_inv rts s"
  shows "cool_inv rts t \<and> k_clock s \<le> k_clock t \<and> blockedUntil (c_global (k_client s)) \<le> blockedUntil (c_global (k_client t))"
  using assms(1)
proof cases
  case (find h now c w res)
  thus ?thesis using assms(2) find_keeps [OF find(3), of undefined] by (simp add: cool_inv_def)
next
  case (learn h current d m c w target)
  thus ?thesis using assms(2) learn_inv [OF learn(5) _ learn(3,4)] by (simp add: cool_inv_def)
next
  case (sweep now c w)
  thus ?thesis using assms(2) sweep_inv [OF sweep(2), of rts] by (simp add: cool_inv_def)
qed (use assms(2) in \<open>auto simp: cool_inv_def client_wf_def less_imp_le trans_less_add1 simp del: map_of_eq_Some_iff\<close>)

lemma cool_steps_inv:
  assumes "cool_steps rts s t" "cool_inv rts s"
  shows "cool_inv rts t" "k_clock s \<le> k_clock t" "blockedUntil (c_global (k_client s)) \<le> blockedUntil (c_global (k_client t))"
proof -
  have "cool_inv rts t \<and> k_clock s \<le> k_clock t \<and> blockedUntil (c_global (k_client s)) \<le> blockedUntil (c_global (k_client t))"
    using assms(1)
  proof (induction rule: rtranclp_induct)
    case (step y z)
    thus ?case using cool_step_inv [OF step(2)] by auto
  qed (use assms(2) in simp)
  thus "cool_inv rts t" "k_clock s \<le> k_clock t"
    "blockedUntil (c_global (k_client s)) \<le> blockedUntil (c_global (k_client t))" by auto
qed

lemma cool_step_keeps:
  assumes "cool_step rts s t" "cool_inv rts s" "h \<in> rts" "route_cooling h B s" "k_clock s < B"
  shows "route_cooling h B t"
proof -
  obtain r where r: "resolve (k_client s) h = Some r" "B \<le> readyAt (heap (k_world s) ! r)" using assms(4) by (rule route_coolingE)
  have wf: "client_wf (k_client s) (heap (k_world s))" and al: "\<And>k v. map_of (aliases (k_client s)) k = Some v \<Longrightarrow> v \<notin> rts"
    using assms(2) by (auto simp: cool_inv_def)
  have len: "r < length (heap (k_world s))" by (rule resolve_bound [OF wf r(1)])
  show ?thesis
    using assms(1)
  proof cases
    case (find h' now c w res)
    thus ?thesis using find_keeps [OF find(3) wf, of h] r by (simp add: route_cooling_def)
  next
    case (learn h' current d m c w target)
    obtain r' where "resolve c h = Some r'" "readyAt (heap (k_world s) ! r) \<le> readyAt (heap w ! r')"
      using learn_keeps [OF learn(5) wf learn(3,4,2) assms(3) _ r(1)] al by blast
    thus ?thesis using learn(1) r(2) by (simp add: route_cooling_def)
  next
    case (sweep now c w)
    have "\<not> bucket_idle (heap (k_world s) ! r) now" using sweep(3) r(2) assms(5) by (simp add: bucket_idle_def)
    thus ?thesis using sweep_resolve [OF wf sweep(2) r(1)] sweep_maps(3) [OF wf sweep(2)] sweep(1) r(2)
      by (simp add: route_cooling_def)
  next
    case (client c)
    thus ?thesis using r by (simp add: route_cooling_def resolve_def canonical_of_def)
  next
    case (bucket x b)
    thus ?thesis using r len by (cases "x = r") (simp_all add: route_cooling_def)
  qed (use r len in \<open>auto simp: route_cooling_def nth_list_update nth_append\<close>)
qed

lemma cooling_kept:
  assumes "cool_steps rts s t" "cool_inv rts s" "h \<in> rts" "route_cooling h B s"
  shows "route_cooling h B t \<or> B \<le> k_clock t"
  using assms(1)
proof (induction rule: rtranclp_induct)
  case (step y z)
  have y: "cool_inv rts y" by (rule cool_steps_inv(1) [OF step(1) assms(2)])
  have "k_clock y \<le> k_clock z" using cool_step_inv [OF step(2) y] by blast
  thus ?case using step(3) cool_step_keeps [OF step(2) y assms(3)] by (meson not_le order_trans)
qed (use assms(4) in simp)

text \<open>
  C9. A cooldown is not forgotten. If a route resolves to a bucket that is blocked until some instant, then at every later
  moment before that instant the route resolves to a bucket that is blocked at least as long: whatever other
  requests look up, whatever buckets Discord names meanwhile for this or for other routes (the route may be moved
  to a shared bucket), however buckets are swept, and however stale the clock readings of all of these are. And a global
  cooldown of the client never becomes shorter.
\<close>

theorem cooldown_survives:
  assumes "cool_steps rts s t" "cool_inv rts s" "h \<in> rts" "route_cooling h B s" "k_clock t < B"
  shows "route_cooling h B t \<and> blockedUntil (c_global (k_client s)) \<le> blockedUntil (c_global (k_client t))"
  using cooling_kept [OF assms(1-4)] assms(5) cool_steps_inv(3) [OF assms(1,2)] by simp

definition cool_example :: "u64 \<Rightarrow> cool_sys" where
  \<comment> \<open>one client whose only bucket, that of the route \<open>h\<close>, is blocked until 100\<close>
  "cool_example h =
     \<lparr>k_client = (newClientState no_auth 50 5 0)\<lparr>buckets := [(h, 0)]\<rparr>,
      k_world = \<lparr>heap = [blockUntil (newBucketState 5 0) 100], slots = newResourceBudget 10\<rparr>, k_clock = 0\<rparr>"

lemma cool_example_facts:
  "cool_inv rts (cool_example h)" "resolve (k_client (cool_example h)) h = Some 0" "route_cooling h 100 (cool_example h)"
  by (auto simp: cool_inv_def cool_example_def client_wf_def newClientState_def client_touch_def route_cooling_def resolve_def
      canonical_of_def blockUntil_def)

theorem cooldown_survives_witness:
  "let h = canonical_hash ''abcd'' ''channels:1'' + 1;
       s = cool_example h;
       (c, w, r) = learnBucket (k_client s) (k_world s) h ''abcd'' ''channels:1'' 0
   in route_cooling h 100 \<lparr>k_client = c, k_world = w, k_clock = 50\<rparr>"
proof -
  define h where "h = canonical_hash ''abcd'' ''channels:1'' + 1"
  let ?s = "cool_example h"
  obtain c w r where l: "learnBucket (k_client ?s) (k_world ?s) h ''abcd'' ''channels:1'' 0 = (c, w, r)" by (rule prod_cases3)
  have "cool_step {h} ?s (?s\<lparr>k_client := c, k_world := w\<rparr>)"
    by (rule cool_step.learn [OF _ _ _ l]) (simp_all add: cool_example_facts bucket_fresh_def h_def)
  moreover have "cool_step {h} (?s\<lparr>k_client := c, k_world := w\<rparr>) (?s\<lparr>k_client := c, k_world := w, k_clock := 50\<rparr>)"
    using cool_step.tick [of "?s\<lparr>k_client := c, k_world := w\<rparr>" 50] by (simp add: cool_example_def)
  ultimately have "cool_steps {h} ?s (?s\<lparr>k_client := c, k_world := w, k_clock := 50\<rparr>)" by simp
  from cooldown_survives [OF this _ _ cool_example_facts(3)]
  have "route_cooling h 100 (?s\<lparr>k_client := c, k_world := w, k_clock := 50\<rparr>)" by (simp add: cool_example_facts)
  thus ?thesis using l by (simp add: h_def [symmetric] Let_def cool_example_def)
qed

end
