(* ===== verification/Retries.thy ===== *)
theory Retries
  imports Cooling
begin

section \<open>The retry loop ends\<close>

text \<open>
  How often \<open>RoundTrip\<close> can send one request. Its loop has no counter: Discord may answer every attempt with a 429.
  That the loop ends comes from \<^verbatim>\<open>minimumRetryDelay\<close> (each 429 blocks the bucket or the pacer for that long,
  whatever its headers say), from the fact that a cooldown is not forgotten (\<open>Cooling\<close>), and from the deadline of the queue.
  The attempts of \<open>Transport\<close> are put on the time line of \<open>Cooling\<close>: \<open>attempt_at\<close> says where the values that an attempt
  reads come from.
\<close>

subsection \<open>A 429 makes a route wait\<close>

definition waits_until :: "u64 \<Rightarrow> bool \<Rightarrow> time \<Rightarrow> cool_sys \<Rightarrow> bool" where
  "waits_until h interaction B s \<longleftrightarrow> route_cooling h B s \<or> \<not> interaction \<and> B \<le> blockedUntil (c_global (k_client s))"

lemma limits_wait:
  assumes "apply_limits s w info bad i r StatusTooManyRequests t = (s', w')" "r < length (heap w)"
  shows "\<not> i \<and> at_global t + minimumRetryDelay \<le> blockedUntil (c_global s') \<or>
    at_bucket t + minimumRetryDelay \<le> readyAt (heap w' ! r)"
proof (cases bad)
  case True
  thus ?thesis using assms block_bucket_ready [OF assms(2), of "at_bucket t + minimumRetryDelay"]
      block_global_until [of "at_global t" minimumRetryDelay s]
    by (auto simp: apply_limits_def Let_def split: if_splits)
next
  case False
  hence "apply_limits s w info False i r StatusTooManyRequests t = (s', w')" using assms(1) by simp
  thus ?thesis using limits_obeyed [OF _ assms(2) refl, of s info i t s' w']
    by (cases i; cases "ri_global info") (auto split: if_splits)
qed

lemma limits_world:
  assumes "apply_limits s w info bad i r st t = (s', w')"
  shows "w' = w \<or> (\<exists>u. w' = block_bucket w r u)"
  using assms by (auto simp: apply_limits_def Let_def split: if_splits)

lemma limits_pacer:
  assumes "apply_limits s w info bad i r st t = (s', w')"
  shows "blockedUntil (c_global s) \<le> blockedUntil (c_global s')"
  using assms by (auto simp: apply_limits_def Let_def block_global_def blockFor_def split: if_splits)

lemma observe_steps:
  assumes "observeResponse (k_client s) (k_world s) h m i r st hdr dis t = (c, w, r')"
    and "resolve (k_client s) h = Some r" "h \<in> rts" "k_clock s \<le> now"
    and "bucket_fresh rts (ri_bucket (fst (parseRateLimitHeaders hdr st (at_parse t)))) m"
  obtains s1 w1 where "cool_steps rts s (s\<lparr>k_client := s1, k_world := w1\<rparr>)" "resolve s1 h = Some r"
    "apply_limits (note_invalid (k_client s) st i dis) (k_world s) (fst (parseRateLimitHeaders hdr st (at_parse t)))
       (snd (parseRateLimitHeaders hdr st (at_parse t)) \<noteq> None) i r st t = (s1, w1)"
    "cool_step rts (s\<lparr>k_client := s1, k_world := w1\<rparr>) (s\<lparr>k_client := c, k_world := w\<rparr>)"
    "cool_step rts (s\<lparr>k_client := c, k_world := w\<rparr>) \<lparr>k_client = c, k_world = w, k_clock = now\<rparr>"
proof -
  let ?p = "parseRateLimitHeaders hdr st (at_parse t)" and ?s0 = "note_invalid (k_client s) st i dis"
  obtain s1 w1 where a: "apply_limits ?s0 (k_world s) (fst ?p) (snd ?p \<noteq> None) i r st t = (s1, w1)" by (rule prod.exhaust)
  have l: "learnBucket s1 w1 h (ri_bucket (fst ?p)) m r = (c, w, r')"
    using assms(1) a by (simp add: observeResponse_def Let_def split: prod.splits)
  have g: "c_global ?s0 = c_global (k_client s)" by (simp add: note_invalid_def)
  have res: "resolve s1 h = Some r" using assms(2) apply_limits_shape(2,3) [OF a] by (simp add: resolve_def canonical_of_def)
  have 1: "cool_step rts s (s\<lparr>k_client := s1\<rparr>)"
    using apply_limits_shape(2,3) [OF a] limits_pacer [OF a] g by (intro cool_step.client) simp_all
  have "w1 = k_world s \<or> (\<exists>u. w1 = block_bucket (k_world s) r u)" by (rule limits_world [OF a])
  moreover have "cool_step rts (s\<lparr>k_client := s1\<rparr>) (s\<lparr>k_client := s1, k_world := block_bucket (k_world s) r u\<rparr>)" for u
    using cool_step.bucket [of "s\<lparr>k_client := s1\<rparr>" r "blockUntil (heap (k_world s) ! r) u"]
    by (simp add: block_bucket_def blockUntil_def)
  moreover have "s\<lparr>k_client := s1, k_world := k_world s\<rparr> = s\<lparr>k_client := s1\<rparr>" by simp
  ultimately have 2: "cool_steps rts s (s\<lparr>k_client := s1, k_world := w1\<rparr>)"
    using 1 by (metis r_into_rtranclp rtranclp.rtrancl_into_rtrancl)
  have 3: "cool_step rts (s\<lparr>k_client := s1, k_world := w1\<rparr>) (s\<lparr>k_client := c, k_world := w\<rparr>)"
    using cool_step.learn [of h rts "s\<lparr>k_client := s1, k_world := w1\<rparr>" r _ m c w r'] assms(3,5) res l by simp
  have "cool_step rts (s\<lparr>k_client := c, k_world := w\<rparr>) \<lparr>k_client = c, k_world = w, k_clock = now\<rparr>"
    using cool_step.tick [of "s\<lparr>k_client := c, k_world := w\<rparr>" now] assms(4) by (cases s) simp
  thus thesis using that [OF 2 res a 3] by blast
qed

lemma observe_waits:
  assumes "observeResponse (k_client s) (k_world s) h m i r StatusTooManyRequests hdr dis t = (c, w, r')"
    and "resolve (k_client s) h = Some r" "h \<in> rts" "k_clock s \<le> now" "cool_inv rts s"
    and "bucket_fresh rts (ri_bucket (fst (parseRateLimitHeaders hdr StatusTooManyRequests (at_parse t)))) m"
    and "k_clock s \<le> at_global t" "k_clock s \<le> at_bucket t" "now < k_clock s + minimumRetryDelay"
  shows "waits_until h i (k_clock s + minimumRetryDelay) \<lparr>k_client = c, k_world = w, k_clock = now\<rparr>"
proof -
  let ?p = "parseRateLimitHeaders hdr StatusTooManyRequests (at_parse t)" and ?B = "k_clock s + minimumRetryDelay"
  obtain s1 w1 where o: "cool_steps rts s (s\<lparr>k_client := s1, k_world := w1\<rparr>)" "resolve s1 h = Some r"
    "apply_limits (note_invalid (k_client s) StatusTooManyRequests i dis) (k_world s) (fst ?p) (snd ?p \<noteq> None) i r
       StatusTooManyRequests t = (s1, w1)"
    "cool_step rts (s\<lparr>k_client := s1, k_world := w1\<rparr>) (s\<lparr>k_client := c, k_world := w\<rparr>)"
    "cool_step rts (s\<lparr>k_client := c, k_world := w\<rparr>) \<lparr>k_client = c, k_world = w, k_clock = now\<rparr>"
    by (rule observe_steps [OF assms(1-4,6)])
  let ?s1 = "s\<lparr>k_client := s1, k_world := w1\<rparr>" and ?t = "\<lparr>k_client = c, k_world = w, k_clock = now\<rparr>"
  have st: "cool_steps rts ?s1 ?t" using o(4,5) by auto
  have inv: "cool_inv rts ?s1" by (rule cool_steps_inv(1) [OF o(1) assms(5)])
  have len: "r < length (heap (k_world s))" using assms(2,5) resolve_bound by (auto simp: cool_inv_def)
  consider "\<not> i" "?B \<le> blockedUntil (c_global s1)" | "route_cooling h ?B ?s1"
    using limits_wait [OF o(3) len] assms(7,8) o(2) by (auto simp: route_cooling_def)
  thus ?thesis
  proof cases
    case 1
    thus ?thesis using cool_steps_inv(3) [OF st inv] by (simp add: waits_until_def)
  next
    case 2
    have "route_cooling h ?B ?t"
      using cooling_kept [OF st inv assms(3) 2] assms(9) by simp
    thus ?thesis by (simp add: waits_until_def)
  qed
qed


subsection \<open>Attempts in time\<close>

record timed_attempt =
  ta_env :: attempt_env
  ta_waits :: "wait_obs list"
  ta_polls :: "pacer_obs list"
  ta_seen :: cool_sys
  ta_times :: observe_times
  ta_after :: cool_sys

definition between :: "u64 set \<Rightarrow> cool_sys \<Rightarrow> cool_sys \<Rightarrow> cool_sys \<Rightarrow> bool" where
  "between rts s u t \<longleftrightarrow> cool_steps rts s u \<and> cool_steps rts u t"

definition waits_at :: "u64 set \<Rightarrow> rt_config \<Rightarrow> u64 \<Rightarrow> time \<Rightarrow> cool_sys \<Rightarrow> timed_attempt \<Rightarrow> bool" where
  \<comment> \<open>\<^verbatim>\<open>bucket.wait\<close> ran on the readings \<open>ta_waits\<close>: of the bucket that the route resolves to, on a clock that is not behind;
    its context has ended by the time \<open>cutoff\<close>\<close>
  "waits_at rts cfg h cutoff s a \<longleftrightarrow>
     (\<exists>w. bucket_wait (queueDeadline cfg) (UpstreamTimeout cfg) (ta_waits a) = Some w \<and>
          (\<forall>d. bucketWait (ta_env a) = Inr d \<longrightarrow> w = Inr d)) \<and>
     (\<forall>ob \<in> set (ta_waits a).
        (wo_ctx ob = None \<longrightarrow> k_clock s \<le> cutoff) \<and>
        (\<exists>u r. between rts s u (ta_seen a) \<and> resolve (k_client u) h = Some r \<and>
           wo_readyAt ob = readyAt (heap (k_world u) ! r) \<and> k_clock u \<le> wo_now ob \<and> wo_now ob \<le> k_clock (ta_seen a)))"

definition polls_at :: "u64 set \<Rightarrow> rt_config \<Rightarrow> cool_sys \<Rightarrow> timed_attempt \<Rightarrow> bool" where
  \<comment> \<open>\<^verbatim>\<open>global.waitFor\<close> ran on the pacer of the client\<close>
  "polls_at rts cfg s a \<longleftrightarrow>
     (\<exists>u acq p r. between rts s u (ta_seen a) \<and>
        waitFor acq (queueDeadline cfg) (UpstreamTimeout cfg) (c_global (k_client u)) (ta_polls a) = Some (p, r) \<and>
        (\<forall>d. pacerWait (ta_env a) = Inr d \<longrightarrow> r = Inr d)) \<and>
     (\<forall>ob \<in> set (ta_polls a). po_now ob \<le> k_clock (ta_seen a))"

definition observes_at :: "u64 set \<Rightarrow> rt_config \<Rightarrow> u64 \<Rightarrow> string \<Rightarrow> bool \<Rightarrow> timed_attempt \<Rightarrow> bool" where
  \<comment> \<open>\<^verbatim>\<open>observeResponse\<close> took the state \<open>ta_seen\<close> to \<open>ta_after\<close>\<close>
  "observes_at rts cfg h m interaction a \<longleftrightarrow>
     (\<forall>status hdr. upstream (ta_env a) = Upstream status hdr \<longrightarrow>
        (\<exists>r r'. resolve (k_client (ta_seen a)) h = Some r \<and>
           observeResponse (k_client (ta_seen a)) (k_world (ta_seen a)) h m interaction r status (Some hdr) (Disable401Lock cfg)
             (ta_times a) = (k_client (ta_after a), k_world (ta_after a), r')) \<and>
        bucket_fresh rts (ri_bucket (fst (parseRateLimitHeaders (Some hdr) status (at_parse (ta_times a))))) m \<and>
        k_clock (ta_seen a) \<le> at_global (ta_times a) \<and> k_clock (ta_seen a) \<le> at_bucket (ta_times a) \<and>
        k_clock (ta_seen a) \<le> k_clock (ta_after a))"

definition attempt_at :: "u64 set \<Rightarrow> rt_config \<Rightarrow> u64 \<Rightarrow> string \<Rightarrow> bool \<Rightarrow> time \<Rightarrow> cool_sys \<Rightarrow> timed_attempt \<Rightarrow> bool" where
  "attempt_at rts cfg h m interaction cutoff s a \<longleftrightarrow> cool_steps rts s (ta_seen a) \<and>
     waits_at rts cfg h cutoff s a \<and> (interaction \<or> polls_at rts cfg s a) \<and> observes_at rts cfg h m interaction a"

fun attempts_at :: "u64 set \<Rightarrow> rt_config \<Rightarrow> u64 \<Rightarrow> string \<Rightarrow> bool \<Rightarrow> time \<Rightarrow> cool_sys \<Rightarrow> timed_attempt list \<Rightarrow> bool" where
  "attempts_at rts cfg h m interaction cutoff s [] \<longleftrightarrow> True"
| "attempts_at rts cfg h m interaction cutoff s (a # as) \<longleftrightarrow>
     attempt_at rts cfg h m interaction cutoff s a \<and> attempts_at rts cfg h m interaction cutoff (ta_after a) as"

lemma waitFor_ok:
  assumes "waitFor acq deadline rsv p obs = Some (p', Inr d)"
  obtains q where "waitFor_loop deadline rsv p obs = Some (q, Inr d)"
proof -
  obtain q r where "waitFor_loop deadline rsv p obs = Some (q, r)" "map_sum ErrCtx id r = Inr d"
    using assms by (auto simp: waitFor_def split: option.splits)
  thus thesis using that by (cases r) auto
qed

lemma waitFor_passed:
  assumes "waitFor acq deadline rsv p obs = Some (p', Inr 0)"
  shows "\<exists>ob \<in> set obs. blockedUntil p \<le> po_now ob"
proof -
  obtain q where "waitFor_loop deadline rsv p obs = Some (q, Inr 0)" using assms by (rule waitFor_ok)
  from waitFor_loop_granted [OF this] show ?thesis by (meson order_trans)
qed

lemma waitFor_delay_pos: "waitFor acq deadline rsv p obs = Some (p', Inr d) \<Longrightarrow> d = 0 \<or> 0 < d"
proof -
  assume "waitFor acq deadline rsv p obs = Some (p', Inr d)"
  then obtain q where "waitFor_loop deadline rsv p obs = Some (q, Inr d)" by (rule waitFor_ok)
  thus ?thesis using waitFor_loop_delay by blast
qed

lemma waited:
  assumes "waits_at rts cfg h cutoff s a" "bucketWait (ta_env a) = Inr d" "\<not> 0 < d" "cool_inv rts s" "h \<in> rts"
  shows "k_clock s \<le> cutoff" "route_cooling h B s \<Longrightarrow> B \<le> k_clock (ta_seen a)"
proof -
  have "bucket_wait (queueDeadline cfg) (UpstreamTimeout cfg) (ta_waits a) = Some (Inr 0)"
    using assms(1-3) bucket_wait_delay by (fastforce simp: waits_at_def)
  from bucket_wait_zero [OF this]
  obtain ob where ob: "ob \<in> set (ta_waits a)" "wo_ctx ob = None" "wo_readyAt ob \<le> wo_now ob" by blast
  thus "k_clock s \<le> cutoff" using assms(1) by (auto simp: waits_at_def)
  obtain u r where u: "between rts s u (ta_seen a)" "resolve (k_client u) h = Some r"
    "wo_readyAt ob = readyAt (heap (k_world u) ! r)" "k_clock u \<le> wo_now ob" "wo_now ob \<le> k_clock (ta_seen a)"
    using assms(1) ob(1) by (auto simp: waits_at_def)
  show "B \<le> k_clock (ta_seen a)" if "route_cooling h B s"
    using cooling_kept [OF _ assms(4,5) that, of u] u ob(3) by (auto simp: between_def route_cooling_def)
qed

lemma attempt_waits:
  assumes "attempt_at rts cfg h m i cutoff s a" "before_send cfg i (ta_env a) = (evs, None)" "cool_inv rts s" "h \<in> rts"
  shows "k_clock s \<le> cutoff" "B \<le> k_clock s \<or> waits_until h i B s \<Longrightarrow> B \<le> k_clock (ta_seen a)"
proof -
  obtain d where d: "bucketWait (ta_env a) = Inr d" "\<not> 0 < d"
    using assms(2) by (auto simp: before_send_def split: prod.splits if_splits sum.splits)
  have w: "waits_at rts cfg h cutoff s a" and st: "cool_steps rts s (ta_seen a)" using assms(1) by (auto simp: attempt_at_def)
  note wt = waited [OF w d assms(3,4)]
  show "k_clock s \<le> cutoff" by (rule wt(1))
  have pacer: "B \<le> k_clock (ta_seen a)" if ni: "\<not> i" and b: "B \<le> blockedUntil (c_global (k_client s))"
  proof -
    obtain d' where d': "pacerWait (ta_env a) = Inr d'" "\<not> 0 < d'"
      using assms(2) ni by (auto simp: before_send_def split: prod.splits if_splits sum.splits)
    obtain u acq p r where u: "between rts s u (ta_seen a)"
      "waitFor acq (queueDeadline cfg) (UpstreamTimeout cfg) (c_global (k_client u)) (ta_polls a) = Some (p, Inr d')"
      and now: "\<forall>ob \<in> set (ta_polls a). po_now ob \<le> k_clock (ta_seen a)"
      using assms(1) ni d' by (auto simp: attempt_at_def polls_at_def)
    have "d' = 0" using waitFor_delay_pos [OF u(2)] d'(2) by blast
    then obtain ob where "ob \<in> set (ta_polls a)" "blockedUntil (c_global (k_client u)) \<le> po_now ob"
      using waitFor_passed u(2) by blast
    moreover have "blockedUntil (c_global (k_client s)) \<le> blockedUntil (c_global (k_client u))"
      using cool_steps_inv(3) [OF _ assms(3)] u(1) by (auto simp: between_def)
    ultimately show ?thesis using b now by force
  qed
  show "B \<le> k_clock (ta_seen a)" if "B \<le> k_clock s \<or> waits_until h i B s"
    using that wt(2) pacer cool_steps_inv(2) [OF st assms(3)] by (auto simp: waits_until_def)
qed


subsection \<open>Counting attempts\<close>

fun is_sent :: "rt_event \<Rightarrow> bool" where
  "is_sent (Send n b) = True"
| "is_sent e = False"

definition sends :: "rt_event list \<Rightarrow> nat" where
  "sends evs = length (filter is_sent evs)"

lemma sends_append [simp]: "sends (xs @ ys) = sends xs + sends ys"
  by (simp add: sends_def)

lemma sends_simps [simp]: "sends [] = 0" "sends (e # es) = (if is_sent e then 1 else 0) + sends es"
  by (simp_all add: sends_def)

lemma is_sent_iff: "is_sent e \<longleftrightarrow> (\<exists>n b. e = Send n b)"
  by (cases e) auto

lemma sends_0: "(\<And>n b. Send n b \<notin> set evs) \<Longrightarrow> sends evs = 0"
  by (auto simp: sends_def is_sent_iff filter_empty_conv)

lemma deferred_sends: "sends (deferred x l) = 0"
  by (rule sends_0) (simp add: deferred_def)

lemma validation_sends: "take_validation i env = (evs, vh, err) \<Longrightarrow> sends evs = 0"
  by (rule sends_0) (auto simp: take_validation_def split: if_splits option.splits)

lemma after_response_429: "after_response cfg i a status h l = (evs, l', None) \<Longrightarrow> status = StatusTooManyRequests"
  by (auto simp: after_response_def hand_over_response_def Let_def split: prod.splits if_splits)

lemma send_attempt_sends:
  assumes "send_attempt cfg i n a l = (evs, l', res)"
  shows "sends evs \<le> 1" "res = None \<Longrightarrow> sends evs = 1 \<and> (\<exists>hdr. upstream a = Upstream StatusTooManyRequests hdr)"
proof -
  have "sends evs \<le> 1 \<and> (res = None \<longrightarrow> sends evs = 1 \<and> (\<exists>hdr. upstream a = Upstream StatusTooManyRequests hdr))"
  proof (cases "\<exists>status h. guardGrants a \<and> upstream a = Upstream status h \<and> (\<exists>x. snd (body (replaying l) n (files a)) = Inr x)")
    case True
    then obtain status h x where up: "guardGrants a" "upstream a = Upstream status h" "snd (body (replaying l) n (files a)) = Inr x"
      by blast
    obtain ev l3 res3 where ar: "after_response cfg i a status h
        (read_first (l\<lparr>replaying := fst (body (replaying l) n (files a))\<rparr>) n (firstReads a)) = (ev, l3, res3)" by (rule prod_cases3)
    have "evs = [AttemptStart, Reserve, Send n x, Complete (invalidDiscordResponse status h), Observe status h] @ ev" "res = res3"
      using assms up ar by (auto simp: send_attempt_def Let_def split: prod.splits)
    moreover have "sends ev = 0" by (rule sends_0) (rule after_response_sends [OF ar])
    ultimately show ?thesis using after_response_429 ar up(2) by (auto simp: sends_def)
  next
    case False
    thus ?thesis using assms
      by (auto simp: send_attempt_def sends_def Let_def split: prod.splits sum.splits if_splits upstream_result.splits)
  qed
  thus "sends evs \<le> 1" "res = None \<Longrightarrow> sends evs = 1 \<and> (\<exists>hdr. upstream a = Upstream StatusTooManyRequests hdr)" by auto
qed

lemma attempt_after:
  assumes "attempt_at rts cfg h m i cutoff s a" "upstream (ta_env a) = Upstream StatusTooManyRequests hdr" "cool_inv rts s" "h \<in> rts"
  defines "B \<equiv> k_clock (ta_seen a) + minimumRetryDelay"
  shows "cool_inv rts (ta_after a)" "B \<le> k_clock (ta_after a) \<or> waits_until h i B (ta_after a)"
    "k_clock (ta_seen a) \<le> k_clock (ta_after a)"
proof -
  let ?s = "ta_seen a" and ?t = "ta_times a"
  obtain r r' where o: "resolve (k_client ?s) h = Some r"
    "observeResponse (k_client ?s) (k_world ?s) h m i r StatusTooManyRequests (Some hdr) (Disable401Lock cfg) ?t =
      (k_client (ta_after a), k_world (ta_after a), r')"
    and f: "bucket_fresh rts (ri_bucket (fst (parseRateLimitHeaders (Some hdr) StatusTooManyRequests (at_parse ?t)))) m"
    and c: "k_clock ?s \<le> at_global ?t" "k_clock ?s \<le> at_bucket ?t" "k_clock ?s \<le> k_clock (ta_after a)"
    using assms(1,2) by (auto simp: attempt_at_def observes_at_def)
  have inv: "cool_inv rts ?s" using cool_steps_inv(1) assms(1,3) by (auto simp: attempt_at_def)
  have eq: "\<lparr>k_client = k_client (ta_after a), k_world = k_world (ta_after a), k_clock = k_clock (ta_after a)\<rparr> = ta_after a" by simp
  from observe_steps [OF o(2,1) assms(4) c(3) f] have "cool_steps rts ?s (ta_after a)"
    unfolding eq by (metis (no_types) rtranclp.rtrancl_into_rtrancl)
  thus "cool_inv rts (ta_after a)" using cool_steps_inv(1) inv by blast
  show "B \<le> k_clock (ta_after a) \<or> waits_until h i B (ta_after a)"
    using observe_waits [OF o(2,1) assms(4) c(3) inv f c(1,2)] unfolding B_def eq by linarith
  show "k_clock ?s \<le> k_clock (ta_after a)" by (rule c(3))
qed

definition most_sends :: "duration \<Rightarrow> nat" where
  \<comment> \<open>for the time from the first possible attempt to the end of the context\<close>
  "most_sends d = nat (2 + d div minimumRetryDelay)"

lemma most_sends_mono: "d \<le> d' \<Longrightarrow> most_sends d \<le> most_sends d'"
  by (simp add: most_sends_def minimumRetryDelay_def time_defs nat_mono zdiv_mono1)

lemma most_sends_Suc: "- minimumRetryDelay \<le> d \<Longrightarrow> Suc (most_sends (d - minimumRetryDelay)) = most_sends d"
proof -
  assume "- minimumRetryDelay \<le> d"
  moreover have "(d - minimumRetryDelay) div minimumRetryDelay = d div minimumRetryDelay - 1"
    by (simp add: minimumRetryDelay_def time_defs)
  ultimately show ?thesis by (simp add: most_sends_def minimumRetryDelay_def time_defs)
qed

lemma attempts_loop_sends:
  "attempts_loop cfg i n (map ta_env as) l = (evs, l', res) \<Longrightarrow> attempts_at rts cfg h m i cutoff s as \<Longrightarrow> cool_inv rts s \<Longrightarrow>
   h \<in> rts \<Longrightarrow> B - minimumRetryDelay \<le> k_clock s \<Longrightarrow> B \<le> k_clock s \<or> waits_until h i B s \<Longrightarrow>
   sends evs \<le> most_sends (cutoff - B) \<and> (res = None \<longrightarrow> sends evs = length as)"
proof (induction as arbitrary: n l evs l' res s B)
  case (Cons a as)
  note at = Cons.prems(2) [unfolded attempts_at.simps, THEN conjunct1]
  obtain ev1 res1 where b: "before_send cfg i (ta_env a) = (ev1, res1)" by (rule prod.exhaust)
  obtain ev2 l2 res2 where sa: "send_attempt cfg i n (ta_env a) l = (ev2, l2, res2)" by (rule prod_cases3)
  obtain ev3 l3 res3 where lp: "attempts_loop cfg i (Suc n) (map ta_env as) l2 = (ev3, l3, res3)" by (rule prod_cases3)
  have s1: "sends ev1 = 0" by (rule sends_0) (rule before_send_sends [OF b])
  show ?case
  proof (cases res1)
    case (Some x)
    thus ?thesis using Cons.prems(1) b s1 by auto
  next
    case None
    have clk: "k_clock s \<le> cutoff" "B \<le> k_clock (ta_seen a)"
      using attempt_waits [OF at b [unfolded None] Cons.prems(3,4)] Cons.prems(6) by auto
    hence suc: "Suc (most_sends (cutoff - B - minimumRetryDelay)) = most_sends (cutoff - B)"
      using Cons.prems(5) by (intro most_sends_Suc) linarith
    note sd = send_attempt_sends [OF sa]
    show ?thesis
    proof (cases res2)
      case (Some x)
      thus ?thesis using Cons.prems(1) b None sa s1 sd(1) suc by auto
    next
      case none2: None
      then obtain hdr where up: "upstream (ta_env a) = Upstream StatusTooManyRequests hdr" and s2: "sends ev2 = 1" using sd(2) by blast
      let ?B = "k_clock (ta_seen a) + minimumRetryDelay"
      note af = attempt_after [OF at up Cons.prems(3,4)]
      have "sends ev3 \<le> most_sends (cutoff - ?B) \<and> (res3 = None \<longrightarrow> sends ev3 = length as)"
        using Cons.IH [OF lp _ af(1) Cons.prems(4) _ af(2)] Cons.prems(2) af(3) by simp
      moreover have "most_sends (cutoff - ?B) \<le> most_sends (cutoff - B - minimumRetryDelay)"
        using clk(2) by (intro most_sends_mono) linarith
      moreover have "evs = ev1 @ ev2 @ ev3" "res = res3" using Cons.prems(1) b None sa none2 lp by auto
      ultimately show ?thesis using s1 s2 suc by auto
    qed
  qed
qed (simp add: sends_def)

text \<open>
  C8. The retry loop of \<open>RoundTrip\<close> ends. If its checks of the queue's context find the context ended from the time \<open>cutoff\<close> on
  (the deadline of the queue, and the delay of its timer), one request is sent to Discord at most
  \<open>2 + (cutoff - start) div 50 ms\<close> times, even if Discord answers each attempt with a 429, with whatever
  headers (none, invalid ones, a delay of zero, another bucket), and whatever other requests do meanwhile; and \<open>RoundTrip\<close>
  returns after at most that many attempts and one.
\<close>

theorem retries_bounded:
  assumes "attempts_at rts cfg h m i cutoff s as" "cool_inv rts s" "h \<in> rts"
  shows "sends (fst (RoundTrip cfg i env (map ta_env as))) \<le> most_sends (cutoff - k_clock s) \<and>
    (most_sends (cutoff - k_clock s) < length as \<longrightarrow> snd (RoundTrip cfg i env (map ta_env as)) \<noteq> None)"
proof -
  have loop: "sends evs \<le> most_sends (cutoff - k_clock s) \<and> (res = None \<longrightarrow> sends evs = length as)"
    if "attempts_loop cfg i 0 (map ta_env as) l = (evs, l', res)" for l evs l' res
    by (rule attempts_loop_sends [OF that assms]) (simp_all add: minimumRetryDelay_def time_defs)
  obtain evs res where rt: "RoundTrip cfg i env (map ta_env as) = (evs, res)" by (rule prod.exhaust)
  have "sends evs \<le> most_sends (cutoff - k_clock s) \<and> (res = None \<longrightarrow> sends evs = length as)"
    using rt by (auto simp: RoundTrip_def Let_def deferred_sends split: if_splits sum.splits prod.splits option.splits
        dest!: validation_sends loop)
  thus ?thesis using rt by auto
qed

definition limited_after :: cool_sys where
  \<comment> \<open>after a 429 without headers at the time 100\<close>
  "limited_after = (cool_example 7)\<lparr>k_clock := 100,
     k_world := block_bucket (k_world (cool_example 7)) 0 (100 + minimumRetryDelay)\<rparr>"

definition retry_example :: "timed_attempt list" where
  "retry_example =
     (let ob = \<lambda>t. \<lparr>wo_ctx = None, wo_readyAt = t, wo_now = t, wo_now_deadline = t, wo_event = TimerFired\<rparr>;
          all_at = \<lambda>t. \<lparr>at_parse = t, at_global = t, at_bucket = t\<rparr>;
          later = 100 + minimumRetryDelay
      in [\<lparr>ta_env = example_attempt 429 [], ta_waits = [ob 100], ta_polls = [], ta_seen = (cool_example 7)\<lparr>k_clock := 100\<rparr>,
           ta_times = all_at 100, ta_after = limited_after\<rparr>,
          \<lparr>ta_env = example_attempt 200 [], ta_waits = [ob later], ta_polls = [], ta_seen = limited_after\<lparr>k_clock := later\<rparr>,
           ta_times = all_at later, ta_after = limited_after\<lparr>k_clock := later\<rparr>\<rparr>])"

lemma bare_limits: "parseRateLimitHeaders (Some []) st t = (no_info, None)"
  by (simp add: parseRateLimitHeaders_def header_Get_def header_Values_def)

lemma bare_observe:
  "observeResponse c w h m True r 429 (Some []) False t =
     (c, block_bucket w r (at_bucket t + minimumRetryDelay), r)"
  "observeResponse c w h m True r 200 (Some []) False t = (c, w, r)"
  by (simp_all add: observeResponse_def bare_limits no_info_def note_invalid_def apply_limits_def learnBucket_def status_defs
      minimumRetryDelay_def time_defs)

lemma tick_between: "k_clock s \<le> t \<Longrightarrow> cool_steps rts s (s\<lparr>k_clock := t\<rparr>) \<and> between rts s s (s\<lparr>k_clock := t\<rparr>)"
  by (simp add: between_def r_into_rtranclp cool_step.tick)

theorem retries_bounded_witness:
  "let cfg = \<lparr>UpstreamTimeout = 10, Disable401Lock = False, queueDeadline = None, MaxRetryBodyBytes = 100, metricsEnabled = True\<rparr>
   in attempts_at {7} cfg 7 [] True 1000000000 (cool_example 7) retry_example \<and>
      sends (fst (RoundTrip cfg True example_request (map ta_env retry_example))) \<le> 22"
proof -
  let ?cfg = "\<lparr>UpstreamTimeout = 10, Disable401Lock = False, queueDeadline = None, MaxRetryBodyBytes = 100, metricsEnabled = True\<rparr>"
  let ?later = "100 + minimumRetryDelay"
  have res: "resolve (k_client (cool_example 7)) 7 = Some 0" "resolve (k_client limited_after) 7 = Some 0"
    "readyAt (heap (k_world (cool_example 7)) ! 0) = 100" "readyAt (heap (k_world limited_after) ! 0) = ?later"
    "k_clock (cool_example 7) = 0" "k_clock limited_after = 100" "k_client limited_after = k_client (cool_example 7)"
    "k_world limited_after = block_bucket (k_world (cool_example 7)) 0 ?later"
    by (simp_all add: limited_after_def cool_example_def newClientState_def client_touch_def resolve_def canonical_of_def
        block_bucket_def blockUntil_def newBucketState_def minimumRetryDelay_def time_defs time_zero_def)
  have "0 < minimumRetryDelay" "minimumRetryDelay < 100000000" by (simp_all add: minimumRetryDelay_def time_defs)
  hence at: "attempts_at {7} ?cfg 7 [] True 1000000000 (cool_example 7) retry_example"
    using res tick_between [of "cool_example 7" 100 "{7}"] tick_between [of limited_after ?later "{7}"]
    by (simp add: retry_example_def Let_def attempt_at_def waits_at_def observes_at_def example_attempt_def bare_observe
        bare_limits bucket_fresh_def no_info_def)
      (intro conjI exI [of _ "cool_example 7"] exI [of _ limited_after]; simp)
  have "most_sends (1000000000 - k_clock (cool_example 7)) = 22"
    by (simp add: res most_sends_def minimumRetryDelay_def time_defs)
  thus ?thesis using at retries_bounded [OF at cool_example_facts(1), of example_request] by (simp add: Let_def)
qed

end
