(* ===== verification/Observability.thy ===== *)
theory Observability
  imports Go_Strings Nirn_Prelude
begin

section \<open>Labels of metrics and redaction of logs\<close>

text \<open>
  From \<^verbatim>\<open>internal/proxy/observability.go\<close>: the limiter of route labels, the label of the
  request method, the regular expression that removes tokens from log messages, and the log hook that applies it. The
  loggers and metrics themselves are in \<open>Telemetry\<close>, the servers of metrics and profiles in \<open>Startup\<close>.
\<close>

subsection \<open>Route labels\<close>

definition maxMetricsRouteLabels :: int where "maxMetricsRouteLabels = 1024"
definition maxMetricsRouteLabelBytes :: nat where "maxMetricsRouteLabelBytes = 512"
definition overflowMetricsRouteLabel :: string where "overflowMetricsRouteLabel = ''/unknown''"

record routeLabelLimiter =
  l_limit :: int
  l_seen :: "(string, unit) gomap"

definition newRouteLabelLimiter :: "int \<Rightarrow> routeLabelLimiter" where
  "newRouteLabelLimiter lim = \<lparr>l_limit = lim, l_seen = [(overflowMetricsRouteLabel, ())]\<rparr>"

definition route_label :: "routeLabelLimiter \<Rightarrow> string \<Rightarrow> routeLabelLimiter \<times> string" where
  \<comment> \<open>\<^verbatim>\<open>routeLabelLimiter.label\<close>\<close>
  "route_label l route =
     (if maxMetricsRouteLabelBytes < length route then (l, overflowMetricsRouteLabel)
      else if map_of (l_seen l) route \<noteq> None then (l, route)
      else if l_limit l \<le> int (length (l_seen l)) then (l, overflowMetricsRouteLabel)
      else (l\<lparr>l_seen := AList.update route () (l_seen l)\<rparr>, route))"

fun label_all :: "routeLabelLimiter \<Rightarrow> string list \<Rightarrow> routeLabelLimiter \<times> string list" where
  \<comment> \<open>the calls of all requests, one after the other: \<^verbatim>\<open>label\<close> runs under a mutex\<close>
  "label_all l [] = (l, [])"
| "label_all l (r # rs) =
     (case route_label l r of (l1, x) \<Rightarrow> case label_all l1 rs of (l2, xs) \<Rightarrow> (l2, x # xs))"

definition metricsMethodLabel :: "string \<Rightarrow> string" where
  "metricsMethodLabel verb =
     (if verb \<in> {''GET'', ''HEAD'', ''POST'', ''PUT'', ''PATCH'', ''DELETE'', ''CONNECT'', ''OPTIONS'', ''TRACE''} then verb
      else ''OTHER'')"


subsection \<open>Redaction\<close>

text \<open>
  \<^verbatim>\<open>loggerHookRegex\<close> is \<^verbatim>\<open>(/(?:webhooks|interactions)/[^/?\s]+/)[^/?\s]+\<close>. Both repeated classes end at a character
  that the class excludes, so a match is determined by where it starts: \<open>secret_at\<close> gives the first group and the rest
  of the text after the match. The excluded characters are ASCII, so that it makes no difference that Go matches
  characters and not bytes. \<^verbatim>\<open>ReplaceAllString\<close> looks for the leftmost match and goes on after it.
\<close>

definition delimiter :: "char \<Rightarrow> bool" where
  "delimiter c \<longleftrightarrow> c \<in> {CHR ''/'', CHR ''?'', CHR '' ''} \<or> (of_char c :: nat) \<in> {9, 10, 12, 13}"

definition secretPrefixes :: "string list" where
  "secretPrefixes = [''/webhooks/'', ''/interactions/'']"

definition secret_at :: "string \<Rightarrow> (string \<times> string) option" where
  "secret_at s =
     (case find (HasPrefix s) secretPrefixes of
        None \<Rightarrow> None
      | Some p \<Rightarrow>
          let i = takeWhile (\<lambda>c. \<not> delimiter c) (drop (length p) s) in
          (case dropWhile (\<lambda>c. \<not> delimiter c) (drop (length p) s) of
             [] \<Rightarrow> None
           | d # t \<Rightarrow>
               if i \<noteq> [] \<and> d = CHR ''/'' \<and> takeWhile (\<lambda>c. \<not> delimiter c) t \<noteq> []
               then Some (p @ i @ [d], dropWhile (\<lambda>c. \<not> delimiter c) t) else None))"

lemma secret_at_shorter: "secret_at s = Some (g, rest) \<Longrightarrow> length rest < length s"
proof -
  assume a: "secret_at s = Some (g, rest)"
  then obtain p d t where p: "find (HasPrefix s) secretPrefixes = Some p"
    and t: "dropWhile (\<lambda>c. \<not> delimiter c) (drop (length p) s) = d # t" "rest = dropWhile (\<lambda>c. \<not> delimiter c) t"
    by (auto simp: secret_at_def Let_def split: option.splits list.splits if_splits)
  have "length rest \<le> length t" using t(2) by (simp add: length_dropWhile_le)
  also have "\<dots> < length (dropWhile (\<lambda>c. \<not> delimiter c) (drop (length p) s))" by (simp add: t(1))
  also have "\<dots> \<le> length s" by (rule order_trans [OF length_dropWhile_le]) simp
  finally show ?thesis .
qed

function redactLogSecrets :: "string \<Rightarrow> string" where
  "redactLogSecrets [] = []"
| "redactLogSecrets (c # s) =
     (case secret_at (c # s) of
        Some (g, rest) \<Rightarrow> g @ '':token'' @ redactLogSecrets rest
      | None \<Rightarrow> c # redactLogSecrets s)"
  by pat_completeness auto
termination
  by (relation "measure length") (auto dest: secret_at_shorter)


subsection \<open>The log hook\<close>

datatype log_value = LogString string | LogError string | LogOther

record log_entry =
  e_message :: string
  e_data :: "(string, log_value) gomap"
  e_level :: nat

definition redact_field :: "(string, log_value) gomap \<Rightarrow> string \<Rightarrow> (string, log_value) gomap" where
  "redact_field data field =
     (case map_of data field of
        Some (LogString v) \<Rightarrow> AList.update field (LogString (redactLogSecrets v)) data
      | Some (LogError v) \<Rightarrow> AList.update field (LogString (redactLogSecrets v)) data
      | _ \<Rightarrow> data)"

definition Fire :: "string \<Rightarrow> nat \<Rightarrow> log_entry \<Rightarrow> nat \<Rightarrow> log_entry \<times> nat" where
  \<comment> \<open>\<^verbatim>\<open>logrus.ErrorKey\<close>, \<^verbatim>\<open>logrus.ErrorLevel\<close>, the entry, and the value of \<^verbatim>\<open>ErrorCounter\<close>\<close>
  "Fire errorKey errorLevel e errors =
     (e\<lparr>e_message := redactLogSecrets (e_message e), e_data := foldl redact_field (e_data e) [''path'', ''route'', errorKey]\<rparr>,
      if e_level e \<le> errorLevel then Suc errors else errors)"


subsection \<open>What the limiter keeps\<close>

definition labels :: "routeLabelLimiter \<Rightarrow> string set" where
  "labels l = dom (map_of (l_seen l))"

lemma labels_update: "labels (l\<lparr>l_seen := AList.update r () (l_seen l)\<rparr>) = insert r (labels l)"
  by (simp add: labels_def update_conv')

lemma labels_iff: "map_of (l_seen l) r = None \<longleftrightarrow> r \<notin> labels l"
  by (simp add: labels_def dom_map_of_conv_image_fst map_of_eq_None_iff)

definition limiter_wf :: "int \<Rightarrow> routeLabelLimiter \<Rightarrow> bool" where
  "limiter_wf lim l \<longleftrightarrow> l_limit l = lim \<and> keys_distinct (l_seen l) \<and> int (length (l_seen l)) \<le> max 1 lim \<and>
     overflowMetricsRouteLabel \<in> labels l \<and> labels l \<subseteq> {r. length r \<le> maxMetricsRouteLabelBytes}"

lemma limiter_wf_new: "limiter_wf lim (newRouteLabelLimiter lim)"
  by (simp add: limiter_wf_def labels_def newRouteLabelLimiter_def overflowMetricsRouteLabel_def maxMetricsRouteLabelBytes_def)

lemma route_label_keeps:
  assumes "limiter_wf lim l" "route_label l r = (l', x)"
  shows "limiter_wf lim l'" "x \<in> labels l'" "labels l \<subseteq> labels l'" "x \<in> {r, overflowMetricsRouteLabel}"
  using assms by (auto simp: limiter_wf_def route_label_def labels_iff length_update labels_update split: if_splits simp del: map_of_eq_None_iff)

lemma label_all_keeps:
  assumes "limiter_wf lim l" "label_all l rs = (l', xs)"
  shows "limiter_wf lim l' \<and> set xs \<subseteq> labels l' \<and> labels l \<subseteq> labels l' \<and>
    set xs \<subseteq> insert overflowMetricsRouteLabel (set rs) \<and> length xs = length rs"
  using assms
proof (induction rs arbitrary: l xs)
  case (Cons r rs)
  obtain l1 x where 1: "route_label l r = (l1, x)" by (rule prod.exhaust)
  obtain l2 ys where 2: "label_all l1 rs = (l2, ys)" by (rule prod.exhaust)
  have e: "l2 = l'" "xs = x # ys" using Cons.prems(2) 1 2 by auto
  note k = route_label_keeps [OF Cons.prems(1) 1]
  show ?case using Cons.IH [OF k(1) 2 [unfolded e(1)]] k(2-4) e(2) by auto
qed simp

lemma labels_card: "limiter_wf lim l \<Longrightarrow> int (card (labels l)) \<le> max 1 lim"
  by (simp add: limiter_wf_def labels_def dom_map_of_conv_image_fst distinct_card [of "map fst (l_seen l)", simplified])

lemma label_known: "limiter_wf lim l \<Longrightarrow> r \<in> labels l \<Longrightarrow> route_label l r = (l, r)"
  by (auto simp: limiter_wf_def route_label_def labels_iff)

definition methodLabels :: "string set" where
  "methodLabels = {''GET'', ''HEAD'', ''POST'', ''PUT'', ''PATCH'', ''DELETE'', ''CONNECT'', ''OPTIONS'', ''TRACE'', ''OTHER''}"

lemma methodLabels_card: "metricsMethodLabel v \<in> methodLabels" "finite methodLabels" "card methodLabels = 10"
  by (simp_all add: metricsMethodLabel_def methodLabels_def)

text \<open>
  C37. Clients cannot make the metrics grow: whatever methods and paths requests have, the pairs of labels they are counted
  under are at most ten times \<open>maxMetricsRouteLabels\<close>, no route label is longer than 512 bytes, each is the route of
  the request or \<open>/unknown\<close>, and a route that once got a label of its own keeps it.
\<close>

theorem metric_labels_bounded:
  assumes "label_all (newRouteLabelLimiter maxMetricsRouteLabels) routes = (l, xs)" "length verbs = length routes"
  shows "card (set (zip (map metricsMethodLabel verbs) xs)) \<le> 10240 \<and>
    set xs \<subseteq> {x. length x \<le> 512} \<and> set xs \<subseteq> insert ''/unknown'' (set routes) \<and>
    (\<forall>r \<in> set xs. route_label l r = (l, r))"
proof -
  note k = label_all_keeps [OF limiter_wf_new assms(1)]
  have fin: "finite (labels l)" by (simp add: labels_def finite_dom_map_of)
  have "card (set (zip (map metricsMethodLabel verbs) xs)) \<le> card (methodLabels \<times> labels l)"
    using k by (intro card_mono) (auto simp: methodLabels_card(2) fin in_set_zip methodLabels_card(1) subset_iff)
  also have "\<dots> = 10 * card (labels l)" by (simp add: card_cartesian_product methodLabels_card(3))
  also have "\<dots> \<le> 10240"
    using labels_card [OF conjunct1 [OF k]] by (simp add: maxMetricsRouteLabels_def)
  finally have c: "card (set (zip (map metricsMethodLabel verbs) xs)) \<le> 10240" .
  moreover have "labels l \<subseteq> {x. length x \<le> 512}"
    using conjunct1 [OF k] by (simp add: limiter_wf_def maxMetricsRouteLabelBytes_def)
  moreover have "\<forall>r \<in> set xs. route_label l r = (l, r)" using k label_known by blast
  ultimately show ?thesis using k by (auto simp: overflowMetricsRouteLabel_def)
qed

theorem metric_labels_bounded_witness:
  "\<exists>l. label_all (newRouteLabelLimiter maxMetricsRouteLabels) [''/users/@me'', ''/users/@me''] = (l, [''/users/@me'', ''/users/@me'']) \<and>
     route_label l ''/users/@me'' = (l, ''/users/@me'')"
proof -
  obtain l where l: "label_all (newRouteLabelLimiter maxMetricsRouteLabels) [''/users/@me'', ''/users/@me''] =
      (l, [''/users/@me'', ''/users/@me''])"
    by (simp add: route_label_def newRouteLabelLimiter_def maxMetricsRouteLabels_def maxMetricsRouteLabelBytes_def
        overflowMetricsRouteLabel_def)
  thus ?thesis using metric_labels_bounded [OF l, of "[''GET'', ''PUT'']"] by auto
qed


subsection \<open>What redaction removes\<close>

definition one_segment :: "string \<Rightarrow> bool" where
  \<comment> \<open>a match of \<^verbatim>\<open>[^/?\s]+\<close>\<close>
  "one_segment s \<longleftrightarrow> list_all (\<lambda>c. \<not> delimiter c) s \<and> s \<noteq> []"

definition cut_off :: "string \<Rightarrow> bool" where
  \<comment> \<open>nothing, or a delimiter first: what can follow a maximal run\<close>
  "cut_off s \<longleftrightarrow> (case s of [] \<Rightarrow> True | c # _ \<Rightarrow> delimiter c)"

lemma slash_delimiter [simp]: "delimiter CHR ''/''" by (simp add: delimiter_def)

lemma cut_off_simps [simp]: "cut_off []" "cut_off (c # s) = delimiter c"
  by (simp_all add: cut_off_def)

lemma cut_off_dropWhile [simp]: "cut_off (dropWhile (\<lambda>c. \<not> delimiter c) s)"
  by (induction s) auto

lemma run_cut:
  assumes "list_all (\<lambda>c. \<not> delimiter c) i" "cut_off s"
  shows "takeWhile (\<lambda>c. \<not> delimiter c) (i @ s) = i" "dropWhile (\<lambda>c. \<not> delimiter c) (i @ s) = s"
  using assms by (auto simp: takeWhile_append dropWhile_append list_all_iff cut_off_def split: list.splits)

lemma find_prefix:
  assumes "p \<in> set secretPrefixes"
  shows "find (HasPrefix (p @ s)) secretPrefixes = Some p"
proof -
  have "p = ''/webhooks/'' \<or> p = ''/interactions/''" using assms by (simp add: secretPrefixes_def)
  thus ?thesis by (elim disjE) (simp_all add: secretPrefixes_def HasPrefix_def)
qed

lemma find_prefixD:
  assumes "find (HasPrefix s) secretPrefixes = Some p"
  shows "p \<in> set secretPrefixes \<and> s = p @ drop (length p) s"
proof -
  have "HasPrefix s p" "p \<in> set secretPrefixes" using assms by (auto simp: find_Some_iff)
  thus ?thesis using HasPrefixE by force
qed

lemma secret_at_known:
  assumes "p \<in> set secretPrefixes" "one_segment i" "one_segment tok" "cut_off post"
  shows "secret_at (p @ i @ CHR ''/'' # tok @ post) = Some (p @ i @ ''/'', post)"
  using assms by (simp add: secret_at_def find_prefix run_cut one_segment_def)

lemma secret_atE:
  assumes "secret_at s = Some (g, rest)"
  obtains p i tok where "s = p @ i @ CHR ''/'' # tok @ rest" "g = p @ i @ ''/''" "p \<in> set secretPrefixes"
    "one_segment i" "one_segment tok" "cut_off rest"
proof -
  let ?n = "\<lambda>c. \<not> delimiter c"
  obtain p d t where p: "find (HasPrefix s) secretPrefixes = Some p"
    and t: "dropWhile ?n (drop (length p) s) = d # t" "d = CHR ''/''" "rest = dropWhile ?n t"
      "takeWhile ?n (drop (length p) s) \<noteq> []" "takeWhile ?n t \<noteq> []" "g = p @ takeWhile ?n (drop (length p) s) @ [d]"
    using assms by (auto simp: secret_at_def Let_def split: option.splits list.splits if_splits)
  have "drop (length p) s = takeWhile ?n (drop (length p) s) @ CHR ''/'' # takeWhile ?n t @ rest"
    using t(1-3) by (metis takeWhile_dropWhile_id)
  hence "s = p @ takeWhile ?n (drop (length p) s) @ CHR ''/'' # takeWhile ?n t @ rest"
    using find_prefixD [OF p] by metis
  moreover have "list_all ?n (takeWhile ?n x)" for x by (induction x) auto
  ultimately show ?thesis
    using that [of p "takeWhile ?n (drop (length p) s)" "takeWhile ?n t"] find_prefixD [OF p] t
    by (simp add: one_segment_def)
qed

lemma redact_match: "secret_at s = Some (g, rest) \<Longrightarrow> redactLogSecrets s = g @ '':token'' @ redactLogSecrets rest"
  by (cases s) (auto elim: secret_atE)

lemma redact_skip:
  "(\<And>k. k < length pre \<Longrightarrow> secret_at (drop k (pre @ s)) = None) \<Longrightarrow> redactLogSecrets (pre @ s) = pre @ redactLogSecrets s"
proof (induction pre)
  case (Cons c pre)
  have "secret_at (c # pre @ s) = None" using Cons.prems [of 0] by simp
  moreover have "secret_at (drop k (pre @ s)) = None" if "k < length pre" for k
    using Cons.prems [of "Suc k"] that by simp
  ultimately show ?case using Cons.IH by simp
qed simp

lemma redact_head: "cut_off s \<Longrightarrow> cut_off (redactLogSecrets s)"
proof (cases "secret_at s")
  case None
  thus "cut_off s \<Longrightarrow> cut_off (redactLogSecrets s)" by (cases s) auto
next
  case (Some x)
  obtain g rest where x: "x = (g, rest)" by (rule prod.exhaust)
  show "cut_off (redactLogSecrets s)"
    using Some unfolding x
  proof (rule secret_atE)
    fix p i tok assume "g = p @ i @ ''/''" "p \<in> set secretPrefixes"
    thus ?thesis using redact_match [OF Some [unfolded x]] by (auto simp: secretPrefixes_def)
  qed
qed

text \<open>A match at some position has three slashes before its token; what redaction changes lies after three slashes.\<close>

abbreviation slashes :: "string \<Rightarrow> nat" where "slashes s \<equiv> count_list s CHR ''/''"

lemma one_segment_slashes: "one_segment i \<Longrightarrow> slashes i = 0"
  by (auto simp: one_segment_def list_all_iff count_list_0_iff)

lemma group_slashes: "p \<in> set secretPrefixes \<Longrightarrow> one_segment i \<Longrightarrow> slashes (p @ i @ ''/'') = 3"
  by (auto simp: secretPrefixes_def one_segment_slashes)

lemma redact_changes:
  obtains "redactLogSecrets s = s"
  | u t w w' where "s = u @ t # w" "redactLogSecrets s = u @ w'" "3 \<le> slashes u"
proof (induction s arbitrary: thesis rule: redactLogSecrets.induct)
  case 1
  thus ?case by simp
next
  case (2 c s)
  show ?case
  proof (cases "secret_at (c # s)")
    case None
    show ?thesis
    proof (rule "2.IH"(1) [OF None])
      assume "redactLogSecrets s = s"
      thus ?thesis using "2.prems"(1) None by simp
    next
      fix u t w w' assume "s = u @ t # w" "redactLogSecrets s = u @ w'" "3 \<le> slashes u"
      thus ?thesis using "2.prems"(2) [of "c # u" t w w'] None by simp
    qed
  next
    case (Some x)
    obtain g rest where x: "x = (g, rest)" by (rule prod.exhaust)
    show ?thesis using Some unfolding x
    proof (rule secret_atE)
      fix p i tok assume a: "c # s = p @ i @ CHR ''/'' # tok @ rest" "g = p @ i @ ''/''" "p \<in> set secretPrefixes"
        "one_segment i" "one_segment tok"
      obtain t tok' where "tok = t # tok'" using a(5) by (cases tok) (auto simp: one_segment_def)
      thus ?thesis
        using "2.prems"(2) [of "p @ i @ ''/''" t "tok' @ rest" "'':token'' @ redactLogSecrets rest"] a
          redact_match [OF Some [unfolded x]] group_slashes [OF a(3,4)] by simp
    qed
  qed
qed

lemma secret_at_early:
  assumes "secret_at (c # u @ x) = Some (g, rest)" "3 \<le> slashes u"
  shows "secret_at (c # u @ y) \<noteq> None"
  using assms(1)
proof (rule secret_atE)
  fix p i tok assume a: "c # u @ x = p @ i @ CHR ''/'' # tok @ rest" "p \<in> set secretPrefixes" "one_segment i" "one_segment tok"
  obtain t tok' where t: "tok = t # tok'" "\<not> delimiter t" using a(4) by (cases tok) (auto simp: one_segment_def)
  let ?h = "p @ i @ CHR ''/'' # [t]"
  have three: "slashes ?h = 3" using group_slashes [OF a(2,3)] t(2) by auto
  have four: "4 \<le> slashes (c # u)"
    using a(1,2) assms(2) by (auto simp: secretPrefixes_def)
  have "(c # u) @ x = ?h @ tok' @ rest" using a(1) t(1) by simp
  then obtain z where z: "c # u = ?h @ z \<or> (c # u) @ z = ?h" by (metis append_eq_append_conv2)
  have "c # u = ?h @ z"
  proof (rule ccontr)
    assume "c # u \<noteq> ?h @ z"
    hence "slashes (c # u) \<le> slashes ?h" using z by (metis count_list_append le_add1)
    thus False using three four by linarith
  qed
  hence e: "c # u @ y = p @ i @ CHR ''/'' # (t # takeWhile (\<lambda>c. \<not> delimiter c) (z @ y)) @ dropWhile (\<lambda>c. \<not> delimiter c) (z @ y)"
    by (metis append.assoc append_Cons takeWhile_dropWhile_id append_Nil)
  have "one_segment (t # takeWhile (\<lambda>c. \<not> delimiter c) (z @ y))"
    using t(2) by (auto simp: one_segment_def list_all_iff dest: set_takeWhileD)
  thus ?thesis unfolding e using secret_at_known [OF a(2,3) _ cut_off_dropWhile] by (metis option.distinct(1))
qed

lemma redact_idempotent: "redactLogSecrets (redactLogSecrets s) = redactLogSecrets s"
proof (induction s rule: redactLogSecrets.induct)
  case (2 c s)
  show ?case
  proof (cases "secret_at (c # s)")
    case None
    have "secret_at (c # redactLogSecrets s) = None"
    proof (rule redact_changes [of s])
      assume "redactLogSecrets s = s"
      thus ?thesis using None by simp
    next
      fix u t w w' assume a: "s = u @ t # w" "redactLogSecrets s = u @ w'" "3 \<le> slashes u"
      show ?thesis
      proof (rule ccontr)
        assume "secret_at (c # redactLogSecrets s) \<noteq> None"
        then obtain g rest where "secret_at (c # u @ w') = Some (g, rest)" using a(2) by auto
        thus False using secret_at_early [of c u w' g rest "t # w"] None a by simp
      qed
    qed
    thus ?thesis using "2.IH"(1) [OF None] None by simp
  next
    case (Some x)
    obtain g rest where x: "x = (g, rest)" by (rule prod.exhaust)
    show ?thesis using Some unfolding x
    proof (rule secret_atE)
      fix p i tok assume a: "g = p @ i @ ''/''" "p \<in> set secretPrefixes" "one_segment i" "cut_off rest"
      have r: "redactLogSecrets (c # s) = p @ i @ CHR ''/'' # '':token'' @ redactLogSecrets rest"
        using redact_match [OF Some [unfolded x]] a(1) by simp
      have "secret_at (redactLogSecrets (c # s)) = Some (g, redactLogSecrets rest)"
        unfolding r a(1) by (rule secret_at_known [OF a(2,3) _ redact_head [OF a(4)]]) (simp add: one_segment_def delimiter_def)
      from redact_match [OF this] show ?thesis using "2.IH"(2) [OF Some x [symmetric]] r a(1) by simp
    qed
  qed
qed simp



fun redact_value :: "log_value \<Rightarrow> log_value" where
  "redact_value (LogString v) = LogString (redactLogSecrets v)"
| "redact_value (LogError v) = LogString (redactLogSecrets v)"
| "redact_value LogOther = LogOther"

lemma redact_value_twice: "redact_value (redact_value x) = redact_value x"
  by (cases x) (simp_all add: redact_idempotent)

lemma redact_field_lookup:
  "map_of (redact_field d g) f = (if f = g then map_option redact_value (map_of d f) else map_of d f)"
  by (simp add: redact_field_def update_conv' split: option.split log_value.split)

lemma Fire_redacts:
  "e_message (fst (Fire errorKey errorLevel e n)) = redactLogSecrets (e_message e) \<and>
   map_of (e_data (fst (Fire errorKey errorLevel e n))) f =
     (if f \<in> {''path'', ''route'', errorKey} then map_option redact_value (map_of (e_data e) f) else map_of (e_data e) f)"
  by (simp add: Fire_def redact_field_lookup option.map_comp comp_def redact_value_twice)

end
