(* ===== verification/Construct.thy ===== *)
theory Construct
  imports Registry Guard Replay Go_Net
begin

section \<open>Building a proxy\<close>

text \<open>
  \<^verbatim>\<open>Config\<close> and \<^verbatim>\<open>New\<close> of \<^verbatim>\<open>internal/proxy/proxy.go\<close> with \<^verbatim>\<open>newHTTPTransport\<close> of
  \<^verbatim>\<open>internal/proxy/transport.go\<close>: the checks on a configuration in their order, and the state a new proxy starts with.
  What \<^verbatim>\<open>net.ResolveTCPAddr\<close> answers and whether the default transport has a TLS configuration are arguments.
\<close>

subsection \<open>Configuration\<close>

record proxyConfig =
  c_OutboundIP :: string
  c_UpstreamTimeout :: duration
  c_QueueTimeout :: duration
  c_DisableHTTP2 :: bool
  c_Disable401Lock :: bool
  c_EnableMetrics :: bool
  c_GlobalOverrides :: string
  c_MaxBearerClients :: int
  c_MaxBucketStates :: int
  c_MaxClientStates :: int
  c_MaxInFlightRequests :: int
  c_MaxQueueDepth :: int
  c_MaxRetryBodyBytes :: int
  c_MaxRetryCaptureBytes :: int
  c_InvalidRequestLimit :: int
  c_hasTransport :: bool

datatype new_error =
  BadUpstreamTimeout | BadQueueTimeout | BadBearerClients | BadBucketStates | BadClientStates | BadInFlight |
  BadQueueDepth | BadRetryBody | BadRetryCapture | BadInvalidLimit | BadOverrides override_error | UnresolvedOutboundIP

definition config_check :: "proxyConfig \<Rightarrow> new_error option" where
  \<comment> \<open>the checks on numbers at the beginning of \<^verbatim>\<open>New\<close>\<close>
  "config_check c =
     (if c_UpstreamTimeout c \<le> 0 then Some BadUpstreamTimeout
      else if c_QueueTimeout c \<le> 0 then Some BadQueueTimeout
      else if c_MaxBearerClients c \<le> 0 then Some BadBearerClients
      else if c_MaxBucketStates c \<le> 0 then Some BadBucketStates
      else if c_MaxClientStates c \<le> 0 then Some BadClientStates
      else if c_MaxInFlightRequests c \<le> 0 then Some BadInFlight
      else if c_MaxQueueDepth c \<le> 0 then Some BadQueueDepth
      else if c_MaxRetryBodyBytes c < 0 then Some BadRetryBody
      else if c_MaxRetryCaptureBytes c < 0 then Some BadRetryCapture
      else if c_InvalidRequestLimit c < 0 then Some BadInvalidLimit
      else None)"

definition invalid_limit :: "proxyConfig \<Rightarrow> int" where
  "invalid_limit c = (if c_InvalidRequestLimit c = 0 then InvalidRequestSafetyLimit else c_InvalidRequestLimit c)"


subsection \<open>The upstream transport\<close>

text \<open>A dialer of its own has a local address, a timeout and an interval for keep-alive messages.\<close>

record 'a transport =
  t_http1 :: bool
  t_http2 :: bool
  t_maxIdleConns :: int
  t_maxIdleConnsPerHost :: int
  t_maxConnsPerHost :: int
  t_idleConnTimeout :: duration
  t_tlsHandshakeTimeout :: duration
  t_expectContinueTimeout :: duration
  t_dialer :: "('a \<times> duration \<times> duration) option"
  t_nextProtos :: "string list option"

definition newHTTPTransport ::
  "(string \<Rightarrow> 'a option) \<Rightarrow> string list option \<Rightarrow> string \<Rightarrow> bool \<Rightarrow> new_error + 'a transport" where
  \<comment> \<open>the resolver, the ALPN protocols of the default transport's TLS configuration, if any, and the arguments\<close>
  "newHTTPTransport resolver inherited outboundIP disableHTTP2 =
     (let t = \<lparr>t_http1 = True, t_http2 = \<not> disableHTTP2, t_maxIdleConns = 2048, t_maxIdleConnsPerHost = 1024,
               t_maxConnsPerHost = 1024, t_idleConnTimeout = 90 * Second, t_tlsHandshakeTimeout = 10 * Second,
               t_expectContinueTimeout = Second, t_dialer = None, t_nextProtos = inherited\<rparr>;
          restrict = (\<lambda>t. if disableHTTP2 \<and> inherited \<noteq> None then t\<lparr>t_nextProtos := Some [''http/1.1'']\<rparr> else t)
      in if outboundIP \<noteq> [] then
           (case resolver (JoinHostPort outboundIP ''0'') of
              None \<Rightarrow> Inl UnresolvedOutboundIP
            | Some a \<Rightarrow> Inr (restrict (t\<lparr>t_dialer := Some (a, 30 * Second, 30 * Second)\<rparr>)))
         else Inr (restrict t))"


subsection \<open>New\<close>

record 'a proxy =
  p_config :: proxyConfig
  p_registry :: registry
  p_invalidRequests :: invalidRequestGuard
  p_inFlight :: resourceBudget
  p_retryCapture :: resourceBudget
  p_transport :: "'a transport option"

definition New ::
  "(string \<Rightarrow> 'a option) \<Rightarrow> string list option \<Rightarrow> time \<Rightarrow> proxyConfig \<Rightarrow> new_error + 'a proxy" where
  \<comment> \<open>a transport that the configuration gives is opaque: \<open>p_transport\<close> is \<open>None\<close> then\<close>
  "New resolver inherited now c =
     (case config_check c of
        Some e \<Rightarrow> Inl e
      | None \<Rightarrow>
          (case parseGlobalOverrides (c_GlobalOverrides c) of
             Inl e \<Rightarrow> Inl (BadOverrides e)
           | Inr overrides \<Rightarrow>
               (case (if c_hasTransport c then Inr None
                      else map_sum id Some (newHTTPTransport resolver inherited (c_OutboundIP c) (c_DisableHTTP2 c))) of
                  Inl e \<Rightarrow> Inl e
                | Inr t \<Rightarrow>
                    Inr \<lparr>p_config = c,
                         p_registry = newRegistry (c_MaxBearerClients c) (c_MaxClientStates c) (c_MaxQueueDepth c) overrides
                                        (c_MaxBucketStates c) now,
                         p_invalidRequests = newInvalidRequestGuard (invalid_limit c) invalidRequestWindow,
                         p_inFlight = newResourceBudget (word_of_int (c_MaxInFlightRequests c)),
                         p_retryCapture = newResourceBudget (word_of_int (c_MaxRetryCaptureBytes c)),
                         p_transport = t\<rparr>)))"

definition fits_int64 :: "proxyConfig \<Rightarrow> bool" where
  \<comment> \<open>what the types \<^verbatim>\<open>int\<close> and \<^verbatim>\<open>int64\<close> of the fields say\<close>
  "fits_int64 c \<longleftrightarrow> list_all (\<lambda>n. - (2 ^ 63) \<le> n \<and> n < 2 ^ 63)
     [c_MaxBearerClients c, c_MaxBucketStates c, c_MaxClientStates c, c_MaxInFlightRequests c, c_MaxQueueDepth c,
      c_MaxRetryBodyBytes c, c_MaxRetryCaptureBytes c, c_InvalidRequestLimit c]"


subsection \<open>What a new proxy promises\<close>

lemma config_check_None:
  "config_check c = None \<longleftrightarrow>
     0 < c_UpstreamTimeout c \<and> 0 < c_QueueTimeout c \<and> 0 < c_MaxBearerClients c \<and> 0 < c_MaxBucketStates c \<and>
     0 < c_MaxClientStates c \<and> 0 < c_MaxInFlightRequests c \<and> 0 < c_MaxQueueDepth c \<and> 0 \<le> c_MaxRetryBodyBytes c \<and>
     0 \<le> c_MaxRetryCaptureBytes c \<and> 0 \<le> c_InvalidRequestLimit c"
  by (auto simp: config_check_def)

lemma invalid_limit_pos: "config_check c = None \<Longrightarrow> 0 < invalid_limit c"
  by (auto simp: config_check_None invalid_limit_def InvalidRequestSafetyLimit_def)

lemma New_cases:
  assumes "New resolver inherited now c = Inr p"
  obtains overrides where "config_check c = None" "parseGlobalOverrides (c_GlobalOverrides c) = Inr overrides"
    "p_registry p = newRegistry (c_MaxBearerClients c) (c_MaxClientStates c) (c_MaxQueueDepth c) overrides (c_MaxBucketStates c) now"
    "p_invalidRequests p = newInvalidRequestGuard (invalid_limit c) invalidRequestWindow"
    "p_inFlight p = newResourceBudget (word_of_int (c_MaxInFlightRequests c))"
    "p_retryCapture p = newResourceBudget (word_of_int (c_MaxRetryCaptureBytes c))"
  using assms by (auto simp: New_def split: option.splits sum.splits if_splits)

lemma New_succeeds:
  assumes "config_check c = None" "c_OutboundIP c = []" "c_GlobalOverrides c = []"
  shows "\<exists>p. New resolver inherited now c = Inr p"
proof -
  have "TrimSpace [] = []" by code_simp
  thus ?thesis using assms by (simp add: New_def parseGlobalOverrides_def newHTTPTransport_def Let_def)
qed

definition limits_hold :: "proxyConfig \<Rightarrow> registry \<Rightarrow> guard_sys \<Rightarrow> budget_sys \<Rightarrow> capture_sys \<Rightarrow> bool" where
  \<comment> \<open>the resources in use at some moment are within what the configuration allows\<close>
  "limits_hold c g gs bs cs \<longleftrightarrow>
     int (length (bearers g)) \<le> c_MaxBearerClients c \<and>
     int (length (bots g)) + int (length (bearers g)) \<le> c_MaxClientStates c \<and>
     held_entries g \<le> c_MaxBucketStates c \<and>
     (\<forall>T. int (in_window invalidRequestWindow T (recorded gs)) \<le> invalid_limit c) \<and>
     (\<Sum>w \<leftarrow> workers bs. holding w) \<le> c_MaxInFlightRequests c \<and>
     sum_list (map replay_size (replays cs)) \<le> c_MaxRetryCaptureBytes c"


definition example_config :: proxyConfig where
  "example_config =
     \<lparr>c_OutboundIP = [], c_UpstreamTimeout = 5 * Second, c_QueueTimeout = Minute, c_DisableHTTP2 = True, c_Disable401Lock = False,
      c_EnableMetrics = True, c_GlobalOverrides = [], c_MaxBearerClients = 3, c_MaxBucketStates = 10, c_MaxClientStates = 4,
      c_MaxInFlightRequests = 5, c_MaxQueueDepth = 7, c_MaxRetryBodyBytes = 100, c_MaxRetryCaptureBytes = 50,
      c_InvalidRequestLimit = 0, c_hasTransport = False\<rparr>"

lemma example_New:
  obtains p where "New (\<lambda>_. None) (None :: string list option) 0 example_config = Inr p"
    "p_registry p = newRegistry 3 4 7 [] 10 0" "p_invalidRequests p = newInvalidRequestGuard 9500 invalidRequestWindow"
    "limit (p_inFlight p) = 5" "limit (p_retryCapture p) = 50"
proof -
  have "TrimSpace [] = []" by code_simp
  hence "\<exists>p. New (\<lambda>_. None) (None :: string list option) 0 example_config = Inr p \<and>
    p_registry p = newRegistry 3 4 7 [] 10 0 \<and> p_invalidRequests p = newInvalidRequestGuard 9500 invalidRequestWindow \<and>
    limit (p_inFlight p) = 5 \<and> limit (p_retryCapture p) = 50"
    by (simp add: New_def example_config_def config_check_def parseGlobalOverrides_def newHTTPTransport_def Let_def
        invalid_limit_def InvalidRequestSafetyLimit_def newResourceBudget_def time_defs)
  thus ?thesis using that by blast
qed


end
