(* ===== verification/Settings.thy ===== *)
theory Settings
  imports Construct Membership
begin

section \<open>Configuration from the environment\<close>

text \<open>
  \<^verbatim>\<open>config.go\<close>: the readers of single settings, \<^verbatim>\<open>loadConfig\<close> with every early return, and the loading of the
  cluster certificates. The environment is a function from names to values, empty when a variable is not set, as
  \<^verbatim>\<open>os.Getenv\<close> gives it. What reading files and the functions of \<^verbatim>\<open>crypto/x509\<close> and \<^verbatim>\<open>crypto/tls\<close> answer are the
  fields of a \<open>tls_env\<close>.
\<close>

type_synonym environment = "string \<Rightarrow> string"

datatype config_error =
  BadInt string int int | BadBool string | ShortClusterSecret | MissingTLSFile string | UnreadableCA |
  NoCACertificates | BadKeyPair | NoLeaf | UnparsableLeaf | UnparsableChain | CannotAuthenticate string

definition and_then :: "('e + 'a) \<Rightarrow> ('a \<Rightarrow> 'e + 'b) \<Rightarrow> 'e + 'b" where
  \<comment> \<open>\<^verbatim>\<open>if err != nil { return ..., err }\<close>\<close>
  "and_then r f = (case r of Inl e \<Rightarrow> Inl e | Inr x \<Rightarrow> f x)"

lemma and_then_Inr: "and_then r f = Inr y \<longleftrightarrow> (\<exists>x. r = Inr x \<and> f x = Inr y)"
  by (simp add: and_then_def split: sum.split)


subsection \<open>Single settings\<close>

definition maxConfiguredTimeout :: duration where "maxConfiguredTimeout = 24 * Hour"

definition Milliseconds :: "duration \<Rightarrow> int" where
  \<comment> \<open>\<^verbatim>\<open>time.Duration.Milliseconds\<close> of a duration that is not negative\<close>
  "Milliseconds d = d div Millisecond"

definition envString :: "environment \<Rightarrow> string \<Rightarrow> string \<Rightarrow> string" where
  "envString env name fallback = (if env name \<noteq> [] then env name else fallback)"

definition envBool :: "environment \<Rightarrow> string \<Rightarrow> bool \<Rightarrow> config_error + bool" where
  "envBool env name fallback =
     (if env name = [] then Inr fallback
      else case ParseBool (env name) of None \<Rightarrow> Inl (BadBool name) | Some b \<Rightarrow> Inr b)"

definition envInt64 :: "environment \<Rightarrow> string \<Rightarrow> int \<Rightarrow> int \<Rightarrow> int \<Rightarrow> config_error + int" where
  "envInt64 env name fallback minimum maximum =
     (if env name = [] then Inr fallback
      else case ParseInt (env name) 64 of
        None \<Rightarrow> Inl (BadInt name minimum maximum)
      | Some n \<Rightarrow> if n < minimum \<or> maximum < n then Inl (BadInt name minimum maximum) else Inr n)"

definition envInt :: "environment \<Rightarrow> string \<Rightarrow> int \<Rightarrow> int \<Rightarrow> int \<Rightarrow> config_error + int" where
  "envInt env name fallback minimum maximum = envInt64 env name fallback minimum maximum"

definition envDurationMilliseconds :: "environment \<Rightarrow> string \<Rightarrow> duration \<Rightarrow> config_error + duration" where
  "envDurationMilliseconds env name fallback =
     and_then (envInt64 env name (Milliseconds fallback) 1 (Milliseconds maxConfiguredTimeout)) (\<lambda>ms. Inr (ms * Millisecond))"

definition splitNonempty :: "string \<Rightarrow> string list" where
  "splitNonempty v = filter (\<lambda>s. s \<noteq> []) (map TrimSpace (Split CHR '','' v))"


subsection \<open>Cluster certificates\<close>

datatype keyUsage = ServerAuth | ClientAuth

record 'c tls_env =
  readFile :: "string \<Rightarrow> string option"
  appendCerts :: "string \<Rightarrow> bool"
  loadKeyPair :: "string \<Rightarrow> string \<Rightarrow> 'c tlsCertificate option"
  parseCertificate :: "string \<Rightarrow> 'c option"
  verifyChain :: "string \<Rightarrow> 'c list \<Rightarrow> keyUsage \<Rightarrow> 'c \<Rightarrow> bool"

record 'c serverTLS =
  sv_MinVersion :: nat
  sv_Certificates :: "'c tlsCertificate list"
  sv_requireClientCert :: bool
  sv_ClientCAs :: string

fun parse_chain :: "(string \<Rightarrow> 'c option) \<Rightarrow> string list \<Rightarrow> 'c list option" where
  "parse_chain prs [] = Some []"
| "parse_chain prs (raw # raws) =
     (case prs raw of
        None \<Rightarrow> None
      | Some c \<Rightarrow> (case parse_chain prs raws of None \<Rightarrow> None | Some cs \<Rightarrow> Some (c # cs)))"

definition verifyClusterCertificate ::
  "'c tls_env \<Rightarrow> 'c tlsCertificate \<Rightarrow> string \<Rightarrow> config_error + 'c tlsCertificate" where
  "verifyClusterCertificate te certificate roots =
     (case Certificate certificate of
        [] \<Rightarrow> Inl NoLeaf
      | raw # rest \<Rightarrow>
          (case parseCertificate te raw of
             None \<Rightarrow> Inl UnparsableLeaf
           | Some leaf \<Rightarrow>
               (case parse_chain (parseCertificate te) rest of
                  None \<Rightarrow> Inl UnparsableChain
                | Some intermediates \<Rightarrow>
                    if \<not> verifyChain te roots intermediates ServerAuth leaf then Inl (CannotAuthenticate ''server'')
                    else if \<not> verifyChain te roots intermediates ClientAuth leaf then Inl (CannotAuthenticate ''client'')
                    else Inr (certificate\<lparr>Leaf := Some leaf\<rparr>))))"

definition loadClusterTLS ::
  "'c tls_env \<Rightarrow> string \<Rightarrow> string \<Rightarrow> string \<Rightarrow> config_error + ('c serverTLS \<times> 'c tlsConfig)" where
  "loadClusterTLS te caFile certFile keyFile =
     (case find (\<lambda>(name, v). v = []) [(''CLUSTER_CA_FILE'', caFile), (''CLUSTER_CERT_FILE'', certFile), (''CLUSTER_KEY_FILE'', keyFile)] of
        Some (name, _) \<Rightarrow> Inl (MissingTLSFile name)
      | None \<Rightarrow>
          (case readFile te caFile of
             None \<Rightarrow> Inl UnreadableCA
           | Some caPEM \<Rightarrow>
               if \<not> appendCerts te caPEM then Inl NoCACertificates
               else case loadKeyPair te certFile keyFile of
                 None \<Rightarrow> Inl BadKeyPair
               | Some pair \<Rightarrow>
                   and_then (verifyClusterCertificate te pair caPEM) (\<lambda>certificate.
                     Inr (\<lparr>sv_MinVersion = VersionTLS13, sv_Certificates = [certificate], sv_requireClientCert = True,
                           sv_ClientCAs = caPEM\<rparr>,
                          \<lparr>InsecureSkipVerify = False, hasRootCAs = True, Certificates = [certificate],
                           hasGetClientCertificate = False, MinVersion = VersionTLS13, MaxVersion = 0\<rparr>))))"


subsection \<open>The whole configuration\<close>

record 'c appConfig =
  a_bindIP :: string
  a_port :: int
  a_metricsPort :: int
  a_pprofPort :: int
  a_enableMetrics :: bool
  a_enablePprof :: bool
  a_clusterPort :: int
  a_clusterPeerPort :: int
  a_clusterMaxNodes :: int
  a_clusterMembers :: "string list"
  a_clusterDNS :: string
  a_nodeName :: string
  a_clusterSecret :: string
  a_clusterServerTLS :: "'c serverTLS option"
  a_clusterClientTLS :: "'c tlsConfig option"
  a_proxy :: proxyConfig

definition clusteringEnabled :: "'c appConfig \<Rightarrow> bool" where
  "clusteringEnabled c \<longleftrightarrow> 0 < length (a_clusterMembers c) \<or> a_clusterDNS c \<noteq> []"

definition cluster_tls ::
  "'c tls_env \<Rightarrow> environment \<Rightarrow> bool \<Rightarrow> config_error + ('c serverTLS option \<times> 'c tlsConfig option)" where
  \<comment> \<open>the part of \<^verbatim>\<open>loadConfig\<close> under \<^verbatim>\<open>clusterEnabled\<close>\<close>
  "cluster_tls te env clusterEnabled =
     (if \<not> clusterEnabled then Inr (None, None)
      else if RuneCount (env ''CLUSTER_SECRET'') < 32 then Inl ShortClusterSecret
      else and_then (loadClusterTLS te (TrimSpace (env ''CLUSTER_CA_FILE'')) (TrimSpace (env ''CLUSTER_CERT_FILE''))
                       (TrimSpace (env ''CLUSTER_KEY_FILE''))) (\<lambda>(server, client). Inr (Some server, Some client)))"

definition invalid_share :: "bool \<Rightarrow> int \<Rightarrow> int" where
  "invalid_share clusterEnabled maxNodes =
     (if clusterEnabled then max 1 (InvalidRequestSafetyLimit div maxNodes) else InvalidRequestSafetyLimit)"

definition loadConfig :: "'c tls_env \<Rightarrow> environment \<Rightarrow> config_error + 'c appConfig" where
  "loadConfig te env =
     and_then (envDurationMilliseconds env ''REQUEST_TIMEOUT'' (5 * Second)) (\<lambda>requestTimeout.
     and_then (envDurationMilliseconds env ''QUEUE_TIMEOUT'' Minute) (\<lambda>queueTimeout.
     and_then (envInt env ''PORT'' 8080 1 65535) (\<lambda>port.
     and_then (envInt env ''METRICS_PORT'' 9000 1 65535) (\<lambda>metricsPort.
     and_then (envInt env ''PPROF_PORT'' 7654 1 65535) (\<lambda>pprofPort.
     and_then (envInt env ''CLUSTER_PORT'' 7946 1 65535) (\<lambda>clusterPort.
     and_then (envInt env ''CLUSTER_PEER_PORT'' 8443 1 65535) (\<lambda>clusterPeerPort.
     and_then (envInt env ''CLUSTER_MAX_NODES'' 32 1 InvalidRequestSafetyLimit) (\<lambda>maxNodes.
     and_then (envInt env ''MAX_BEARER_COUNT'' 1024 1 1000000) (\<lambda>maxBearerClients.
     and_then (envInt env ''MAX_CLIENT_STATES'' 4096 1 1000000) (\<lambda>maxClientStates.
     and_then (envInt env ''MAX_IN_FLIGHT_REQUESTS'' 4096 1 1000000) (\<lambda>maxInFlightRequests.
     and_then (envInt env ''MAX_BUCKET_STATES'' 65536 1 10000000) (\<lambda>maxBucketStates.
     and_then (envInt env ''MAX_QUEUE_DEPTH'' 1000 1 1000000) (\<lambda>maxQueueDepth.
     and_then (envInt64 env ''MAX_RETRY_CAPTURE_BYTES'' 268435456 0 1099511627776) (\<lambda>maxRetryCaptureBytes.
     and_then (envInt64 env ''MAX_RETRY_BODY_BYTES'' 26214400 0 1073741824) (\<lambda>maxRetryBodyBytes.
     and_then (envBool env ''ENABLE_METRICS'' True) (\<lambda>enableMetrics.
     and_then (envBool env ''ENABLE_PPROF'' False) (\<lambda>enablePprof.
     and_then (envBool env ''DISABLE_HTTP_2'' True) (\<lambda>disableHTTP2.
     and_then (envBool env ''DISABLE_401_LOCK'' False) (\<lambda>disable401Lock.
       let clusterMembers = splitNonempty (env ''CLUSTER_MEMBERS'');
           clusterDNS = TrimSpace (env ''CLUSTER_DNS'');
           clusterEnabled = (0 < length clusterMembers \<or> clusterDNS \<noteq> [])
       in and_then (cluster_tls te env clusterEnabled) (\<lambda>(serverTLS, clientTLS).
            Inr \<lparr>a_bindIP = envString env ''BIND_IP'' ''0.0.0.0'', a_port = port, a_metricsPort = metricsPort,
                 a_pprofPort = pprofPort, a_enableMetrics = enableMetrics, a_enablePprof = enablePprof,
                 a_clusterPort = clusterPort, a_clusterPeerPort = clusterPeerPort, a_clusterMaxNodes = maxNodes,
                 a_clusterMembers = clusterMembers, a_clusterDNS = clusterDNS, a_nodeName = TrimSpace (env ''NODE_NAME''),
                 a_clusterSecret = env ''CLUSTER_SECRET'', a_clusterServerTLS = serverTLS, a_clusterClientTLS = clientTLS,
                 a_proxy =
                   \<lparr>c_OutboundIP = TrimSpace (env ''OUTBOUND_IP''), c_UpstreamTimeout = requestTimeout,
                    c_QueueTimeout = queueTimeout, c_DisableHTTP2 = disableHTTP2, c_Disable401Lock = disable401Lock,
                    c_EnableMetrics = enableMetrics, c_GlobalOverrides = TrimSpace (env ''BOT_RATELIMIT_OVERRIDES''),
                    c_MaxBearerClients = maxBearerClients, c_MaxBucketStates = maxBucketStates,
                    c_MaxClientStates = maxClientStates, c_MaxInFlightRequests = maxInFlightRequests,
                    c_MaxQueueDepth = maxQueueDepth, c_MaxRetryBodyBytes = maxRetryBodyBytes,
                    c_MaxRetryCaptureBytes = maxRetryCaptureBytes,
                    c_InvalidRequestLimit = invalid_share clusterEnabled maxNodes, c_hasTransport = False\<rparr>\<rparr>))))))))))))))))))))"


subsection \<open>What a loaded configuration satisfies\<close>

lemma envInt64_range:
  assumes "envInt64 env name fallback lo hi = Inr n" "lo \<le> fallback" "fallback \<le> hi"
  shows "lo \<le> n \<and> n \<le> hi"
  using assms by (auto simp: envInt64_def split: if_splits option.splits)

lemma envInt_range:
  assumes "envInt env name fallback lo hi = Inr n" "lo \<le> fallback" "fallback \<le> hi"
  shows "lo \<le> n \<and> n \<le> hi"
  using assms envInt64_range by (simp add: envInt_def)

lemma envDuration_range:
  assumes "envDurationMilliseconds env name fallback = Inr d" "Millisecond \<le> fallback" "fallback \<le> maxConfiguredTimeout"
  shows "Millisecond \<le> d \<and> d \<le> maxConfiguredTimeout"
proof -
  have f: "1 \<le> Milliseconds fallback" "Milliseconds fallback \<le> Milliseconds maxConfiguredTimeout"
    using assms(2,3) by (simp_all add: Milliseconds_def Millisecond_def zdiv_mono1)
  obtain ms where ms: "envInt64 env name (Milliseconds fallback) 1 (Milliseconds maxConfiguredTimeout) = Inr ms"
    "d = ms * Millisecond" using assms(1) by (auto simp: envDurationMilliseconds_def and_then_Inr)
  have "1 \<le> ms \<and> ms \<le> Milliseconds maxConfiguredTimeout" by (rule envInt64_range [OF ms(1) f])
  moreover have "Milliseconds maxConfiguredTimeout * Millisecond = maxConfiguredTimeout"
    by (simp add: Milliseconds_def maxConfiguredTimeout_def time_defs)
  ultimately show ?thesis using ms(2) by (simp add: Millisecond_def)
qed

definition ports_ok :: "'c appConfig \<Rightarrow> bool" where
  "ports_ok a \<longleftrightarrow> list_all (\<lambda>n. 1 \<le> n \<and> n \<le> 65535)
     [a_port a, a_metricsPort a, a_pprofPort a, a_clusterPort a, a_clusterPeerPort a]"

definition timeouts_ok :: "proxyConfig \<Rightarrow> bool" where
  "timeouts_ok c \<longleftrightarrow> list_all (\<lambda>d. 0 < d \<and> d \<le> maxConfiguredTimeout) [c_UpstreamTimeout c, c_QueueTimeout c]"

lemma invalid_share_range: "1 \<le> n \<Longrightarrow> 1 \<le> invalid_share b n \<and> invalid_share b n \<le> InvalidRequestSafetyLimit"
  using div_by_1 zdiv_mono2 [of InvalidRequestSafetyLimit 1 n] by (auto simp: invalid_share_def InvalidRequestSafetyLimit_def)

lemma and_thenE:
  assumes "and_then r f = Inr y"
  obtains x where "r = Inr x" "f x = Inr y"
  using assms by (auto simp: and_then_Inr)

lemma loadConfig_fields:
  assumes "loadConfig te env = Inr a"
  shows "envDurationMilliseconds env ''REQUEST_TIMEOUT'' (5 * Second) = Inr (c_UpstreamTimeout (a_proxy a)) \<and>
    envDurationMilliseconds env ''QUEUE_TIMEOUT'' Minute = Inr (c_QueueTimeout (a_proxy a)) \<and>
    envInt env ''PORT'' 8080 1 65535 = Inr (a_port a) \<and>
    envInt env ''METRICS_PORT'' 9000 1 65535 = Inr (a_metricsPort a) \<and>
    envInt env ''PPROF_PORT'' 7654 1 65535 = Inr (a_pprofPort a) \<and>
    envInt env ''CLUSTER_PORT'' 7946 1 65535 = Inr (a_clusterPort a) \<and>
    envInt env ''CLUSTER_PEER_PORT'' 8443 1 65535 = Inr (a_clusterPeerPort a) \<and>
    envInt env ''CLUSTER_MAX_NODES'' 32 1 InvalidRequestSafetyLimit = Inr (a_clusterMaxNodes a) \<and>
    envInt env ''MAX_BEARER_COUNT'' 1024 1 1000000 = Inr (c_MaxBearerClients (a_proxy a)) \<and>
    envInt env ''MAX_CLIENT_STATES'' 4096 1 1000000 = Inr (c_MaxClientStates (a_proxy a)) \<and>
    envInt env ''MAX_IN_FLIGHT_REQUESTS'' 4096 1 1000000 = Inr (c_MaxInFlightRequests (a_proxy a)) \<and>
    envInt env ''MAX_BUCKET_STATES'' 65536 1 10000000 = Inr (c_MaxBucketStates (a_proxy a)) \<and>
    envInt env ''MAX_QUEUE_DEPTH'' 1000 1 1000000 = Inr (c_MaxQueueDepth (a_proxy a)) \<and>
    envInt64 env ''MAX_RETRY_CAPTURE_BYTES'' 268435456 0 1099511627776 = Inr (c_MaxRetryCaptureBytes (a_proxy a)) \<and>
    envInt64 env ''MAX_RETRY_BODY_BYTES'' 26214400 0 1073741824 = Inr (c_MaxRetryBodyBytes (a_proxy a)) \<and>
    cluster_tls te env (clusteringEnabled a) = Inr (a_clusterServerTLS a, a_clusterClientTLS a) \<and>
    c_InvalidRequestLimit (a_proxy a) = invalid_share (clusteringEnabled a) (a_clusterMaxNodes a) \<and>
    a_clusterSecret a = env ''CLUSTER_SECRET''"
  using assms unfolding loadConfig_def
  by (elim and_thenE) (auto simp: Let_def clusteringEnabled_def elim!: and_thenE)

lemma loadConfig_numbers:
  assumes "loadConfig te env = Inr a"
  shows "ports_ok a" "timeouts_ok (a_proxy a)" "config_check (a_proxy a) = None" "fits_int64 (a_proxy a)"
    "1 \<le> a_clusterMaxNodes a \<and> a_clusterMaxNodes a \<le> InvalidRequestSafetyLimit"
proof -
  note f = loadConfig_fields [OF assms]
  have d: "Millisecond \<le> 5 * Second" "5 * Second \<le> maxConfiguredTimeout" "Millisecond \<le> Minute" "Minute \<le> maxConfiguredTimeout"
    "0 < Millisecond"
    by (simp_all add: maxConfiguredTimeout_def time_defs)
  show n: "1 \<le> a_clusterMaxNodes a \<and> a_clusterMaxNodes a \<le> InvalidRequestSafetyLimit"
    using f by (intro envInt_range) (auto simp: InvalidRequestSafetyLimit_def)
  have r: "1 \<le> c_InvalidRequestLimit (a_proxy a)" "c_InvalidRequestLimit (a_proxy a) \<le> 9500"
    using f n invalid_share_range [of "a_clusterMaxNodes a" "clusteringEnabled a"] by (auto simp: InvalidRequestSafetyLimit_def)
  have t: "Millisecond \<le> c_UpstreamTimeout (a_proxy a) \<and> c_UpstreamTimeout (a_proxy a) \<le> maxConfiguredTimeout"
    "Millisecond \<le> c_QueueTimeout (a_proxy a) \<and> c_QueueTimeout (a_proxy a) \<le> maxConfiguredTimeout"
    using f d envDuration_range by blast+
  have "1 \<le> a_port a \<and> a_port a \<le> 65535" by (rule envInt_range [of env "''PORT''" 8080]) (use f in simp_all)
  moreover have "1 \<le> a_metricsPort a \<and> a_metricsPort a \<le> 65535"
    by (rule envInt_range [of env "''METRICS_PORT''" 9000]) (use f in simp_all)
  moreover have "1 \<le> a_pprofPort a \<and> a_pprofPort a \<le> 65535"
    by (rule envInt_range [of env "''PPROF_PORT''" 7654]) (use f in simp_all)
  moreover have "1 \<le> a_clusterPort a \<and> a_clusterPort a \<le> 65535"
    by (rule envInt_range [of env "''CLUSTER_PORT''" 7946]) (use f in simp_all)
  moreover have "1 \<le> a_clusterPeerPort a \<and> a_clusterPeerPort a \<le> 65535"
    by (rule envInt_range [of env "''CLUSTER_PEER_PORT''" 8443]) (use f in simp_all)
  ultimately show "ports_ok a" by (simp add: ports_ok_def)
  show "timeouts_ok (a_proxy a)" using t d by (auto simp: timeouts_ok_def)
  have m: "1 \<le> c_MaxBearerClients (a_proxy a) \<and> c_MaxBearerClients (a_proxy a) \<le> 1000000"
    "1 \<le> c_MaxClientStates (a_proxy a) \<and> c_MaxClientStates (a_proxy a) \<le> 1000000"
    "1 \<le> c_MaxInFlightRequests (a_proxy a) \<and> c_MaxInFlightRequests (a_proxy a) \<le> 1000000"
    "1 \<le> c_MaxBucketStates (a_proxy a) \<and> c_MaxBucketStates (a_proxy a) \<le> 10000000"
    "1 \<le> c_MaxQueueDepth (a_proxy a) \<and> c_MaxQueueDepth (a_proxy a) \<le> 1000000"
    "0 \<le> c_MaxRetryCaptureBytes (a_proxy a) \<and> c_MaxRetryCaptureBytes (a_proxy a) \<le> 1099511627776"
    "0 \<le> c_MaxRetryBodyBytes (a_proxy a) \<and> c_MaxRetryBodyBytes (a_proxy a) \<le> 1073741824"
    by (rule envInt_range [of env "''MAX_BEARER_COUNT''" 1024], use f in simp_all)
      (rule envInt_range [of env "''MAX_CLIENT_STATES''" 4096], use f in simp_all,
       rule envInt_range [of env "''MAX_IN_FLIGHT_REQUESTS''" 4096], use f in simp_all,
       rule envInt_range [of env "''MAX_BUCKET_STATES''" 65536], use f in simp_all,
       rule envInt_range [of env "''MAX_QUEUE_DEPTH''" 1000], use f in simp_all,
       rule envInt64_range [of env "''MAX_RETRY_CAPTURE_BYTES''" 268435456], use f in simp_all,
       rule envInt64_range [of env "''MAX_RETRY_BODY_BYTES''" 26214400], use f in simp_all)
  show "config_check (a_proxy a) = None" using m r t d(5) by (simp add: config_check_None)
  show "fits_int64 (a_proxy a)" using m r by (simp add: fits_int64_def)
qed


subsection \<open>What loaded certificates satisfy\<close>

lemma loadClusterTLS_verified:
  assumes "loadClusterTLS te caFile certFile keyFile = Inr (server, peer)"
  obtains cert leaf caPEM rest where "Certificates peer = [cert]" "sv_Certificates server = [cert]" "Leaf cert = Some leaf"
    "sv_requireClientCert server" "sv_ClientCAs server = caPEM" "sv_MinVersion server = VersionTLS13"
    "\<And>u. verifyChain te caPEM rest u leaf" "newPeerHTTPTransport (Some peer) = Inr (peer_settings peer)"
proof -
  obtain caPEM pair cert where l: "loadKeyPair te certFile keyFile = Some pair"
    "verifyClusterCertificate te pair caPEM = Inr cert"
    "server = \<lparr>sv_MinVersion = VersionTLS13, sv_Certificates = [cert], sv_requireClientCert = True, sv_ClientCAs = caPEM\<rparr>"
    "peer = \<lparr>InsecureSkipVerify = False, hasRootCAs = True, Certificates = [cert], hasGetClientCertificate = False,
      MinVersion = VersionTLS13, MaxVersion = 0\<rparr>"
    using assms by (auto simp: loadClusterTLS_def split: option.splits if_splits elim!: and_thenE)
  obtain leaf rest where c: "cert = pair\<lparr>Leaf := Some leaf\<rparr>" "verifyChain te caPEM rest ServerAuth leaf"
    "verifyChain te caPEM rest ClientAuth leaf"
    using l(2) by (auto simp: verifyClusterCertificate_def split: list.splits option.splits if_splits)
  have "verifyChain te caPEM rest u leaf" for u using c by (cases u) auto
  thus ?thesis using that [of cert leaf caPEM rest] l c(1) by (simp add: newPeerHTTPTransport_def)
qed

lemma envInt64_round_trip:
  assumes "env name = Itoa n" "lo \<le> n" "n \<le> hi" "- (2 ^ 63) \<le> n" "n < 2 ^ 63"
  shows "envInt64 env name fallback lo hi = Inr n"
  using assms ParseInt_Itoa [OF assms(4,5)] by (simp add: envInt64_def Itoa_def)

lemma splitNonempty_Join:
  assumes "\<And>m. m \<in> set ms \<Longrightarrow> m \<noteq> [] \<and> TrimSpace m = m \<and> CHR '','' \<notin> set m"
  shows "splitNonempty (Join CHR '','' ms) = ms"
proof (cases "ms = []")
  case True
  have "TrimSpace [] = []" by code_simp
  thus ?thesis using True by (simp add: splitNonempty_def)
next
  case False
  hence "Split CHR '','' (Join CHR '','' ms) = ms" using assms by (intro Split_Join) auto
  moreover have "map TrimSpace ms = ms" using assms by (simp add: map_idI)
  ultimately show ?thesis using assms by (simp add: splitNonempty_def)
qed

end
