(* ===== verification/Go_Proxy.thy ===== *)
theory Go_Proxy
  imports Go_Http
begin

section \<open>The reverse proxy of the Go standard library\<close>

text \<open>
  What \<^verbatim>\<open>httputil.ReverseProxy\<close> does to the headers of a request before and after it calls \<^verbatim>\<open>Rewrite\<close>, and to its
  address in \<^verbatim>\<open>SetURL\<close> for a target without a path.
\<close>

definition hopHeaders :: "string list" where
  "hopHeaders = [''Connection'', ''Proxy-Connection'', ''Keep-Alive'', ''Proxy-Authenticate'', ''Proxy-Authorization'', ''Te'',
     ''Trailer'', ''Transfer-Encoding'', ''Upgrade'']"

definition forwardingHeaders :: "string list" where
  "forwardingHeaders = [''Forwarded'', ''X-Forwarded-For'', ''X-Forwarded-Host'', ''X-Forwarded-Proto'']"

definition ascii_space :: "char \<Rightarrow> bool" where
  "ascii_space c \<longleftrightarrow> (of_char c :: nat) \<in> {9, 10, 13, 32}"

definition TrimString :: "string \<Rightarrow> string" where
  \<comment> \<open>of \<^verbatim>\<open>net/textproto\<close>\<close>
  "TrimString s = rev (dropWhile ascii_space (rev (dropWhile ascii_space s)))"

definition connection_tokens :: "header \<Rightarrow> string list" where
  "connection_tokens h = filter (\<lambda>t. t \<noteq> []) (map TrimString (concat (map (Split CHR '','') (header_Values h ''Connection''))))"

definition removeHopByHopHeaders :: "header \<Rightarrow> header" where
  "removeHopByHopHeaders h = foldl header_Del h (connection_tokens h @ hopHeaders)"

definition trimOWS :: "string \<Rightarrow> string" where
  \<comment> \<open>of \<^verbatim>\<open>httpguts\<close>: blanks and tabs\<close>
  "trimOWS s = (let ws = (\<lambda>c. (of_char c :: nat) \<in> {9, 32}) in rev (dropWhile ws (rev (dropWhile ws s))))"

definition contains_token :: "string list \<Rightarrow> string \<Rightarrow> bool" where
  \<comment> \<open>\<^verbatim>\<open>httpguts.HeaderValuesContainsToken\<close>\<close>
  "contains_token vs token \<longleftrightarrow>
     list_ex (\<lambda>v. list_ex (\<lambda>t. ToLower (trimOWS t) = ToLower token) (Split CHR '','' v)) vs"

definition before_Rewrite :: "header \<Rightarrow> header" where
  "before_Rewrite h =
     (let up = (if contains_token (header_Values h ''Connection'') ''Upgrade'' then header_Get h ''Upgrade'' else []);
          h1 = removeHopByHopHeaders h;
          h2 = (if contains_token (header_Values h ''Te'') ''trailers'' then header_Set h1 ''Te'' ''trailers'' else h1);
          h3 = (if up \<noteq> [] then header_Set (header_Set h2 ''Connection'' ''Upgrade'') ''Upgrade'' up else h2)
      in foldl header_Del h3 forwardingHeaders)"

definition after_Rewrite :: "header \<Rightarrow> header" where
  "after_Rewrite h = (if map_of h ''User-Agent'' = None then header_Set h ''User-Agent'' [] else h)"

definition SetURL_path :: "string \<Rightarrow> string" where
  "SetURL_path p = (if HasPrefix p ''/'' then p else CHR ''/'' # p)"

definition canonical :: "string \<Rightarrow> bool" where
  "canonical k \<longleftrightarrow> CanonicalHeaderKey k = k"

lemma map_of_Dels:
  "map_of (foldl header_Del h ks) k = (if k \<in> CanonicalHeaderKey ` set ks then None else map_of h k)"
  by (induction ks arbitrary: h) (auto simp: header_Del_def)

lemma map_of_Set: "map_of (header_Set h k v) k' = (if k' = CanonicalHeaderKey k then Some [v] else map_of h k')"
  by (simp add: header_Set_def update_conv')

lemma canonical_names:
  "map CanonicalHeaderKey hopHeaders = hopHeaders" "map CanonicalHeaderKey forwardingHeaders = forwardingHeaders"
  "CanonicalHeaderKey ''User-Agent'' = ''User-Agent''" "CanonicalHeaderKey ''Te'' = ''Te''"
  "CanonicalHeaderKey ''Upgrade'' = ''Upgrade''" "CanonicalHeaderKey ''Connection'' = ''Connection''"
  "CanonicalHeaderKey ''X-Nirn-Hop'' = ''X-Nirn-Hop''" "CanonicalHeaderKey ''Authorization'' = ''Authorization''"
  by code_simp+

definition dropped :: "header \<Rightarrow> string set" where
  \<comment> \<open>the names that do not pass a hop\<close>
  "dropped h = CanonicalHeaderKey ` set (connection_tokens h) \<union> set hopHeaders"

lemma map_of_before_Rewrite:
  assumes "header_Get h ''Upgrade'' = []"
  shows "map_of (before_Rewrite h) k =
    (if k \<in> set forwardingHeaders then None
     else if k = ''Te'' \<and> contains_token (header_Values h ''Te'') ''trailers'' then Some [''trailers'']
     else if k \<in> dropped h then None else map_of h k)"
proof -
  have c: "CanonicalHeaderKey ` set hopHeaders = set hopHeaders" "CanonicalHeaderKey ` set forwardingHeaders = set forwardingHeaders"
    using canonical_names(1,2) by (metis list.set_map)+
  show ?thesis
    using assms by (simp add: before_Rewrite_def Let_def map_of_Dels map_of_Set removeHopByHopHeaders_def dropped_def
        image_Un c canonical_names(4))
qed

end
