(* ===== verification/Forward.thy ===== *)
theory Forward
  imports Go_Proxy Reply
begin

section \<open>Forwarding requests\<close>

text \<open>
  The \<^verbatim>\<open>Rewrite\<close> functions that \<^verbatim>\<open>initReverseProxies\<close> of \<^verbatim>\<open>internal/proxy/transport.go\<close> gives to its two reverse proxies,
  \<^verbatim>\<open>preserveForwardingHeaders\<close>, and the transport to cluster peers: \<^verbatim>\<open>timeoutTransport\<close>, \<^verbatim>\<open>cleanupBody\<close> and
  \<^verbatim>\<open>clusterPeerRoundTripper\<close>. Query strings, which the library passes on, are left out.
\<close>

subsection \<open>Rewriting\<close>

record http_request =
  rq_method :: string
  rq_path :: string
  rq_header :: header

record outbound =
  o_scheme :: string
  o_host :: string
  o_request :: http_request

definition userAgent :: string where
  "userAgent = ''DiscordBot (https://github.com/Melonly-Moderation/nirn-proxy, dev)''"

definition preserveForwardingHeaders :: "header \<Rightarrow> header \<Rightarrow> header" where
  \<comment> \<open>of the incoming and the outgoing request\<close>
  "preserveForwardingHeaders inh out =
     (let out1 = foldl (\<lambda>o' name. case map_of inh name of Some vs \<Rightarrow> AList.update name vs o' | None \<Rightarrow> o') out
                   [''Forwarded'', ''X-Forwarded-For'', ''X-Forwarded-Host'', ''X-Forwarded-Proto'']
      in if header_Get inh ''User-Agent'' = [] then header_Set out1 ''User-Agent'' userAgent else out1)"

definition rewritten :: "string \<Rightarrow> (header \<Rightarrow> header) \<Rightarrow> http_request \<Rightarrow> outbound" where
  \<comment> \<open>the request that leaves a reverse proxy: \<^verbatim>\<open>SetURL\<close>, and \<open>f\<close> on the headers\<close>
  "rewritten host f rq =
     \<lparr>o_scheme = ''https'', o_host = host,
      o_request = rq\<lparr>rq_path := SetURL_path (rq_path rq), rq_header := after_Rewrite (f (before_Rewrite (rq_header rq)))\<rparr>\<rparr>"

definition discord_Rewrite :: "http_request \<Rightarrow> outbound" where
  "discord_Rewrite rq = rewritten ''discord.com'' (preserveForwardingHeaders (rq_header rq)) rq"

definition peer_Rewrite :: "string \<Rightarrow> int \<Rightarrow> http_request \<Rightarrow> outbound" where
  "peer_Rewrite address hop rq =
     rewritten address (\<lambda>out. header_Set (preserveForwardingHeaders (rq_header rq) out) ''X-Nirn-Hop'' (Itoa hop)) rq"


subsection \<open>The transport to peers\<close>

datatype peer_event = PeerContext time | PeerCancel | PeerCloseBody | RoutedSent | RoutedError | PeerFailed failure

record cleanupBody =
  once_done :: bool

definition cleanupBody_Close :: "cleanupBody \<Rightarrow> peer_event list \<times> cleanupBody" where
  \<comment> \<open>\<^verbatim>\<open>cleanup\<close> is the cancellation of the context\<close>
  "cleanupBody_Close b =
     ((if once_done b then [] else [PeerCancel]) @ [PeerCloseBody], b\<lparr>once_done := True\<rparr>)"

datatype peer_answer = PeerError error bool | PeerNothing | PeerAnswer nat header

record timeoutTransport =
  base :: "http_request \<Rightarrow> peer_answer"
  timeout :: duration

definition timeoutTransport_RoundTrip ::
  "timeoutTransport \<Rightarrow> time \<Rightarrow> http_request \<Rightarrow> peer_event list \<times> (error + nat \<times> header \<times> cleanupBody)" where
  \<comment> \<open>an error may come with a response that has a body\<close>
  "timeoutTransport_RoundTrip t now rq =
     (case base t rq of
        PeerError e hasBody \<Rightarrow> ([PeerContext (now + timeout t), PeerCancel] @ (if hasBody then [PeerCloseBody] else []), Inl e)
      | PeerNothing \<Rightarrow> ([PeerContext (now + timeout t), PeerCancel], Inl (''upstream transport returned no response'', []))
      | PeerAnswer status h \<Rightarrow> ([PeerContext (now + timeout t)], Inr (status, h, \<lparr>once_done = False\<rparr>)))"

definition clusterPeerRoundTripper_RoundTrip :: "(http_request \<Rightarrow> peer_answer) option \<Rightarrow> http_request \<Rightarrow> peer_answer" where
  \<comment> \<open>the peer transport, if one is set\<close>
  "clusterPeerRoundTripper_RoundTrip transport rq =
     (case transport of
        None \<Rightarrow> PeerError (''cluster peer transport is not configured'', []) False
      | Some send \<Rightarrow> send rq)"

fun close_body :: "nat \<Rightarrow> cleanupBody \<Rightarrow> peer_event list" where
  \<comment> \<open>the body is closed \<open>n\<close> times\<close>
  "close_body 0 b = []"
| "close_body (Suc n) b = (case cleanupBody_Close b of (evs, b') \<Rightarrow> evs @ close_body n b')"

lemma close_body_cancels: "count_list (close_body n b) PeerCancel = (if once_done b \<or> n = 0 then 0 else 1)"
proof (induction n arbitrary: b)
  case (Suc n)
  show ?case using Suc [of "b\<lparr>once_done := True\<rparr>"] by (auto simp: cleanupBody_Close_def)
qed simp

lemma close_body_events: "set (close_body n b) \<subseteq> {PeerCancel, PeerCloseBody}"
  by (induction n arbitrary: b) (auto simp: cleanupBody_Close_def)

definition peer_ModifyResponse :: "bool \<Rightarrow> peer_event list" where
  \<comment> \<open>it returns no error\<close>
  "peer_ModifyResponse enableMetrics = (if enableMetrics then [RoutedSent] else [])"

definition peerProxy_transport :: "duration \<Rightarrow> duration \<Rightarrow> (http_request \<Rightarrow> peer_answer) option \<Rightarrow> timeoutTransport" where
  "peerProxy_transport queueTimeout upstreamTimeout transport =
     \<lparr>base = clusterPeerRoundTripper_RoundTrip transport, timeout = queueTimeout + upstreamTimeout\<rparr>"

definition peerProxy_ServeHTTP ::
  "timeoutTransport \<Rightarrow> bool \<Rightarrow> time \<Rightarrow> http_request \<Rightarrow> nat \<Rightarrow> peer_event list \<times> (reply option + nat \<times> header)" where
  \<comment> \<open>what \<^verbatim>\<open>ReverseProxy\<close> does with the functions it was given, once the request is rewritten; it closes the body \<open>closes\<close> times\<close>
  "peerProxy_ServeHTTP t enableMetrics now rq closes =
     (case timeoutTransport_RoundTrip t now rq of
        (evs, Inl e) \<Rightarrow>
          (case peer_ErrorHandler enableMetrics [] of (counted, f, r) \<Rightarrow>
             (evs @ (if counted then [RoutedError] else []) @ map PeerFailed (case f of None \<Rightarrow> [] | Some x \<Rightarrow> [x]), Inl r))
      | (evs, Inr (status, h, b)) \<Rightarrow> (evs @ peer_ModifyResponse enableMetrics @ close_body closes b, Inr (status, h)))"




subsection \<open>What is forwarded\<close>

lemma forwarding_distinct: "distinct forwardingHeaders" "''User-Agent'' \<notin> set forwardingHeaders"
  "''X-Nirn-Hop'' \<notin> set forwardingHeaders" "''Authorization'' \<notin> set forwardingHeaders" "''Te'' \<notin> set forwardingHeaders"
  by (simp_all add: forwardingHeaders_def)

lemma map_of_preserve:
  "map_of (preserveForwardingHeaders inh out) k =
     (if k = ''User-Agent'' \<and> header_Get inh ''User-Agent'' = [] then Some [userAgent]
      else if k \<in> set forwardingHeaders \<and> map_of inh k \<noteq> None then map_of inh k else map_of out k)"
proof -
  have "map_of (foldl (\<lambda>o' name. case map_of inh name of Some vs \<Rightarrow> AList.update name vs o' | None \<Rightarrow> o') out names) k =
    (if k \<in> set names \<and> map_of inh k \<noteq> None then map_of inh k else map_of out k)" for names
    by (induction names arbitrary: out) (auto simp: update_conv' split: option.split)
  thus ?thesis
    by (auto simp: preserveForwardingHeaders_def Let_def map_of_Set canonical_names forwardingHeaders_def [symmetric])
qed

lemma map_of_forwarded:
  assumes "header_Get h ''Upgrade'' = []" "k \<noteq> ''Te''" "k \<noteq> ''User-Agent''"
  shows "map_of (preserveForwardingHeaders h (before_Rewrite h)) k =
    (if k \<in> set forwardingHeaders then map_of h k else if k \<in> dropped h then None else map_of h k)"
  using assms by (auto simp: map_of_preserve map_of_before_Rewrite)

lemma map_of_after: "k \<noteq> ''User-Agent'' \<Longrightarrow> map_of (after_Rewrite h) k = map_of h k"
  by (simp add: after_Rewrite_def map_of_Set canonical_names)

text \<open>
  C33. What Discord sees of the headers of a request. The addresses of the client and of proxies in front pass unchanged;
  headers that concern one connection only do not pass; a request without a user agent gets the one of the proxy; all other
  headers pass as they came. And the request goes to \<open>https://discord.com\<close> whatever host it named.
\<close>

theorem discord_request:
  assumes "header_Get h ''Upgrade'' = []" "k \<noteq> ''Te''" "k = ''User-Agent'' \<Longrightarrow> k \<notin> dropped h"
    and "rq_header rq = h"
  shows "o_scheme (discord_Rewrite rq) = ''https'' \<and> o_host (discord_Rewrite rq) = ''discord.com'' \<and>
    rq_method (o_request (discord_Rewrite rq)) = rq_method rq \<and>
    map_of (rq_header (o_request (discord_Rewrite rq))) k =
      (if k = ''User-Agent'' \<and> header_Get h ''User-Agent'' = [] then Some [userAgent]
       else if k \<in> set forwardingHeaders then map_of h k
       else if k \<in> dropped h then None else map_of h k)"
proof (cases "k = ''User-Agent''")
  case False
  thus ?thesis using assms by (simp add: discord_Rewrite_def rewritten_def map_of_after map_of_forwarded)
next
  case True
  have "map_of (preserveForwardingHeaders h (before_Rewrite h)) ''User-Agent'' =
    (if header_Get h ''User-Agent'' = [] then Some [userAgent] else map_of h ''User-Agent'')"
    using assms(1,3) True by (simp add: map_of_preserve map_of_before_Rewrite forwarding_distinct)
  moreover have "map_of h ''User-Agent'' \<noteq> None" if "header_Get h ''User-Agent'' \<noteq> []"
    using that by (auto simp: header_Get_def header_Values_def canonical_names split: option.splits)
  ultimately show ?thesis
    using assms True by (auto simp: discord_Rewrite_def rewritten_def after_Rewrite_def forwarding_distinct)
qed

theorem discord_request_witness:
  "let h = [(''Connection'', [''x-debug, close'']), (''X-Debug'', [''1'']), (''X-Forwarded-For'', [''10.0.0.1''])];
       rq = \<lparr>rq_method = ''GET'', rq_path = ''/api/v10/users/@me'', rq_header = h\<rparr>
   in map_of (rq_header (o_request (discord_Rewrite rq))) ''X-Debug'' = None \<and>
      map_of (rq_header (o_request (discord_Rewrite rq))) ''X-Forwarded-For'' = Some [''10.0.0.1''] \<and>
      map_of (rq_header (o_request (discord_Rewrite rq))) ''User-Agent'' = Some [userAgent]"
proof -
  let ?h = "[(''Connection'', [''x-debug, close'']), (''X-Debug'', [''1'']), (''X-Forwarded-For'', [''10.0.0.1''])]"
  let ?rq = "\<lparr>rq_method = ''GET'', rq_path = ''/api/v10/users/@me'', rq_header = ?h\<rparr>"
  have u: "header_Get ?h ''Upgrade'' = []" "header_Get ?h ''User-Agent'' = []" by code_simp+
  have d: "''User-Agent'' \<notin> dropped ?h" "''X-Debug'' \<in> dropped ?h" by code_simp+
  show ?thesis
    using discord_request [OF u(1), of "''X-Debug''" ?rq] discord_request [OF u(1), of "''X-Forwarded-For''" ?rq]
      discord_request [OF u(1), of "''User-Agent''" ?rq] u(2) d
    by (simp add: Let_def forwardingHeaders_def)
qed

end
