(* ===== verification/Server.thy ===== *)
theory Server
  imports Forward Construct Observability Cluster
begin

section \<open>The HTTP front\<close>

text \<open>
  \<^verbatim>\<open>ServeHTTP\<close> of \<^verbatim>\<open>internal/proxy/proxy.go\<close> with its helpers: one request from its arrival to the reply, to the peer
  that owns it or to the reverse proxy for Discord. What it reads of shared state (the context of the proxy, the budget of
  requests in flight, the published routes, the label limiter, the registry of clients) is the argument
  \<open>serve_env\<close>; the result is the sequence of what it does, deferred calls included.
\<close>

subsection \<open>Helpers\<close>

definition maxPeerHops :: int where "maxPeerHops = 1"

definition affinityHash :: "identity \<Rightarrow> string \<Rightarrow> bool \<Rightarrow> u64" where
  "affinityHash i bucketPath interaction =
     (if kind i = authNone then
        (if interaction then HashCRC64 bucketPath else HashCRC64 ''no-auth-egress'')
      else BigEndian_Uint64 (take 8 (key i)))"

definition forwardedHop :: "string \<Rightarrow> int" where
  "forwardedHop v = (case Atoi v of None \<Rightarrow> 0 | Some hop \<Rightarrow> if hop < 0 then 0 else hop)"

definition isUpgradeRequest :: "header \<Rightarrow> bool" where
  "isUpgradeRequest h \<longleftrightarrow>
     header_Get h ''Upgrade'' \<noteq> [] \<or>
     list_ex (\<lambda>v. list_ex (\<lambda>token. EqualFold (TrimSpace token) ''upgrade'') (Split CHR '','' v)) (header_Values h ''Connection'')"

definition http_Error :: "header \<Rightarrow> string \<Rightarrow> nat \<Rightarrow> reply" where
  \<comment> \<open>of \<^verbatim>\<open>net/http\<close>\<close>
  "http_Error h message status =
     \<lparr>rp_status = status,
      rp_header = header_Set (header_Set (header_Del h ''Content-Length'') ''Content-Type'' ''text/plain; charset=utf-8'')
        ''X-Content-Type-Options'' ''nosniff'',
      rp_body = message @ newline\<rparr>"

definition sched_error_text :: "sched_error \<Rightarrow> string" where
  \<comment> \<open>of the errors that \<^verbatim>\<open>client\<close> returns\<close>
  "sched_error_text e =
     (case e of
        ErrTooManyClients \<Rightarrow> ''client state limit reached''
      | ErrBucketStateLimit \<Rightarrow> ''rate-limit state capacity exhausted''
      | ErrProxyClosed \<Rightarrow> ''proxy is shutting down''
      | ErrGate _ \<Rightarrow> ''rate-limit queue is full'')"


subsection \<open>ServeHTTP\<close>

record requestMetadata =
  md_state :: client_ref
  md_routeHash :: u64
  md_bucketPath :: string
  md_metricsMethod :: string
  md_metricsPath :: string
  md_majorKey :: string
  md_interaction :: bool

datatype serve_event =
  TakeSlot | GiveSlot | OpenContext | StopContext | GaugeInc string string | GaugeDec string string | RoutedRecv |
  BeginClient client_ref | EndClient client_ref | Reply reply | ToPeer string int outbound | ToDiscord requestMetadata outbound

record serve_env =
  e_done :: bool
  e_over :: bool
  e_slot :: bool
  e_clock :: clock_readings
  e_limiter :: routeLabelLimiter
  e_routes :: "routeTable option"
  e_client :: "sched_error + client_ref"

definition metrics_path :: "proxyConfig \<Rightarrow> routeLabelLimiter \<Rightarrow> string \<Rightarrow> string" where
  "metrics_path cfg lim bucketPath =
     (let m = MetricsPathFromBucket bucketPath
      in if c_EnableMetrics cfg then snd (route_label lim m)
         else if maxMetricsRouteLabelBytes < length m then overflowMetricsRouteLabel else m)"

definition dispatch :: "proxyConfig \<Rightarrow> serve_env \<Rightarrow> http_request \<Rightarrow> string \<Rightarrow> string \<Rightarrow> string \<Rightarrow> serve_event list" where
  \<comment> \<open>from \<^verbatim>\<open>identify\<close> on: to a peer, or to Discord\<close>
  "dispatch cfg env rq bucketPath metricsMethod metricsPath =
     (let i = identify (header_Get (rq_header rq) ''Authorization'');
          interaction = isInteractionEndpoint (rq_path rq);
          routingHash = affinityHash i bucketPath interaction;
          hop = forwardedHop (header_Get (rq_header rq) ''X-Nirn-Hop'');
          rq' = rq\<lparr>rq_header := header_Del (rq_header rq) ''X-Nirn-Hop''\<rparr>;
          target = calculateRoute (e_routes env) routingHash
      in (if 0 < hop \<and> c_EnableMetrics cfg then [RoutedRecv] else []) @
         (if target \<noteq> [] then
            (if maxPeerHops \<le> hop then [Reply (writeUnavailable [] ''cluster routing did not converge'')]
             else [ToPeer target (hop + 1) (peer_Rewrite target (hop + 1) rq')])
          else case e_client env of
            Inl e \<Rightarrow> [Reply (writeUnavailable [] (sched_error_text e))]
          | Inr ref \<Rightarrow>
              let majorKey = majorParameter (rq_path rq) in
              [BeginClient ref,
               ToDiscord \<lparr>md_state = ref, md_routeHash = routeHash (rq_method rq) bucketPath majorKey, md_bucketPath = bucketPath,
                  md_metricsMethod = metricsMethod, md_metricsPath = metricsPath, md_majorKey = majorKey,
                  md_interaction = interaction\<rparr> (discord_Rewrite rq'),
               EndClient ref]))"

definition admitted :: "proxyConfig \<Rightarrow> serve_env \<Rightarrow> http_request \<Rightarrow> serve_event list" where
  \<comment> \<open>with a slot of the budget of requests in flight\<close>
  "admitted cfg env rq =
     (if HasPrefix (rq_path rq) ''/nirn/'' then [Reply (http_Error [] ''404 page not found'' StatusNotFound)]
      else if rq_method rq = ''CONNECT'' \<or> isUpgradeRequest (rq_header rq) then
        [Reply (http_Error [] ''protocol upgrades are not supported'' StatusBadRequest)]
      else if e_over env then [Reply (writeUnavailable [] ''cluster exceeds CLUSTER_MAX_NODES'')]
      else
        let bucketPath = GetOptimisticBucketPath (e_clock env) (rq_path rq) (rq_method rq);
            metricsPath = metrics_path cfg (e_limiter env) bucketPath;
            metricsMethod = metricsMethodLabel (rq_method rq)
        in [OpenContext] @ (if c_EnableMetrics cfg then [GaugeInc metricsMethod metricsPath] else []) @
           dispatch cfg env rq bucketPath metricsMethod metricsPath @
           (if c_EnableMetrics cfg then [GaugeDec metricsMethod metricsPath] else []) @ [StopContext])"

definition ServeHTTP :: "proxyConfig \<Rightarrow> serve_env \<Rightarrow> http_request \<Rightarrow> serve_event list" where
  "ServeHTTP cfg env rq =
     (if rq_path rq = ''/nirn/healthz'' then
        [Reply (if e_done env then writeUnavailable [] ''proxy is shutting down''
                else if e_over env then writeUnavailable [] ''cluster exceeds CLUSTER_MAX_NODES''
                else \<lparr>rp_status = StatusOK, rp_header = [], rp_body = []\<rparr>)]
      else if e_done env then [Reply (writeUnavailable [] ''proxy is shutting down'')]
      else if \<not> e_slot env then [Reply (writeUnavailable [] ''in-flight request capacity exhausted'')]
      else [TakeSlot] @ admitted cfg env rq @ [GiveSlot])"


subsection \<open>What a request holds\<close>

datatype held_thing = HeldSlot | HeldContext | HeldGauge string string | HeldClient client_ref

fun serve_step :: "serve_event \<Rightarrow> held_thing list \<times> nat \<Rightarrow> (held_thing list \<times> nat) option" where
  \<comment> \<open>a stack of what is held, and the number of answers; \<open>None\<close> is a mistake\<close>
  "serve_step TakeSlot (st, n) = (if st = [] then Some ([HeldSlot], n) else None)"
| "serve_step OpenContext (st, n) = (if st = [HeldSlot] then Some (HeldContext # st, n) else None)"
| "serve_step (GaugeInc v r) (st, n) = Some (HeldGauge v r # st, n)"
| "serve_step (BeginClient c) (st, n) = Some (HeldClient c # st, n)"
| "serve_step GiveSlot (st, n) = (if st = [HeldSlot] then Some ([], n) else None)"
| "serve_step StopContext (st, n) = (case st of HeldContext # st' \<Rightarrow> Some (st', n) | _ \<Rightarrow> None)"
| "serve_step (GaugeDec v r) (st, n) = (case st of HeldGauge v' r' # st' \<Rightarrow> if (v, r) = (v', r') then Some (st', n) else None | _ \<Rightarrow> None)"
| "serve_step (EndClient c) (st, n) = (case st of HeldClient c' # st' \<Rightarrow> if c = c' then Some (st', n) else None | _ \<Rightarrow> None)"
| "serve_step RoutedRecv (st, n) = Some (st, n)"
| "serve_step (Reply r) (st, n) = Some (st, Suc n)"
| "serve_step (ToPeer t h out) (st, n) = (if HeldContext \<in> set st \<and> HeldSlot \<in> set st then Some (st, Suc n) else None)"
| "serve_step (ToDiscord md out) (st, n) =
     (if HeldClient (md_state md) \<in> set st \<and> HeldContext \<in> set st \<and> HeldSlot \<in> set st then Some (st, Suc n) else None)"

abbreviation serve_trace :: "serve_event list \<Rightarrow> held_thing list \<times> nat \<Rightarrow> (held_thing list \<times> nat) option" where
  "serve_trace \<equiv> trace_run serve_step"

lemma dispatch_trace:
  "HeldContext \<in> set st \<Longrightarrow> HeldSlot \<in> set st \<Longrightarrow>
     serve_trace (dispatch cfg env rq bp mm mp) (st, n) = Some (st, Suc n)"
  by (simp add: dispatch_def Let_def trace_run_append split: sum.split)

lemma serve_balanced: "serve_trace (ServeHTTP cfg env rq) ([], 0) = Some ([], 1)"
  by (simp add: ServeHTTP_def admitted_def Let_def trace_run_append dispatch_trace)



subsection \<open>The key of a request does not depend on the node\<close>

lemma clean_paths_versioned:
  assumes "hd (Split CHR ''/'' (clean_bucket_path path)) = majorChannels" "hd (Split CHR ''?'' path) = ''/api/v'' @ v"
  shows "hd (cleanAPIPath path) = majorChannels"
proof -
  define q where "q = hd (Split CHR ''?'' path)"
  have q: "q = ''/api/'' @ CHR ''v'' # v" using assms(2) by (simp add: q_def)
  have parts: "Split CHR ''/'' (TrimPrefix q ''/'') = ''api'' # Split CHR ''/'' (CHR ''v'' # v)"
    by (simp add: q TrimPrefix_def HasPrefix_def)
  have ver: "TrimPrefix q ''/api/v'' = v" "TrimPrefix q ''/api/'' = CHR ''v'' # v" by (simp_all add: q TrimPrefix_def HasPrefix_def)
  show ?thesis
  proof (cases "CHR ''/'' \<in> set v \<and> isNumericInput (takeWhile (\<lambda>x. x \<noteq> CHR ''/'') v)")
    case True
    then obtain n w where w: "v = n @ CHR ''/'' # w" "CHR ''/'' \<notin> set n" by (meson split_list_first)
    have n: "takeWhile (\<lambda>x. x \<noteq> CHR ''/'') v = n" using w by (simp add: takeWhile_tail)
    have c: "clean_bucket_path path = w"
      using True ver by (simp add: clean_bucket_path_def Let_def q_def [symmetric] q IndexByte_def n w)
    have "Split CHR ''/'' (CHR ''v'' # v) = (CHR ''v'' # n) # Split CHR ''/'' w" using w by simp
    moreover have "n \<noteq> []" using True n by (simp add: isNumericInput_def)
    ultimately show ?thesis
      using True n assms(1) unfolding c by (simp add: cleanAPIPath_def Let_def q_def [symmetric] parts)
  next
    case False
    have t: "take (length (takeWhile (\<lambda>x. x \<noteq> CHR ''/'') v)) v = takeWhile (\<lambda>x. x \<noteq> CHR ''/'') v"
      by (rule takeWhile_eq_take [symmetric])
    have "v \<noteq> q" by (simp add: q)
    hence "clean_bucket_path path = CHR ''v'' # v"
      using False unfolding clean_bucket_path_def Let_def q_def [symmetric] ver IndexByte_def by (simp add: t)
    thus ?thesis using assms(1) by (simp add: hd_Split majorChannels_def)
  qed
qed

lemma clean_paths_agree:
  assumes "hd (Split CHR ''/'' (clean_bucket_path path)) = majorChannels"
  shows "hd (cleanAPIPath path) = majorChannels"
proof -
  define q where "q = hd (Split CHR ''?'' path)"
  show ?thesis
  proof (cases "HasPrefix q ''/api/''")
    case False
    hence nv: "\<not> HasPrefix q ''/api/v''"
      using HasPrefixE [of q "''/api/v''"] by (auto simp: HasPrefix_def)
    have c: "clean_bucket_path path = TrimPrefix q ''/''"
      using False nv by (simp add: clean_bucket_path_def Let_def q_def [symmetric] TrimPrefix_id)
    show ?thesis using assms unfolding c by (auto simp: cleanAPIPath_def Let_def q_def [symmetric] majorChannels_def)
  next
    case True
    then obtain u where q: "q = ''/api/'' @ u" using HasPrefixE by blast
    show ?thesis
    proof (cases "\<exists>v. u = CHR ''v'' # v")
      case False
      have parts: "Split CHR ''/'' (TrimPrefix q ''/'') = ''api'' # Split CHR ''/'' u"
        by (simp add: q TrimPrefix_def HasPrefix_def)
      have nv: "\<not> HasPrefix q ''/api/v''" using False by (cases u) (auto simp: q HasPrefix_def)
      have c: "clean_bucket_path path = u"
        using nv by (simp add: clean_bucket_path_def Let_def q_def [symmetric] TrimPrefix_id) (simp add: q TrimPrefix_def HasPrefix_def)
      have "hd (Split CHR ''/'' u) = [] \<or> hd (hd (Split CHR ''/'' u)) \<noteq> CHR ''v''"
        using False by (cases u) (auto simp: hd_Split)
      thus ?thesis using assms unfolding c by (auto simp: cleanAPIPath_def Let_def q_def [symmetric] parts majorChannels_def)
    next
      case True
      then obtain v where "u = CHR ''v'' # v" by blast
      thus ?thesis using clean_paths_versioned [OF assms, of v] q by (simp add: q_def)
    qed
  qed
qed

lemma bucket_parts_clock: "major \<noteq> majorChannels \<Longrightarrow> bucket_parts clk major verb n prev ps = bucket_parts clk' major verb n prev ps"
  by (induction ps arbitrary: n prev) auto

lemma interaction_not_channel: "isInteractionEndpoint path \<Longrightarrow> hd (cleanAPIPath path) \<noteq> majorChannels"
proof -
  assume "isInteractionEndpoint path"
  hence "cleanAPIPath path \<noteq> []" "cleanAPIPath path ! 0 = majorInteractions \<or> cleanAPIPath path ! 0 = majorWebhooks"
    unfolding isInteractionEndpoint_def Let_def by (auto split: if_splits)
  thus ?thesis by (auto simp: hd_conv_nth major_defs)
qed

lemma bucket_path_clock:
  assumes "isInteractionEndpoint path"
  shows "GetOptimisticBucketPath clk path verb = GetOptimisticBucketPath clk' path verb"
proof -
  have "hd (Split CHR ''/'' (clean_bucket_path path)) \<noteq> majorChannels"
    using assms clean_paths_agree interaction_not_channel by blast
  hence "Split CHR ''/'' (clean_bucket_path path) ! 0 \<noteq> majorChannels" by (simp add: hd_conv_nth)
  note e = bucket_parts_clock [OF this, of clk verb _ _ _ clk']
  show ?thesis unfolding GetOptimisticBucketPath_def bucket_of_parts_def Let_def by (simp only: e)
qed

lemma affinity_clock:
  "affinityHash i (GetOptimisticBucketPath clk path verb) (isInteractionEndpoint path) =
   affinityHash i (GetOptimisticBucketPath clk' path verb) (isInteractionEndpoint path)"
  using bucket_path_clock [of path clk verb clk'] by (simp add: affinityHash_def)


subsection \<open>Forwarding to a peer\<close>

lemma dropped_Del: "dropped (header_Del h ''X-Nirn-Hop'') = dropped h"
  by (simp add: dropped_def connection_tokens_def header_Values_def header_Del_def canonical_names)

lemma forwardedHop_Itoa: "forwardedHop (Itoa 1) = 1"
  by (simp add: forwardedHop_def Atoi_def ParseInt_Itoa)

lemma forwardedHop_nonneg: "0 \<le> forwardedHop v"
  by (simp add: forwardedHop_def split: option.split)

lemma peer_header:
  assumes "header_Get h ''Upgrade'' = []" "k \<noteq> ''Te''" "k \<noteq> ''User-Agent''" "k \<notin> set forwardingHeaders"
  shows "map_of (rq_header (o_request (peer_Rewrite t n (rq\<lparr>rq_header := header_Del h ''X-Nirn-Hop''\<rparr>)))) k =
    (if k = ''X-Nirn-Hop'' then Some [Itoa n] else if k \<in> dropped h then None else map_of h k)"
proof -
  have u: "header_Get (header_Del h ''X-Nirn-Hop'') ''Upgrade'' = []"
    using assms(1) by (simp add: canonical_names)
  have "map_of (header_Del h ''X-Nirn-Hop'') k = map_of h k" if "k \<noteq> ''X-Nirn-Hop''"
    using that by (simp add: header_Del_def canonical_names)
  thus ?thesis
    using assms map_of_forwarded [OF u assms(2,3)]
    by (simp add: peer_Rewrite_def rewritten_def map_of_after map_of_Set canonical_names dropped_Del)
qed

lemma ToPeer_cases:
  assumes "ToPeer target hop out \<in> set (ServeHTTP cfg env rq)"
  obtains "rq_path rq \<noteq> ''/nirn/healthz''" "\<not> HasPrefix (rq_path rq) ''/nirn/''" "rq_method rq \<noteq> ''CONNECT''"
    "\<not> isUpgradeRequest (rq_header rq)"
    "calculateRoute (e_routes env) (affinityHash (identify (header_Get (rq_header rq) ''Authorization''))
       (GetOptimisticBucketPath (e_clock env) (rq_path rq) (rq_method rq)) (isInteractionEndpoint (rq_path rq))) = target"
    "target \<noteq> []" "forwardedHop (header_Get (rq_header rq) ''X-Nirn-Hop'') = 0" "hop = 1"
    "out = peer_Rewrite target 1 (rq\<lparr>rq_header := header_Del (rq_header rq) ''X-Nirn-Hop''\<rparr>)"
proof -
  have "hop = 1 \<and> forwardedHop (header_Get (rq_header rq) ''X-Nirn-Hop'') = 0"
    using assms forwardedHop_nonneg [of "header_Get (rq_header rq) ''X-Nirn-Hop''"]
    by (auto simp: ServeHTTP_def admitted_def dispatch_def Let_def maxPeerHops_def split: if_splits sum.splits)
  thus ?thesis
    using assms that by (auto simp: ServeHTTP_def admitted_def dispatch_def Let_def split: if_splits sum.splits)
qed

lemma forwarded_request:
  assumes "ToPeer target hop out \<in> set (ServeHTTP cfg env rq)" "HasPrefix (rq_path rq) ''/''"
  defines "rq' \<equiv> o_request out"
  shows "rq_path rq' = rq_path rq" "rq_method rq' = rq_method rq" "o_host out = target"
    "forwardedHop (header_Get (rq_header rq') ''X-Nirn-Hop'') = 1" "\<not> isUpgradeRequest (rq_header rq')"
    "''Authorization'' \<notin> dropped (rq_header rq) \<Longrightarrow>
       header_Get (rq_header rq') ''Authorization'' = header_Get (rq_header rq) ''Authorization''"
proof -
  let ?h = "rq_header rq"
  have a: "\<not> isUpgradeRequest ?h" "out = peer_Rewrite target 1 (rq\<lparr>rq_header := header_Del ?h ''X-Nirn-Hop''\<rparr>)"
    using assms(1) by (auto elim: ToPeer_cases)
  have u: "header_Get ?h ''Upgrade'' = []" using a(1) by (simp add: isUpgradeRequest_def)
  note ph = peer_header [OF u, where rq = rq and t = target and n = 1, folded a(2), folded rq'_def]
  show "rq_path rq' = rq_path rq" "rq_method rq' = rq_method rq" "o_host out = target"
    using assms(2) by (simp_all add: rq'_def a(2) peer_Rewrite_def rewritten_def SetURL_path_def)
  have x: "map_of (rq_header rq') ''X-Nirn-Hop'' = Some [Itoa 1]" using ph [of "''X-Nirn-Hop''"] forwarding_distinct by simp
  show "forwardedHop (header_Get (rq_header rq') ''X-Nirn-Hop'') = 1"
    by (simp add: header_Get_def header_Values_def canonical_names x forwardedHop_Itoa)
  have "map_of (rq_header rq') ''Upgrade'' = None" "map_of (rq_header rq') ''Connection'' = None"
    using ph [of "''Upgrade''"] ph [of "''Connection''"] by (simp_all add: forwardingHeaders_def dropped_def hopHeaders_def)
  thus "\<not> isUpgradeRequest (rq_header rq')" by (simp add: isUpgradeRequest_def header_Get_def header_Values_def canonical_names)
  show "header_Get (rq_header rq') ''Authorization'' = header_Get ?h ''Authorization''" if "''Authorization'' \<notin> dropped ?h"
    using ph [of "''Authorization''"] that forwarding_distinct by (simp add: header_Get_def header_Values_def canonical_names)
qed

definition same_view :: "string \<Rightarrow> routeTable option \<Rightarrow> routeTable option \<Rightarrow> bool" where
  \<comment> \<open>two nodes know the same members, and the second is the one at \<open>target\<close>\<close>
  "same_view target r r' \<longleftrightarrow>
     (case (r, r') of (Some t, Some t') \<Rightarrow> t_members t = t_members t' \<and> t_localAddr t' = target | _ \<Rightarrow> False)"

lemma same_view_owner: "same_view target r r' \<Longrightarrow> calculateRoute r k = target \<Longrightarrow> target \<noteq> [] \<Longrightarrow> calculateRoute r' k = []"
  by (auto simp: same_view_def calculateRoute_def split: option.splits if_splits)

lemma same_view_reindex:
  assumes "mset nodes = mset nodes'" "distinct (map n_name nodes)" "int (length nodes) \<le> n" "int (length nodes') \<le> n'"
  shows "same_view target (routes (reindex local n nodes)) (routes (reindex target n' nodes'))"
proof -
  have "t_members (build_table local nodes) = t_members (build_table target nodes')"
    by (rule same_view_same_members [OF assms(1,2)])
  thus ?thesis using assms(3,4) by (simp add: same_view_def reindex_def) (simp add: build_table_def)
qed

text \<open>
  C3. A request crosses the cluster at most once. A request that a node sends to a peer is marked so that the peer never
  forwards it again, whatever the peer believes about the cluster. And when both know the same members, the peer, unless
  it is shutting down, full or over capacity, serves it: it computes the same owner from the request as it arrives,
  with its own clock, and passes it to Discord without the mark.
\<close>

theorem forwarded_at_most_once:
  assumes "ToPeer target hop out \<in> set (ServeHTTP cfg env rq)" "HasPrefix (rq_path rq) ''/''"
  shows "o_host out = target \<and> (\<forall>t n out'. ToPeer t n out' \<notin> set (ServeHTTP cfg' env' (o_request out))) \<and>
    (same_view target (e_routes env) (e_routes env') \<and> ''Authorization'' \<notin> dropped (rq_header rq) \<and>
     \<not> e_done env' \<and> e_slot env' \<and> \<not> e_over env' \<and> e_client env' = Inr ref \<longrightarrow>
     (\<exists>md out'. ToDiscord md out' \<in> set (ServeHTTP cfg' env' (o_request out)) \<and> md_state md = ref \<and>
        map_of (rq_header (o_request out')) ''X-Nirn-Hop'' = None))"
proof -
  let ?rq' = "o_request out"
  note f = forwarded_request [OF assms]
  have never: "ToPeer t n out' \<notin> set (ServeHTTP cfg' env' ?rq')" for t n out'
    using f(4) by (auto elim: ToPeer_cases)
  have "\<exists>md out'. ToDiscord md out' \<in> set (ServeHTTP cfg' env' ?rq') \<and> md_state md = ref \<and>
      map_of (rq_header (o_request out')) ''X-Nirn-Hop'' = None"
    if v: "same_view target (e_routes env) (e_routes env')" and auth: "''Authorization'' \<notin> dropped (rq_header rq)"
      and ok: "\<not> e_done env'" "e_slot env'" "\<not> e_over env'" "e_client env' = Inr ref"
    using assms(1)
  proof (rule ToPeer_cases)
    assume p: "rq_path rq \<noteq> ''/nirn/healthz''" "\<not> HasPrefix (rq_path rq) ''/nirn/''" "rq_method rq \<noteq> ''CONNECT''"
      and r: "calculateRoute (e_routes env) (affinityHash (identify (header_Get (rq_header rq) ''Authorization''))
        (GetOptimisticBucketPath (e_clock env) (rq_path rq) (rq_method rq)) (isInteractionEndpoint (rq_path rq))) = target"
      "target \<noteq> []"
    have here: "calculateRoute (e_routes env') (affinityHash (identify (header_Get (rq_header ?rq') ''Authorization''))
        (GetOptimisticBucketPath (e_clock env') (rq_path ?rq') (rq_method ?rq')) (isInteractionEndpoint (rq_path ?rq'))) = []"
      using same_view_owner [OF v r] unfolding f(1,2) f(6) [OF auth] by (metis affinity_clock)
    have up: "header_Get (rq_header ?rq') ''Upgrade'' = []" using f(5) by (simp add: isUpgradeRequest_def)
    have none: "map_of (rq_header (o_request (discord_Rewrite (?rq'\<lparr>rq_header := header_Del (rq_header ?rq') ''X-Nirn-Hop''\<rparr>))))
        ''X-Nirn-Hop'' = None"
      using up forwarding_distinct
      by (simp add: discord_Rewrite_def rewritten_def map_of_after map_of_forwarded canonical_names header_Del_def
          header_Get_def header_Values_def)
    show ?thesis
      using p f(1,2,5) ok here none
      by (simp add: ServeHTTP_def admitted_def dispatch_def Let_def)
  qed
  thus ?thesis using f(3) never by blast
qed

definition example_env :: "string \<Rightarrow> serve_env" where
  \<comment> \<open>a node of a cluster whose only other member is at \<open>10.0.0.2:8443\<close>\<close>
  "example_env local =
     \<lparr>e_done = False, e_over = False, e_slot = True, e_clock = \<lparr>at_parse = 0, at_old = 0, at_recent = 0\<rparr>,
      e_limiter = newRouteLabelLimiter maxMetricsRouteLabels,
      e_routes = Some \<lparr>t_members = [\<lparr>m_name = ''b'', m_address = ''10.0.0.2:8443'', m_hash = 7\<rparr>], t_localAddr = local\<rparr>,
      e_client = Inr NoAuthRef\<rparr>"

definition example_get_gateway :: http_request where
  "example_get_gateway = \<lparr>rq_method = ''GET'', rq_path = ''/api/v10/gateway'', rq_header = []\<rparr>"

lemma example_forwarded:
  "\<exists>hop out. ToPeer ''10.0.0.2:8443'' hop out \<in> set (ServeHTTP example_config (example_env ''10.0.0.1:8443'') example_get_gateway)"
proof -
  have "forwardedHop [] = 0" by (simp add: forwardedHop_def Atoi_def ParseInt_def)
  thus ?thesis
    by (simp add: ServeHTTP_def admitted_def dispatch_def Let_def example_env_def example_get_gateway_def HasPrefix_def
        isUpgradeRequest_def header_Get_def header_Values_def calculateRoute_def maxPeerHops_def)
qed

theorem forwarded_at_most_once_witness:
  "\<exists>hop out. ToPeer ''10.0.0.2:8443'' hop out \<in> set (ServeHTTP example_config (example_env ''10.0.0.1:8443'') example_get_gateway) \<and>
     (\<exists>md out'. ToDiscord md out' \<in> set (ServeHTTP example_config (example_env ''10.0.0.2:8443'') (o_request out)))"
proof -
  obtain hop out where out:
    "ToPeer ''10.0.0.2:8443'' hop out \<in> set (ServeHTTP example_config (example_env ''10.0.0.1:8443'') example_get_gateway)"
    using example_forwarded by blast
  have "HasPrefix (rq_path example_get_gateway) ''/''" by (simp add: example_get_gateway_def HasPrefix_def)
  moreover have "same_view ''10.0.0.2:8443'' (e_routes (example_env ''10.0.0.1:8443'')) (e_routes (example_env ''10.0.0.2:8443''))"
    by (simp add: same_view_def example_env_def)
  moreover have "''Authorization'' \<notin> dropped (rq_header example_get_gateway)"
    by (simp add: example_get_gateway_def dropped_def connection_tokens_def header_Values_def hopHeaders_def)
  ultimately have "\<exists>md out'. ToDiscord md out' \<in> set (ServeHTTP example_config (example_env ''10.0.0.2:8443'') (o_request out))"
    using forwarded_at_most_once [OF out, of example_config "example_env ''10.0.0.2:8443''" NoAuthRef]
    by (auto simp: example_env_def)
  thus ?thesis using out by blast
qed


subsection \<open>Replies of the proxy itself\<close>

definition marked :: "reply \<Rightarrow> bool" where
  "marked r \<longleftrightarrow> map_of (rp_header r) ''X-Nirn-Proxy-Error'' = Some [''true'']"

lemma reply_names: "CanonicalHeaderKey ''Content-Type'' = ''Content-Type''" "CanonicalHeaderKey ''Content-Length'' = ''Content-Length''"
  "CanonicalHeaderKey ''X-Nirn-Proxy-Error'' = ''X-Nirn-Proxy-Error''"
  "CanonicalHeaderKey ''X-Content-Type-Options'' = ''X-Content-Type-Options''"
  by code_simp+

lemma writeProxyError_marked: "marked (writeProxyError h message status) \<and> rp_status (writeProxyError h message status) = status"
  by (simp add: marked_def writeProxyError_def header_Set_def reply_names)

lemma writeUnavailable_marked: "marked (writeUnavailable h message) \<and> rp_status (writeUnavailable h message) = StatusServiceUnavailable"
  using writeProxyError_marked by (simp add: writeUnavailable_def)

lemma http_Error_unmarked: "\<not> marked (http_Error [] message status) \<and> rp_status (http_Error [] message status) = status"
  by (simp add: marked_def http_Error_def header_Set_def header_Del_def reply_names)

text \<open>
  C31. A failure of the proxy is never disguised as an answer of Discord. Of the replies that the proxy writes itself, those with
  status 408, 502, 503 or 504 carry \<open>X-Nirn-Proxy-Error: true\<close>, and no others do; the front answers 200 only on
  the health endpoint of a proxy that is neither closing nor over capacity; and an error on the way to
  Discord or to a peer is answered with one of these statuses, never with a 429, unless the client itself went away.
\<close>

theorem proxy_replies_marked:
  "(Reply r \<in> set (ServeHTTP cfg env rq) \<longrightarrow>
      rp_status r \<in> {StatusOK, StatusBadRequest, StatusNotFound, StatusServiceUnavailable} \<and>
      (marked r \<longleftrightarrow> rp_status r = StatusServiceUnavailable) \<and>
      (rp_status r = StatusOK \<longleftrightarrow> rq_path rq = ''/nirn/healthz'' \<and> \<not> e_done env \<and> \<not> e_over env)) \<and>
   (case snd (discord_ErrorHandler proxyDone h err) of
      None \<Rightarrow> errors_Is err CtxCanceled \<and> \<not> proxyDone
    | Some r' \<Rightarrow> marked r' \<and> rp_status r' \<in> {StatusRequestTimeout, StatusBadGateway, StatusServiceUnavailable, StatusGatewayTimeout}) \<and>
   (\<exists>r'. snd (snd (peer_ErrorHandler (c_EnableMetrics cfg) h)) = Some r' \<and> marked r' \<and> rp_status r' = StatusServiceUnavailable)"
proof (intro conjI impI)
  note facts = writeProxyError_marked writeUnavailable_marked http_Error_unmarked
  show "case snd (discord_ErrorHandler proxyDone h err) of
      None \<Rightarrow> errors_Is err CtxCanceled \<and> \<not> proxyDone
    | Some r' \<Rightarrow> marked r' \<and> rp_status r' \<in> {StatusRequestTimeout, StatusBadGateway, StatusServiceUnavailable, StatusGatewayTimeout}"
    by (simp add: discord_ErrorHandler_def facts)
  show "\<exists>r'. snd (snd (peer_ErrorHandler (c_EnableMetrics cfg) h)) = Some r' \<and> marked r' \<and> rp_status r' = StatusServiceUnavailable"
    by (simp add: peer_ErrorHandler_def facts)
  assume "Reply r \<in> set (ServeHTTP cfg env rq)"
  then consider (health) "rq_path rq = ''/nirn/healthz''" "\<not> e_done env" "\<not> e_over env" "rp_status r = StatusOK" "rp_header r = []"
    | (unavailable) message where "r = writeUnavailable [] message" "\<not> (rq_path rq = ''/nirn/healthz'' \<and> \<not> e_done env \<and> \<not> e_over env)"
    | (refused) message status where "r = http_Error [] message status" "status \<in> {StatusBadRequest, StatusNotFound}"
        "rq_path rq \<noteq> ''/nirn/healthz''"
    by (auto simp: ServeHTTP_def admitted_def dispatch_def Let_def split: if_splits sum.splits)
  note cases = this
  show "rp_status r \<in> {StatusOK, StatusBadRequest, StatusNotFound, StatusServiceUnavailable}"
    using cases by cases (auto simp: facts)
  show "marked r \<longleftrightarrow> rp_status r = StatusServiceUnavailable"
    using cases
  proof cases
    case health
    thus ?thesis by (simp add: marked_def StatusOK_def StatusServiceUnavailable_def)
  qed (auto simp: facts StatusServiceUnavailable_def StatusBadRequest_def StatusNotFound_def)
  show "rp_status r = StatusOK \<longleftrightarrow> rq_path rq = ''/nirn/healthz'' \<and> \<not> e_done env \<and> \<not> e_over env"
    using cases by cases (auto simp: facts StatusOK_def StatusServiceUnavailable_def StatusBadRequest_def StatusNotFound_def)
qed

theorem proxy_replies_marked_witness:
  "\<exists>r. Reply r \<in> set (ServeHTTP example_config ((example_env ''10.0.0.1:8443'')\<lparr>e_slot := False\<rparr>) example_get_gateway) \<and>
     rp_status r = StatusServiceUnavailable \<and> marked r"
proof -
  let ?r = "writeUnavailable [] ''in-flight request capacity exhausted''"
  have "Reply ?r \<in> set (ServeHTTP example_config ((example_env ''10.0.0.1:8443'')\<lparr>e_slot := False\<rparr>) example_get_gateway)"
    by (simp add: ServeHTTP_def example_env_def example_get_gateway_def)
  moreover from this have "marked ?r \<longleftrightarrow> rp_status ?r = StatusServiceUnavailable"
    using proxy_replies_marked [of ?r] by blast
  moreover have "rp_status ?r = StatusServiceUnavailable" by (simp add: writeUnavailable_def writeProxyError_def)
  ultimately show ?thesis by blast
qed

end
