(* ===== verification/Lifecycle.thy ===== *)
theory Lifecycle
  imports Membership Registry
begin

section \<open>Closing a proxy\<close>

text \<open>
  \<^verbatim>\<open>Close\<close>, \<^verbatim>\<open>finishClose\<close> and \<^verbatim>\<open>sweepLoop\<close> of \<^verbatim>\<open>internal/proxy/proxy.go\<close> on top of the models of the cluster
  (\<open>Membership\<close>, whose goroutine \<open>closer\<close> is the one that runs \<^verbatim>\<open>finishClose\<close>) and of the registry of clients
  (\<open>Registry\<close>). Callers of \<^verbatim>\<open>Close\<close>, joining goroutines, requests, the sweeper and \<^verbatim>\<open>finishClose\<close> interleave. The
  cancelled context of the proxy is \<open>ctx_done\<close> of the cluster model and \<open>closed\<close> of the registry.
\<close>

subsection \<open>State and steps\<close>

definition clientSweepInterval :: duration where "clientSweepInterval = 5 * Minute"

datatype sweep_pc = SwWaiting | SwSweeping time | SwStopped

datatype finish_pc = FCluster | FIdle | FWait | FDone

datatype call_pc = CallStart | CallWaiting | CallReturned bool
  \<comment> \<open>whether \<^verbatim>\<open>closeDone\<close> was closed, or the context of the caller ended first\<close>

record life =
  l_cluster :: csys
  l_registry :: registry
  l_sweeper :: sweep_pc
  l_finish :: finish_pc
  l_callers :: "nat \<Rightarrow> call_pc"

definition Close_begin :: "nat \<Rightarrow> life \<Rightarrow> life" where
  \<comment> \<open>\<^verbatim>\<open>closeOnce.Do\<close>: the first caller cancels the context and starts \<^verbatim>\<open>finishClose\<close>\<close>
  "Close_begin i s =
     s\<lparr>l_cluster := close_begin i (l_cluster s), l_registry := (l_registry s)\<lparr>closed := True\<rparr>,
       l_callers := (l_callers s)(i := CallWaiting)\<rparr>"

definition Close_return :: "nat \<Rightarrow> bool \<Rightarrow> life \<Rightarrow> life" where
  "Close_return i finished s = s\<lparr>l_callers := (l_callers s)(i := CallReturned finished)\<rparr>"

definition finish_clients :: "life \<Rightarrow> life" where
  "finish_clients s = s\<lparr>l_registry := drop_clients (l_registry s), l_finish := FIdle\<rparr>"

inductive life_step :: "life \<Rightarrow> life \<Rightarrow> bool" where
  cluster_step: "\<lbrakk>cstep (l_cluster s) c'; \<forall>i. c_pcs (l_cluster s) i = CStart \<longrightarrow> c_pcs c' i = CStart\<rbrakk> \<Longrightarrow>
    life_step s (s\<lparr>l_cluster := c'\<rparr>)"
| registry_step: "reg_step (l_registry s) g' \<Longrightarrow> life_step s (s\<lparr>l_registry := g'\<rparr>)"
| call: "\<lbrakk>l_callers s i = CallStart; c_pcs (l_cluster s) i = CStart\<rbrakk> \<Longrightarrow> life_step s (Close_begin i s)"
| tick: "l_sweeper s = SwWaiting \<Longrightarrow> life_step s (s\<lparr>l_sweeper := SwSweeping now\<rparr>)"
| sweep_step: "l_sweeper s = SwSweeping now \<Longrightarrow>
    life_step s (s\<lparr>l_registry := sweepClients (l_registry s) now, l_sweeper := SwWaiting\<rparr>)"
| stop: "\<lbrakk>l_sweeper s = SwWaiting; ctx_done (l_cluster s)\<rbrakk> \<Longrightarrow> life_step s (s\<lparr>l_sweeper := SwStopped\<rparr>)"
| drop_all: "\<lbrakk>l_finish s = FCluster; closer (l_cluster s) = Some i; c_pcs (l_cluster s) i = CReturned\<rbrakk> \<Longrightarrow>
    life_step s (finish_clients s)"
| idle_connections: "l_finish s = FIdle \<Longrightarrow> life_step s (s\<lparr>l_finish := FWait\<rparr>)"
| wait_group: "\<lbrakk>l_finish s = FWait; l_sweeper s = SwStopped\<rbrakk> \<Longrightarrow> life_step s (s\<lparr>l_finish := FDone\<rparr>)"
| returned: "\<lbrakk>l_callers s i = CallWaiting; l_finish s = FDone\<rbrakk> \<Longrightarrow> life_step s (Close_return i True s)"
| gave_up: "l_callers s i = CallWaiting \<Longrightarrow> life_step s (Close_return i False s)"

inductive life_reachable :: "life \<Rightarrow> bool" where
  start: "\<lbrakk>\<And>i. ps i \<in> {JStart, CStart, Indexing False}; \<not> closed g\<rbrakk> \<Longrightarrow>
    life_reachable \<lparr>l_cluster = cstart ps, l_registry = g, l_sweeper = SwWaiting, l_finish = FCluster, l_callers = \<lambda>_. CallStart\<rparr>"
| step: "life_reachable s \<Longrightarrow> life_step s t \<Longrightarrow> life_reachable t"


subsection \<open>Facts on the parts\<close>

definition emptied :: "registry \<Rightarrow> bool" where
  "emptied g \<longleftrightarrow> closed g \<and> bots g = [] \<and> bearers g = [] \<and> noAuth g = None"

lemma client_closed: "client g i t = (g', r) \<Longrightarrow> closed g \<Longrightarrow> g' = g \<and> r = Inl ErrProxyClosed"
  by (simp add: client_def)

lemma reg_step_emptied: "reg_step g g' \<Longrightarrow> emptied g \<Longrightarrow> emptied g'"
  by (induction rule: reg_step.induct)
    (auto simp: emptied_def group_map_def expire_clients_def dest: client_closed split: group.splits)

lemma sweep_emptied: "emptied g \<Longrightarrow> emptied (sweepClients g now)"
  by (simp add: emptied_def sweepClients_def sweep_group_def sweep_noAuth_def expire_clients_def group_map_def set_group_def)

lemma set_group_closed [simp]: "closed (set_group g grp m) = closed g"
  by (simp add: set_group_def split: group.split)

lemma sweep_closed: "closed (sweepClients g now) = closed g"
  by (simp add: sweepClients_def sweep_group_def sweep_noAuth_def expire_clients_def split: prod.split option.split)

lemma cstep_returned: "cstep s t \<Longrightarrow> c_pcs s i = CReturned \<Longrightarrow> c_pcs t i = CReturned"
  by (induction rule: cstep.induct) (auto simp: csections split: option.splits)

lemma cstep_closer:
  assumes "cstep s t" "\<forall>i. c_pcs s i = CStart \<longrightarrow> c_pcs t i = CStart"
  shows "closer t = closer s" "ctx_done t = ctx_done s"
  using assms by (induction rule: cstep.induct) (auto simp: csections split: option.splits if_splits)

lemma cstep_from_start: "cstep s t \<Longrightarrow> c_pcs s i = CStart \<Longrightarrow> c_pcs t i = CStart \<or> t = close_begin i s"
  by (induction rule: cstep.induct) (auto simp: csections split: option.splits if_splits)

lemma cstep_into_start: "cstep s t \<Longrightarrow> c_pcs t i = CStart \<Longrightarrow> c_pcs s i = CStart"
  by (induction rule: cstep.induct) (auto simp: csections split: option.splits if_splits)

lemma cstep_closing: "cstep s t \<Longrightarrow> closing (c_pcs s i) \<Longrightarrow> closing (c_pcs t i)"
  by (induction rule: cstep.induct) (auto simp: csections split: option.splits if_splits)

lemma evict_closed: "evictOldestIdle g now gs = (g', ok) \<Longrightarrow> closed g' = closed g"
  by (auto simp: evictOldestIdle_def split: option.splits prod.splits)

lemma client_keeps_closed: "client g i t = (g', r) \<Longrightarrow> closed g' = closed g"
  by (auto simp: client_def Let_def split: if_splits option.splits prod.splits dest!: evict_closed)

lemma reg_step_closed: "reg_step g g' \<Longrightarrow> closed g' = closed g"
  by (induction rule: reg_step.induct) (auto simp: expire_clients_def dest: client_keeps_closed split: prod.split)


subsection \<open>Invariant\<close>

definition life_inv :: "life \<Rightarrow> bool" where
  "life_inv s \<longleftrightarrow> creachable (l_cluster s) \<and> (closed (l_registry s) \<longleftrightarrow> ctx_done (l_cluster s)) \<and>
     (ctx_done (l_cluster s) \<longleftrightarrow> closer (l_cluster s) \<noteq> None) \<and>
     (\<forall>j. closer (l_cluster s) = Some j \<longrightarrow> closing (c_pcs (l_cluster s) j)) \<and>
     (l_finish s \<noteq> FCluster \<longrightarrow> emptied (l_registry s) \<and> (\<exists>j. c_pcs (l_cluster s) j = CReturned)) \<and>
     (l_finish s = FDone \<longrightarrow> l_sweeper s = SwStopped) \<and>
     (\<forall>i. l_callers s i = CallReturned True \<longrightarrow> l_finish s = FDone) \<and>
     (\<forall>i. l_callers s i = CallWaiting \<longrightarrow> closer (l_cluster s) \<noteq> None) \<and>
     (\<forall>i. c_pcs (l_cluster s) i = CStart \<longrightarrow> l_callers s i = CallStart)"

lemma life_inv_cluster:
  assumes "life_inv s" "cstep (l_cluster s) c'" "\<forall>i. c_pcs (l_cluster s) i = CStart \<longrightarrow> c_pcs c' i = CStart"
  shows "life_inv (s\<lparr>l_cluster := c'\<rparr>)"
proof -
  note k = cstep_closer [OF assms(2,3)]
  have "creachable c'" using assms(1,2) by (auto simp: life_inv_def intro: creachable.step)
  moreover have "closing (c_pcs c' j)" if "closer (l_cluster s) = Some j" for j
    using assms(1) that cstep_closing [OF assms(2)] by (simp add: life_inv_def)
  moreover have "\<exists>j. c_pcs c' j = CReturned" if "\<exists>j. c_pcs (l_cluster s) j = CReturned"
    using that cstep_returned [OF assms(2)] by blast
  moreover have "l_callers s i = CallStart" if "c_pcs c' i = CStart" for i
    using that assms(1) cstep_into_start [OF assms(2)] by (simp add: life_inv_def)
  ultimately show ?thesis using assms(1) k by (simp add: life_inv_def)
qed

lemma life_inv_registry:
  assumes "life_inv s" "closed g' = closed (l_registry s)" "emptied (l_registry s) \<Longrightarrow> emptied g'"
  shows "life_inv (s\<lparr>l_registry := g'\<rparr>)"
  using assms by (simp add: life_inv_def)

lemma life_inv_call:
  assumes "life_inv s" "c_pcs (l_cluster s) i = CStart"
  shows "life_inv (Close_begin i s)"
proof -
  let ?c = "l_cluster s"
  have "creachable (close_begin i ?c)"
    using assms by (auto simp: life_inv_def intro: creachable.step cstep.begin_close)
  moreover have "ctx_done (close_begin i ?c)" "closer (close_begin i ?c) \<noteq> None"
    using assms(1) by (auto simp: life_inv_def csections)
  moreover have "closing (c_pcs (close_begin i ?c) j)" if "closer (close_begin i ?c) = Some j" for j
    using that assms by (auto simp: life_inv_def csections split: if_splits)
  moreover have "\<exists>j. c_pcs (close_begin i ?c) j = CReturned" if "c_pcs ?c j = CReturned" for j
    using that assms(2) by (intro exI [of _ j]) (auto simp: csections)
  moreover have "j \<noteq> i \<and> l_callers s j = CallStart" if "c_pcs (close_begin i ?c) j = CStart" for j
    using that assms by (auto simp: life_inv_def csections split: if_splits)
  moreover have "emptied g \<Longrightarrow> emptied (g\<lparr>closed := True\<rparr>)" for g by (simp add: emptied_def)
  ultimately show ?thesis using assms(1) by (auto simp: life_inv_def Close_begin_def)
qed

lemma life_step_inv: "life_step s t \<Longrightarrow> life_inv s \<Longrightarrow> life_inv t"
proof (induction rule: life_step.induct)
  case (cluster_step s c')
  thus ?case by (intro life_inv_cluster)
next
  case (registry_step s g')
  thus ?case by (intro life_inv_registry) (auto dest: reg_step_closed reg_step_emptied)
next
  case (call s i)
  thus ?case by (intro life_inv_call)
next
  case (sweep_step s now)
  have "life_inv (s\<lparr>l_registry := sweepClients (l_registry s) now\<rparr>)"
    using sweep_step.prems by (intro life_inv_registry) (auto simp: sweep_closed sweep_emptied)
  thus ?case using sweep_step.hyps by (auto simp: life_inv_def)
next
  case (drop_all s i)
  have "closed (l_registry s)" using drop_all by (auto simp: life_inv_def)
  thus ?case using drop_all by (auto simp: life_inv_def finish_clients_def drop_clients_def emptied_def)
qed (auto simp: life_inv_def Close_return_def)

lemma life_reachable_inv: "life_reachable s \<Longrightarrow> life_inv s"
proof (induction rule: life_reachable.induct)
  case (start ps g)
  have "creachable (cstart ps)" by (rule creachable.start) (rule start(1))
  thus ?case using start(2) by (simp add: life_inv_def cstart_def)
qed (rule life_step_inv)


subsection \<open>Closing gets done\<close>

lemma cluster_lift:
  assumes "life_inv s" "cstep (l_cluster s) c'"
  shows "\<exists>t. life_step s t \<and> l_cluster t = c' \<and> l_finish t = l_finish s \<and> l_sweeper t = l_sweeper s \<and>
    (\<forall>i. l_callers s i = CallWaiting \<longrightarrow> l_callers t i = CallWaiting)"
proof (cases "\<forall>i. c_pcs (l_cluster s) i = CStart \<longrightarrow> c_pcs c' i = CStart")
  case True
  show ?thesis by (rule exI [of _ "s\<lparr>l_cluster := c'\<rparr>"]) (use life_step.cluster_step [OF assms(2) True] in simp)
next
  case False
  then obtain i where i: "c_pcs (l_cluster s) i = CStart" "c' = close_begin i (l_cluster s)"
    using cstep_from_start [OF assms(2)] by blast
  have "l_callers s i = CallStart" using assms(1) i(1) by (simp add: life_inv_def)
  from life_step.call [OF this i(1)] show ?thesis
    by (intro exI [of _ "Close_begin i s"]) (simp add: Close_begin_def i(2))
qed

lemma cluster_lifts:
  assumes "cstep\<^sup>*\<^sup>* c c'" "life_inv s" "l_cluster s = c"
  shows "\<exists>t. life_step\<^sup>*\<^sup>* s t \<and> life_inv t \<and> l_cluster t = c' \<and> l_finish t = l_finish s \<and> l_sweeper t = l_sweeper s \<and>
    (\<forall>i. l_callers s i = CallWaiting \<longrightarrow> l_callers t i = CallWaiting)"
  using assms
proof (induction rule: rtranclp_induct)
  case base
  thus ?case by blast
next
  case (step y z)
  then obtain t where t: "life_step\<^sup>*\<^sup>* s t" "life_inv t" "l_cluster t = y" "l_finish t = l_finish s" "l_sweeper t = l_sweeper s"
    "\<forall>i. l_callers s i = CallWaiting \<longrightarrow> l_callers t i = CallWaiting" by blast
  obtain u where u: "life_step t u" "l_cluster u = z" "l_finish u = l_finish t" "l_sweeper u = l_sweeper t"
    "\<forall>i. l_callers t i = CallWaiting \<longrightarrow> l_callers u i = CallWaiting"
    using cluster_lift [OF t(2)] step.hyps(2) t(3) by metis
  have "life_inv u" by (rule life_step_inv [OF u(1) t(2)])
  thus ?case using rtranclp.rtrancl_into_rtrancl [OF t(1) u(1)] t u by metis
qed

definition can_return :: "nat \<Rightarrow> life \<Rightarrow> bool" where
  "can_return i s \<longleftrightarrow> (\<exists>t. life_step\<^sup>*\<^sup>* s t \<and> l_callers t i = CallReturned True)"

lemma can_return_step: "life_step s t \<Longrightarrow> can_return i t \<Longrightarrow> can_return i s"
  unfolding can_return_def by (meson converse_rtranclp_into_rtranclp)

lemma can_return_steps: "life_step\<^sup>*\<^sup>* s t \<Longrightarrow> can_return i t \<Longrightarrow> can_return i s"
  unfolding can_return_def by (meson rtranclp_trans)

lemma finished_returns: "l_callers s i = CallWaiting \<Longrightarrow> l_finish s = FDone \<Longrightarrow> can_return i s"
  by (rule can_return_step [OF returned]) (auto simp: can_return_def Close_return_def)

lemma waited_returns:
  assumes "l_callers s i = CallWaiting" "l_finish s = FWait" "ctx_done (l_cluster s)"
  shows "can_return i s"
proof -
  have stopped: "can_return i t" if "l_callers t i = CallWaiting" "l_finish t = FWait" "l_sweeper t = SwStopped" for t
    by (rule can_return_step [OF wait_group [OF that(2,3)]]) (rule finished_returns; simp add: that)
  have waiting: "can_return i t"
    if "l_callers t i = CallWaiting" "l_finish t = FWait" "l_sweeper t = SwWaiting" "ctx_done (l_cluster t)" for t
    by (rule can_return_step [OF stop [OF that(3,4)]]) (rule stopped; simp add: that)
  show ?thesis
  proof (cases "l_sweeper s")
    case (SwSweeping now)
    show ?thesis by (rule can_return_step [OF sweep_step [OF SwSweeping]]) (rule waiting; simp add: assms)
  qed (use assms stopped waiting in auto)
qed

lemma idle_returns:
  assumes "l_callers s i = CallWaiting" "l_finish s = FIdle" "ctx_done (l_cluster s)"
  shows "can_return i s"
  by (rule can_return_step [OF idle_connections [OF assms(2)]]) (rule waited_returns; simp add: assms)

lemma waiting_returns:
  assumes "life_reachable s" "l_callers s i = CallWaiting"
  shows "can_return i s"
proof -
  have inv: "life_inv s" by (rule life_reachable_inv [OF assms(1)])
  then obtain j where j: "closer (l_cluster s) = Some j" "closing (c_pcs (l_cluster s) j)" "ctx_done (l_cluster s)"
    using assms(2) by (auto simp: life_inv_def)
  show ?thesis
  proof (cases "l_finish s")
    case FCluster
    obtain c' where c': "cstep\<^sup>*\<^sup>* (l_cluster s) c'" "c_pcs c' j = CReturned"
      using closer_returns [OF creachable_inv j(2)] inv [unfolded life_inv_def] by blast
    obtain t where t: "life_step\<^sup>*\<^sup>* s t" "life_inv t" "l_cluster t = c'" "l_finish t = FCluster" "l_callers t i = CallWaiting"
      using cluster_lifts [OF c'(1) inv refl] FCluster assms(2) by metis
    have "creachable c'" using t(2,3) by (simp add: life_inv_def)
    hence "closer_ok c' j (c_pcs c' j)" using creachable_inv close_inv_def by blast
    hence d: "closer c' = Some j" "ctx_done c'" using c'(2) by (simp_all add: closer_ok_def)
    have "life_step t (finish_clients t)" using drop_all t(3,4) d(1) c'(2) by blast
    hence "can_return i t"
      by (rule can_return_step) (rule idle_returns; simp add: finish_clients_def t(3,5) d(2))
    thus ?thesis by (rule can_return_steps [OF t(1)])
  qed (use idle_returns waited_returns finished_returns assms(2) j(3) in auto)
qed

definition example_life :: life where
  \<comment> \<open>goroutine 1 calls \<^verbatim>\<open>Close\<close> while goroutine 0 may still join\<close>
  "example_life = Close_begin 1 \<lparr>l_cluster = cstart (\<lambda>i. if i = 1 then CStart else JStart), l_registry = newRegistry 1 1 5 [] 10 0,
     l_sweeper = SwWaiting, l_finish = FCluster, l_callers = \<lambda>_. CallStart\<rparr>"

lemma example_life_reachable: "life_reachable example_life" "l_callers example_life 1 = CallWaiting"
proof -
  let ?s = "\<lparr>l_cluster = cstart (\<lambda>i. if i = 1 then CStart else JStart), l_registry = newRegistry 1 1 5 [] 10 0,
     l_sweeper = SwWaiting, l_finish = FCluster, l_callers = \<lambda>_. CallStart\<rparr>"
  have "life_reachable ?s" by (rule life_reachable.start) (simp_all add: newRegistry_def)
  moreover have "life_step ?s (Close_begin 1 ?s)" by (rule call) (simp_all add: cstart_def)
  ultimately show "life_reachable example_life" unfolding example_life_def by (rule life_reachable.step)
  show "l_callers example_life 1 = CallWaiting" by (simp add: example_life_def Close_begin_def)
qed


subsection \<open>Properties\<close>


lemma life_reachable_steps: "life_step\<^sup>*\<^sup>* s t \<Longrightarrow> life_reachable s \<Longrightarrow> life_reachable t"
  by (induction rule: rtranclp_induct) (auto intro: life_reachable.step)


text \<open>
  C30. Closing gets done. In every reachable state in which some caller waits in \<open>Close\<close>, there is a way to go on in which
  that call returns with closing finished: no join, no sweep, and no other caller can block it for good.
\<close>

theorem Close_completes:
  assumes "life_reachable s" "l_callers s i = CallWaiting"
  shows "\<exists>t. life_step\<^sup>*\<^sup>* s t \<and> l_callers t i = CallReturned True"
  using waiting_returns [OF assms] by (simp add: can_return_def)

theorem Close_completes_witness: "\<exists>t. life_step\<^sup>*\<^sup>* example_life t \<and> l_callers t 1 = CallReturned True"
  by (rule Close_completes [OF example_life_reachable])

end
