(* ===== verification/Startup.thy ===== *)
theory Startup
  imports Settings
begin

section \<open>Starting and stopping the process\<close>

text \<open>
  \<^verbatim>\<open>main.go\<close>: \<^verbatim>\<open>run\<close> from the environment to the end of the process, with every early return and the deferred
  clean-up, and \<^verbatim>\<open>joinCluster\<close>; and the settings of the HTTP servers of \<^verbatim>\<open>main.go\<close> and
  \<^verbatim>\<open>internal/proxy/observability.go\<close>. The configuration and the proxy are those of \<open>Settings\<close> and \<open>Construct\<close>. What
  listening, resolving, joining, serving and shutting down return is up to the environment, the record \<open>run_env\<close>. The result
  is what \<^verbatim>\<open>run\<close> does to listeners, servers, the cluster and the proxy, and its error.
\<close>

subsection \<open>Servers\<close>

definition shutdownTimeout :: duration where "shutdownTimeout = 20 * Second"
definition cleanupTimeout :: duration where "cleanupTimeout = 5 * Second"

definition auxiliaryReadTimeout :: duration where "auxiliaryReadTimeout = 15 * Second"
definition auxiliaryWriteTimeout :: duration where "auxiliaryWriteTimeout = 2 * Minute"
definition auxiliaryIdleTimeout :: duration where "auxiliaryIdleTimeout = 30 * Second"

record http_server =
  hs_addr :: string
  hs_patterns :: "string list"
  hs_readHeaderTimeout :: duration
  hs_readTimeout :: duration
  hs_writeTimeout :: duration
  hs_idleTimeout :: duration
  hs_maxHeaderBytes :: int

definition newProxyServer :: "string \<Rightarrow> duration \<Rightarrow> http_server" where
  \<comment> \<open>the handler is the proxy, for every path\<close>
  "newProxyServer address requestLifetime =
     \<lparr>hs_addr = address, hs_patterns = [''/''], hs_readHeaderTimeout = 10 * Second, hs_readTimeout = requestLifetime,
      hs_writeTimeout = requestLifetime, hs_idleTimeout = Minute, hs_maxHeaderBytes = 65536\<rparr>"

definition newAuxiliaryServer :: "string \<Rightarrow> string list \<Rightarrow> http_server" where
  \<comment> \<open>a limit of zero on headers is the default of the library\<close>
  "newAuxiliaryServer addr patterns =
     \<lparr>hs_addr = addr, hs_patterns = patterns, hs_readHeaderTimeout = 10 * Second, hs_readTimeout = auxiliaryReadTimeout,
      hs_writeTimeout = auxiliaryWriteTimeout, hs_idleTimeout = auxiliaryIdleTimeout, hs_maxHeaderBytes = 0\<rparr>"

definition NewMetricsServer :: "string \<Rightarrow> http_server" where
  "NewMetricsServer addr = newAuxiliaryServer addr [''/metrics'']"

definition NewProfileServer :: "string \<Rightarrow> http_server" where
  "NewProfileServer addr =
     newAuxiliaryServer addr [''/debug/pprof/'', ''/debug/pprof/cmdline'', ''/debug/pprof/profile'', ''/debug/pprof/symbol'',
       ''/debug/pprof/trace'']"

record 'c runningServer =
  rn_name :: string
  rn_server :: http_server
  rn_tls :: "'c serverTLS option"

definition request_lifetime :: "'c appConfig \<Rightarrow> duration" where
  "request_lifetime a = c_QueueTimeout (a_proxy a) + c_UpstreamTimeout (a_proxy a) + 5 * Second"

definition wanted_servers :: "'c appConfig \<Rightarrow> 'c runningServer list" where
  \<comment> \<open>the servers of a configuration in the order in which \<^verbatim>\<open>run\<close> listens for them\<close>
  "wanted_servers a =
     [\<lparr>rn_name = ''proxy'', rn_server = newProxyServer (JoinHostPort (a_bindIP a) (Itoa (a_port a))) (request_lifetime a),
       rn_tls = None\<rparr>] @
     (if a_enableMetrics a
      then [\<lparr>rn_name = ''metrics'', rn_server = NewMetricsServer (JoinHostPort (a_bindIP a) (Itoa (a_metricsPort a))), rn_tls = None\<rparr>]
      else []) @
     (if a_enablePprof a
      then [\<lparr>rn_name = ''pprof'', rn_server = NewProfileServer (JoinHostPort (a_bindIP a) (Itoa (a_pprofPort a))), rn_tls = None\<rparr>]
      else []) @
     (if clusteringEnabled a
      then [\<lparr>rn_name = ''cluster peer'',
             rn_server = newProxyServer (JoinHostPort (a_bindIP a) (Itoa (a_clusterPeerPort a))) (request_lifetime a),
             rn_tls = a_clusterServerTLS a\<rparr>]
      else [])"


subsection \<open>Joining\<close>

datatype run_error =
  DotEnvFailed | LogLevelFailed | ConfigFailed config_error | NewFailed new_error | ListenFailed string |
  ResolveFailed | NoAddresses | ClusterFailed | ServeFailed | ShutdownFailed "string list"

definition known_members :: "(string \<Rightarrow> string list option) \<Rightarrow> 'c appConfig \<Rightarrow> run_error + string list" where
  "known_members lookup a =
     (if a_clusterMembers a \<noteq> [] then Inr (a_clusterMembers a)
      else case lookup (a_clusterDNS a) of
        None \<Rightarrow> Inl ResolveFailed
      | Some addresses \<Rightarrow>
          if addresses = [] then Inl NoAddresses
          else Inr (map (\<lambda>ip. JoinHostPort ip (Itoa (a_clusterPort a))) addresses))"

definition cluster_config :: "'c appConfig \<Rightarrow> string list \<Rightarrow> 'c clusterConfig" where
  "cluster_config a members =
     \<lparr>KnownMembers = members, BindAddress = a_bindIP a, Port = a_clusterPort a, PeerPort = a_clusterPeerPort a,
      MaxNodes = a_clusterMaxNodes a, NodeName = a_nodeName a, Secret = a_clusterSecret a, PeerTLS = a_clusterClientTLS a\<rparr>"

datatype dot_env = DotEnvLoaded | DotEnvMissing | DotEnvUnusable

definition loadDotEnv :: "dot_env \<Rightarrow> bool" where
  \<comment> \<open>what \<^verbatim>\<open>godotenv.Load\<close> says, read as success\<close>
  "loadDotEnv r \<longleftrightarrow> r \<noteq> DotEnvUnusable"

definition configureLogger :: "(string \<Rightarrow> bool) \<Rightarrow> environment \<Rightarrow> bool" where
  \<comment> \<open>which levels \<^verbatim>\<open>logrus.ParseLevel\<close> refuses, read as success\<close>
  "configureLogger refuses vars \<longleftrightarrow> \<not> refuses (envString vars ''LOG_LEVEL'' ''info'')"

datatype 'c run_event =
  ProxyCreated | LoggerSet | Listen string | Serve string "'c serverTLS option" | JoinCluster "'c clusterConfig" | ProxyClose duration |
  Shutdown string | CloseListener string

record 'c run_env =
  dotEnv :: dot_env
  parseLevelFails :: "string \<Rightarrow> bool"
  listenFails :: "string \<Rightarrow> bool"
  lookupIP :: "string \<Rightarrow> string list option"
  joinClusterFails :: "'c clusterConfig \<Rightarrow> bool"
  serveErrorEarly :: bool
  signalled :: bool
  closeFails :: bool
  shutdownFails :: "string \<Rightarrow> bool"

definition joinCluster :: "'c run_env \<Rightarrow> 'c appConfig \<Rightarrow> 'c run_event list \<times> run_error option" where
  "joinCluster env a =
     (case known_members (lookupIP env) a of
        Inl e \<Rightarrow> ([], Some e)
      | Inr members \<Rightarrow>
          ([JoinCluster (cluster_config a members)],
           if joinClusterFails env (cluster_config a members) then Some ClusterFailed else None))"


subsection \<open>Run\<close>

fun open_listeners ::
  "('c run_env) \<Rightarrow> 'c runningServer list \<Rightarrow> 'c run_event list \<times> 'c runningServer list \<times> run_error option" where
  \<comment> \<open>the events, the servers that have a listener, and an error\<close>
  "open_listeners env [] = ([], [], None)"
| "open_listeners env (r # rs) =
     (if listenFails env (hs_addr (rn_server r)) then ([], [], Some (ListenFailed (rn_name r)))
      else case open_listeners env rs of (evs, servers, e) \<Rightarrow> (Listen (rn_name r) # evs, r # servers, e))"

definition start_server :: "'c runningServer \<Rightarrow> 'c run_event" where
  "start_server r = Serve (rn_name r) (rn_tls r)"

definition run_cleanup :: "'c runningServer list \<Rightarrow> 'c run_event list" where
  \<comment> \<open>the deferred function\<close>
  "run_cleanup servers = ProxyClose cleanupTimeout # concat (map (\<lambda>r. [Shutdown (rn_name r), CloseListener (rn_name r)]) servers)"

definition run_servers ::
  "'c run_env \<Rightarrow> 'c appConfig \<Rightarrow> 'c runningServer list \<Rightarrow> 'c run_event list \<times> run_error option" where
  \<comment> \<open>once all listeners are there: the peer server and the cluster first, then the others until a signal or an error\<close>
  "run_servers env a servers =
     (case (if clusteringEnabled a
            then (case joinCluster env a of (evs, e) \<Rightarrow>
                    (start_server (last servers) # evs,
                     case e of Some err \<Rightarrow> Some err | None \<Rightarrow> if serveErrorEarly env then Some ServeFailed else None))
            else ([], None)) of (ev1, e1) \<Rightarrow>
        case e1 of
          Some err \<Rightarrow> (ev1, Some err)
        | None \<Rightarrow>
            let ev2 = map start_server (if clusteringEnabled a then butlast servers else servers) in
            if \<not> signalled env then (ev1 @ ev2, Some ServeFailed)
            else
              let failed = (if closeFails env then [''close proxy''] else []) @
                    map (\<lambda>r. ''shutdown '' @ rn_name r @ '' server'') (filter (\<lambda>r. shutdownFails env (rn_name r)) servers)
              in (ev1 @ ev2 @ [ProxyClose shutdownTimeout] @ map (\<lambda>r. Shutdown (rn_name r)) servers,
                  if failed = [] then None else Some (ShutdownFailed failed)))"

definition run ::
  "(string \<Rightarrow> 'a option) \<Rightarrow> string list option \<Rightarrow> time \<Rightarrow> 'c tls_env \<Rightarrow> environment \<Rightarrow> 'c run_env \<Rightarrow>
     'c run_event list \<times> run_error option" where
  \<comment> \<open>\<open>vars\<close> is the environment once \<^verbatim>\<open>.env\<close> is loaded\<close>
  "run resolver inherited now te vars env =
     (if \<not> loadDotEnv (dotEnv env) then ([], Some DotEnvFailed)
      else if \<not> configureLogger (parseLevelFails env) vars then ([], Some LogLevelFailed)
      else case loadConfig te vars of
        Inl e \<Rightarrow> ([], Some (ConfigFailed e))
      | Inr a \<Rightarrow>
          (case New resolver inherited now (a_proxy a) of
             Inl e \<Rightarrow> ([], Some (NewFailed e))
           | Inr p \<Rightarrow>
               (case open_listeners env (wanted_servers a) of (ev1, servers, e1) \<Rightarrow>
                  case e1 of
                    Some err \<Rightarrow> ([ProxyCreated, LoggerSet] @ ev1 @ run_cleanup servers, Some err)
                  | None \<Rightarrow>
                      (case run_servers env a servers of (ev2, e2) \<Rightarrow>
                         ([ProxyCreated, LoggerSet] @ ev1 @ ev2 @ run_cleanup servers, e2)))))"

definition exit_code :: "'c run_event list \<times> run_error option \<Rightarrow> nat" where
  \<comment> \<open>of \<^verbatim>\<open>main\<close>: \<^verbatim>\<open>Fatal\<close> ends the process with 1, after every deferred call of \<^verbatim>\<open>run\<close>\<close>
  "exit_code result = (case snd result of None \<Rightarrow> 0 | Some _ \<Rightarrow> 1)"


subsection \<open>A monitor for what the process holds\<close>

record run_monitor =
  rm_created :: bool
  rm_closed :: bool
  rm_listening :: "string set"
  rm_serving :: "string set"
  rm_joined :: bool

fun run_step :: "bool \<Rightarrow> 'c run_event \<Rightarrow> run_monitor \<Rightarrow> run_monitor option" where
  \<comment> \<open>\<open>None\<close> is a mistake; the first argument says whether clustering is enabled\<close>
  "run_step c ProxyCreated m = (if rm_created m then None else Some (m\<lparr>rm_created := True\<rparr>))"
| "run_step c LoggerSet m = (if rm_created m then Some m else None)"
| "run_step c (Listen n) m = (if n \<in> rm_listening m then None else Some (m\<lparr>rm_listening := insert n (rm_listening m)\<rparr>))"
| "run_step c (Serve n tls) m =
     (if n \<in> rm_listening m \<and> n \<notin> rm_serving m \<and> (c \<and> n \<noteq> ''cluster peer'' \<longrightarrow> rm_joined m)
      then Some (m\<lparr>rm_serving := insert n (rm_serving m)\<rparr>) else None)"
| "run_step c (JoinCluster cc) m =
     (if c \<and> rm_serving m = {''cluster peer''} \<and> \<not> rm_joined m then Some (m\<lparr>rm_joined := True\<rparr>) else None)"
| "run_step c (ProxyClose within) m = (if rm_created m then Some (m\<lparr>rm_closed := True\<rparr>) else None)"
| "run_step c (Shutdown n) m = Some (m\<lparr>rm_serving := rm_serving m - {n}\<rparr>)"
| "run_step c (CloseListener n) m = Some (m\<lparr>rm_listening := rm_listening m - {n}\<rparr>)"

abbreviation run_trace :: "bool \<Rightarrow> 'c run_event list \<Rightarrow> run_monitor \<Rightarrow> run_monitor option" where
  "run_trace c \<equiv> trace_run (run_step c)"

definition run_start :: run_monitor where
  "run_start = \<lparr>rm_created = False, rm_closed = False, rm_listening = {}, rm_serving = {}, rm_joined = False\<rparr>"

abbreviation names :: "'c runningServer list \<Rightarrow> string set" where
  "names rs \<equiv> rn_name ` set rs"

lemma wanted_names: "distinct (map rn_name (wanted_servers a))"
  "clusteringEnabled a \<Longrightarrow> wanted_servers a \<noteq> [] \<and> rn_name (last (wanted_servers a)) = ''cluster peer'' \<and>
     rn_tls (last (wanted_servers a)) = a_clusterServerTLS a"
  by (auto simp: wanted_servers_def)

lemma open_trace:
  assumes "open_listeners env rs = (evs, servers, e)" "distinct (map rn_name rs)" "rm_listening m \<inter> names rs = {}"
  shows "run_trace c evs m = Some (m\<lparr>rm_listening := rm_listening m \<union> names servers\<rparr>) \<and> (e = None \<longrightarrow> servers = rs) \<and>
    (\<forall>x \<in> set evs. \<exists>n. x = Listen n)"
  using assms
proof (induction rs arbitrary: evs servers m)
  case (Cons r rs)
  show ?case
  proof (cases "listenFails env (hs_addr (rn_server r))")
    case False
    obtain evs' servers' where o: "open_listeners env rs = (evs', servers', e)" "evs = Listen (rn_name r) # evs'" "servers = r # servers'"
      using Cons.prems(1) False by (auto split: prod.splits)
    let ?m = "m\<lparr>rm_listening := insert (rn_name r) (rm_listening m)\<rparr>"
    have "rm_listening ?m \<inter> names rs = {}" using Cons.prems(2,3) by auto
    from Cons.IH [OF o(1) _ this] show ?thesis using Cons.prems(2,3) o(2,3) by (auto simp: insert_commute)
  qed (use Cons.prems(1) in auto)
qed simp

lemma start_trace:
  assumes "names rs \<subseteq> rm_listening m" "distinct (map rn_name rs)" "names rs \<inter> rm_serving m = {}" "c \<longrightarrow> rm_joined m"
  shows "run_trace c (map start_server rs) m = Some (m\<lparr>rm_serving := rm_serving m \<union> names rs\<rparr>)"
  using assms
proof (induction rs arbitrary: m)
  case (Cons r rs)
  have "run_trace c (map start_server rs) (m\<lparr>rm_serving := insert (rn_name r) (rm_serving m)\<rparr>) =
    Some (m\<lparr>rm_serving := insert (rn_name r) (rm_serving m) \<union> names rs\<rparr>)"
    using Cons.prems Cons.IH [of "m\<lparr>rm_serving := insert (rn_name r) (rm_serving m)\<rparr>"] by auto
  thus ?case using Cons.prems by (simp add: start_server_def [of r])
qed simp

lemma shutdown_trace:
  "run_trace c (map (\<lambda>r. Shutdown (rn_name r)) rs) m = Some (m\<lparr>rm_serving := rm_serving m - names rs\<rparr>)"
  by (induction rs arbitrary: m) (auto simp: Diff_insert2 [symmetric] insert_commute)

lemma close_all_trace:
  "run_trace c (concat (map (\<lambda>r. [Shutdown (rn_name r), CloseListener (rn_name r)]) rs)) m =
     Some (m\<lparr>rm_listening := rm_listening m - names rs, rm_serving := rm_serving m - names rs\<rparr>)"
  by (induction rs arbitrary: m) (auto simp: Diff_insert2 [symmetric] insert_commute)

lemma cleanup_trace:
  "rm_created m \<Longrightarrow> run_trace c (run_cleanup rs) m =
     Some (m\<lparr>rm_closed := True, rm_listening := rm_listening m - names rs, rm_serving := rm_serving m - names rs\<rparr>)"
  by (simp add: run_cleanup_def close_all_trace)

lemma join_trace:
  assumes "clusteringEnabled a" "rs = wanted_servers a" "rm_listening m = names rs" "rm_serving m = {}" "\<not> rm_joined m"
    and "joinCluster env a = (evs, e)"
  shows "\<exists>m'. run_trace True (start_server (last rs) # evs) m = Some m' \<and> rm_serving m' = {''cluster peer''} \<and>
    rm_listening m' = names rs \<and> rm_created m' = rm_created m \<and> (e = None \<longrightarrow> rm_joined m')"
proof -
  have l: "last rs \<in> set rs" "rn_name (last rs) = ''cluster peer''" using wanted_names(2) [OF assms(1)] assms(2) by auto
  hence "''cluster peer'' \<in> names rs" by force
  thus ?thesis using assms l by (auto simp: start_server_def joinCluster_def split: sum.splits if_splits)
qed

lemma serve_rest_trace:
  fixes rest rs :: "'c runningServer list"
  assumes "rm_listening m = N" "names rest \<subseteq> N" "distinct (map rn_name rest)" "names rest \<inter> rm_serving m = {}"
    and "c \<longrightarrow> rm_joined m" "rm_created m" "rm_serving m \<subseteq> N"
  shows "\<exists>m'. run_trace c (map start_server rest @
      (if b then [ProxyClose shutdownTimeout] @ map (\<lambda>r. Shutdown (rn_name r)) rs else [])) m = Some m' \<and>
    rm_listening m' = N \<and> rm_serving m' \<subseteq> N \<and> rm_created m'"
  using assms start_trace [of rest m c] by (auto simp: trace_run_append shutdown_trace)

lemma run_servers_trace:
  assumes "rs = wanted_servers a" "rm_listening m = names rs" "rm_serving m = {}" "\<not> rm_joined m" "rm_created m"
    and "run_servers env a rs = (evs, e)"
  shows "\<exists>m'. run_trace (clusteringEnabled a) evs m = Some m' \<and> rm_listening m' = names rs \<and> rm_serving m' \<subseteq> names rs \<and> rm_created m'"
proof (cases "clusteringEnabled a")
  case True
  obtain ev1 e1 where j: "joinCluster env a = (ev1, e1)" by (rule prod.exhaust)
  obtain m1 where m1: "run_trace True (start_server (last rs) # ev1) m = Some m1" "rm_serving m1 = {''cluster peer''}"
    "rm_listening m1 = names rs" "rm_created m1" "e1 = None \<longrightarrow> rm_joined m1"
    using join_trace [OF True assms(1-4) j] assms(5) by auto
  have w: "rs \<noteq> []" "rn_name (last rs) = ''cluster peer''" "distinct (map rn_name rs)"
    using wanted_names [of a] True assms(1) by auto
  then obtain fr z where rs: "rs = fr @ [z]" "rn_name z = ''cluster peer''" by (cases rs rule: rev_cases) auto
  hence d: "distinct (map rn_name fr)" "''cluster peer'' \<notin> names fr" "names fr \<subseteq> names rs" "''cluster peer'' \<in> names rs"
    using w(3) by auto
  let ?more = "map start_server fr @ (if signalled env then [ProxyClose shutdownTimeout] @ map (\<lambda>r. Shutdown (rn_name r)) rs else [])"
  have "evs = start_server (last rs) # ev1 \<or> e1 = None \<and> evs = (start_server (last rs) # ev1) @ ?more"
    using assms(6) True j rs(1) by (auto simp: run_servers_def Let_def split: option.splits if_splits)
  thus ?thesis
  proof (elim disjE conjE)
    assume "evs = start_server (last rs) # ev1"
    thus ?thesis using m1 d(4) True by auto
  next
    assume e: "e1 = None" "evs = (start_server (last rs) # ev1) @ ?more"
    obtain m2 where m2: "run_trace True ?more m1 = Some m2" "rm_listening m2 = names rs" "rm_serving m2 \<subseteq> names rs" "rm_created m2"
      using serve_rest_trace [of m1 "names rs" fr True "signalled env" rs] m1 d e(1) by auto
    have "run_trace True evs m = Some m2" unfolding e(2) by (subst trace_run_append) (simp only: m1(1) option.case m2(1))
    thus ?thesis using m2 True by simp
  qed
next
  case False
  have "evs = map start_server rs @ (if signalled env then [ProxyClose shutdownTimeout] @ map (\<lambda>r. Shutdown (rn_name r)) rs else [])"
    using assms(6) False by (auto simp: run_servers_def Let_def split: if_splits)
  thus ?thesis
    using serve_rest_trace [of m "names rs" rs False "signalled env" rs] assms wanted_names(1) [of a] False by simp
qed

definition run_clean :: "run_monitor \<Rightarrow> bool" where
  "run_clean m \<longleftrightarrow> rm_listening m = {} \<and> rm_serving m = {} \<and> (rm_created m \<longrightarrow> rm_closed m)"

definition clusters :: "'c tls_env \<Rightarrow> environment \<Rightarrow> bool" where
  \<comment> \<open>whether the configuration loads and enables clustering\<close>
  "clusters te vars \<longleftrightarrow> (case loadConfig te vars of Inl _ \<Rightarrow> False | Inr a \<Rightarrow> clusteringEnabled a)"

text \<open>
  C16. However the process ends, by a signal or by an error at any point of its start, it leaves nothing behind: every
  listener it opened is closed, every server it started is shut down, and the proxy it built is closed. In between it
  starts a server only on its open listener and only once; with clustering, it joins the cluster only while the server for
  peers is up and before any other server takes requests.
\<close>

theorem run_orderly:
  "\<exists>m. run_trace (clusters te vars) (fst (run resolver inherited now te vars env)) run_start = Some m \<and> run_clean m"
proof (cases "loadDotEnv (dotEnv env) \<and> configureLogger (parseLevelFails env) vars \<and>
    (\<exists>a p. loadConfig te vars = Inr a \<and> New resolver inherited now (a_proxy a) = Inr p)")
  case False
  hence "fst (run resolver inherited now te vars env) = []" by (auto simp: run_def split: sum.split)
  thus ?thesis by (simp add: run_clean_def run_start_def)
next
  case True
  then obtain a p where a: "loadDotEnv (dotEnv env)" "configureLogger (parseLevelFails env) vars" "loadConfig te vars = Inr a"
    "New resolver inherited now (a_proxy a) = Inr p" by blast
  have c: "clusters te vars = clusteringEnabled a" by (simp add: clusters_def a(3))
  let ?m0 = "run_start\<lparr>rm_created := True\<rparr>"
  obtain ev1 servers e1 where o: "open_listeners env (wanted_servers a) = (ev1, servers, e1)" by (rule prod_cases3)
  have t1: "run_trace (clusteringEnabled a) ev1 ?m0 = Some (?m0\<lparr>rm_listening := names servers\<rparr>)" "e1 = None \<longrightarrow> servers = wanted_servers a"
    using open_trace [OF o wanted_names(1), of ?m0] by (auto simp: run_start_def)
  show ?thesis
  proof (cases e1)
    case (Some err)
    thus ?thesis using a o t1(1) unfolding c
      by (simp add: run_def trace_run_append cleanup_trace run_clean_def) (simp add: run_start_def)
  next
    case None
    obtain ev2 e2 where r: "run_servers env a servers = (ev2, e2)" by (rule prod.exhaust)
    obtain m2 where m2: "run_trace (clusteringEnabled a) ev2 (?m0\<lparr>rm_listening := names servers\<rparr>) = Some m2"
      "rm_listening m2 = names servers" "rm_serving m2 \<subseteq> names servers" "rm_created m2"
      using run_servers_trace [OF _ _ _ _ _ r, of "?m0\<lparr>rm_listening := names servers\<rparr>"] t1(2) None by (auto simp: run_start_def)
    have "fst (run resolver inherited now te vars env) = [ProxyCreated, LoggerSet] @ ev1 @ ev2 @ run_cleanup servers"
      using a o r None by (simp add: run_def)
    moreover have "run_step (clusteringEnabled a) ProxyCreated run_start = Some ?m0" by (simp add: run_start_def)
    ultimately show ?thesis using t1(1) m2 unfolding c by (auto simp: trace_run_append cleanup_trace run_clean_def)
  qed
qed


subsection \<open>What peers need\<close>

lemma open_prefix: "open_listeners env rs = (evs, servers, e) \<Longrightarrow> (e = None \<longrightarrow> servers = rs) \<and> (\<forall>x \<in> set evs. \<exists>n. x = Listen n)"
  by (induction rs arbitrary: evs servers) (auto split: prod.splits if_splits)

lemma run_servers_events:
  assumes "x \<in> set (fst (run_servers env a servers))" "servers \<noteq> []"
  shows "(\<exists>r \<in> set servers. x = start_server r) \<or> (clusteringEnabled a \<and> (\<exists>members. x = JoinCluster (cluster_config a members))) \<or>
    (\<exists>d. x = ProxyClose d) \<or> (\<exists>n. x = Shutdown n)"
  using assms
  by (auto simp: run_servers_def joinCluster_def Let_def split: prod.splits sum.splits option.splits if_splits dest: in_set_butlastD)

lemma run_events:
  assumes "x \<in> set (fst (run resolver inherited now te vars env))" "x = Serve n t \<or> x = JoinCluster cc"
  obtains a where "loadConfig te vars = Inr a"
    "x = Serve n t \<Longrightarrow> \<exists>r \<in> set (wanted_servers a). n = rn_name r \<and> t = rn_tls r"
    "x = JoinCluster cc \<Longrightarrow> clusteringEnabled a \<and> (\<exists>members. cc = cluster_config a members)"
proof -
  obtain a p where a: "loadConfig te vars = Inr a" "New resolver inherited now (a_proxy a) = Inr p"
    "loadDotEnv (dotEnv env)" "configureLogger (parseLevelFails env) vars"
    using assms(1) by (auto simp: run_def split: if_splits sum.splits)
  obtain ev1 servers e1 where o: "open_listeners env (wanted_servers a) = (ev1, servers, e1)" by (rule prod_cases3)
  have nc: "x \<notin> set (run_cleanup servers)" "x \<notin> set ev1" "x \<noteq> ProxyCreated" "x \<noteq> LoggerSet"
    using assms(2) open_prefix [OF o] by (auto simp: run_cleanup_def)
  have e1: "e1 = None" and x: "x \<in> set (fst (run_servers env a servers))"
    using assms(1) a o nc by (auto simp: run_def split: option.splits prod.splits)
  have s: "servers = wanted_servers a" using open_prefix [OF o] e1 by simp
  have "servers \<noteq> []" by (simp add: s wanted_servers_def)
  from run_servers_events [OF x this] assms(2) show ?thesis using that [of a] a(1) s by (auto simp: start_server_def)
qed

lemma loaded_cluster_tls:
  assumes "loadConfig te vars = Inr a" "clusteringEnabled a"
  obtains server peer caFile certFile keyFile where "a_clusterServerTLS a = Some server" "a_clusterClientTLS a = Some peer"
    "loadClusterTLS te caFile certFile keyFile = Inr (server, peer)" "32 \<le> RuneCount (a_clusterSecret a)"
proof -
  have "cluster_tls te vars True = Inr (a_clusterServerTLS a, a_clusterClientTLS a)" "a_clusterSecret a = vars ''CLUSTER_SECRET''"
    using loadConfig_fields [OF assms(1)] assms(2) by auto
  moreover from this(1) obtain server peer where
    "loadClusterTLS te (TrimSpace (vars ''CLUSTER_CA_FILE'')) (TrimSpace (vars ''CLUSTER_CERT_FILE'')) (TrimSpace (vars ''CLUSTER_KEY_FILE'')) = Inr (server, peer)"
    "a_clusterServerTLS a = Some server" "a_clusterClientTLS a = Some peer" "32 \<le> RuneCount (vars ''CLUSTER_SECRET'')"
    by (auto simp: cluster_tls_def split: if_splits elim!: and_thenE)
  ultimately show ?thesis using that by simp
qed

lemma wanted_peer_server:
  "r \<in> set (wanted_servers a) \<Longrightarrow> rn_name r = ''cluster peer'' \<Longrightarrow> clusteringEnabled a \<and> rn_tls r = a_clusterServerTLS a"
  by (auto simp: wanted_servers_def split: if_splits)

definition authenticated :: "'c tls_env \<Rightarrow> 'c serverTLS option \<Rightarrow> bool" where
  \<comment> \<open>TLS 1.3, peers must show a certificate of the configured authority, and the own certificate is one for both roles\<close>
  "authenticated te t \<longleftrightarrow>
     (\<exists>sv cert leaf rest. t = Some sv \<and> sv_requireClientCert sv \<and> sv_MinVersion sv = VersionTLS13 \<and> sv_Certificates sv = [cert] \<and>
        Leaf cert = Some leaf \<and> (\<forall>u. verifyChain te (sv_ClientCAs sv) rest u leaf))"

text \<open>
  C4. Traffic between peers is authenticated whatever the environment says: if the process ever serves the port for peers,
  it does so with TLS 1.3 and requires a certificate of the configured authority, and its own certificate was verified
  against that authority for both roles; and it joins a cluster only with a secret of at least 32 characters and with
  settings that pass all checks of \<open>JoinCluster\<close>, except that \<open>BIND_IP\<close> may turn out not to be an IP address.
\<close>

theorem cluster_traffic_authenticated:
  assumes "run resolver inherited now te vars env = (evs, e)"
  shows "(Serve ''cluster peer'' t \<in> set evs \<longrightarrow> authenticated te t) \<and>
    (JoinCluster cc \<in> set evs \<longrightarrow> 32 \<le> RuneCount (Secret cc) \<and>
       join_check cc = (if BindAddress cc \<noteq> [] \<and> \<not> ParseIP_ok (BindAddress cc) then Some BadBindAddress else None))"
proof (intro conjI impI)
  assume "Serve ''cluster peer'' t \<in> set evs"
  hence s: "Serve ''cluster peer'' t \<in> set (fst (run resolver inherited now te vars env))" using assms by simp
  obtain a where a1: "loadConfig te vars = Inr a" "\<exists>r \<in> set (wanted_servers a). ''cluster peer'' = rn_name r \<and> t = rn_tls r"
    by (rule run_events [OF s disjI1 [OF refl]]) simp
  then obtain r where a: "loadConfig te vars = Inr a" "r \<in> set (wanted_servers a)" "''cluster peer'' = rn_name r" "t = rn_tls r" by blast
  have c: "clusteringEnabled a" "t = a_clusterServerTLS a" using wanted_peer_server [OF a(2) a(3) [symmetric]] a(4) by simp_all
  obtain server peer ca cf kf where l: "a_clusterServerTLS a = Some server" "loadClusterTLS te ca cf kf = Inr (server, peer)"
    using loaded_cluster_tls [OF a(1) c(1)] by metis
  from l(2) show "authenticated te t"
    by (rule loadClusterTLS_verified) (use c(2) l(1) in \<open>auto simp: authenticated_def\<close>)
next
  assume "JoinCluster cc \<in> set evs"
  hence j: "JoinCluster cc \<in> set (fst (run resolver inherited now te vars env))" using assms by simp
  obtain a members where a: "loadConfig te vars = Inr a" "clusteringEnabled a" "cc = cluster_config a members"
    by (rule run_events [OF j disjI2 [OF refl]]) blast
  obtain server peer ca cf kf where l: "a_clusterClientTLS a = Some peer" "loadClusterTLS te ca cf kf = Inr (server, peer)"
    "32 \<le> RuneCount (a_clusterSecret a)" using loaded_cluster_tls [OF a(1,2)] by metis
  have tls: "newPeerHTTPTransport (Some peer) = Inr (peer_settings peer)" using l(2) by (rule loadClusterTLS_verified)
  note n = loadConfig_numbers [OF a(1)]
  show "32 \<le> RuneCount (Secret cc)" using l(3) a(3) by (simp add: cluster_config_def)
  show "join_check cc = (if BindAddress cc \<noteq> [] \<and> \<not> ParseIP_ok (BindAddress cc) then Some BadBindAddress else None)"
    using n(1,5) l(1,3) tls a(3) by (simp add: join_check_def cluster_config_def clusterSecretKey_def ports_ok_def)
qed

definition example_vars :: environment where
  "example_vars name =
     (if name = ''CLUSTER_DNS'' then ''proxies.local'' else if name = ''CLUSTER_SECRET'' then replicate 32 CHR ''s''
      else if name \<in> {''CLUSTER_CA_FILE'', ''CLUSTER_CERT_FILE'', ''CLUSTER_KEY_FILE''} then ''file.pem'' else [])"

definition example_tls :: "string tls_env" where
  "example_tls =
     \<lparr>readFile = Some, appendCerts = (\<lambda>_. True), loadKeyPair = (\<lambda>_ _. Some \<lparr>Leaf = None, Certificate = [''leaf'']\<rparr>),
      parseCertificate = Some, verifyChain = (\<lambda>_ _ _ leaf. leaf = ''leaf'')\<rparr>"

definition example_process :: "string run_env" where
  "example_process =
     \<lparr>dotEnv = DotEnvMissing, parseLevelFails = (\<lambda>level. level \<noteq> ''info''), listenFails = (\<lambda>_. False), lookupIP = (\<lambda>_. Some [''10.0.0.1'']),
      joinClusterFails = (\<lambda>_. False), serveErrorEarly = False, signalled = True, closeFails = False, shutdownFails = (\<lambda>_. False)\<rparr>"

lemma example_loads:
  obtains a where "loadConfig example_tls example_vars = Inr a" "clusteringEnabled a" "a_clusterMembers a = []"
    "a_bindIP a = ''0.0.0.0''" "c_OutboundIP (a_proxy a) = []" "c_GlobalOverrides (a_proxy a) = []"
proof -
  have e: "TrimSpace [] = []" "TrimSpace ''file.pem'' = ''file.pem''" "TrimSpace ''proxies.local'' = ''proxies.local''"
    "splitNonempty [] = []" "RuneCount (replicate 32 CHR ''s'') = 32"
    by code_simp+
  have n: "envInt64 example_vars name fallback lo hi = Inr fallback" "envBool example_vars name b = Inr b"
    if "name \<notin> {''CLUSTER_DNS'', ''CLUSTER_SECRET'', ''CLUSTER_CA_FILE'', ''CLUSTER_CERT_FILE'', ''CLUSTER_KEY_FILE''}" for name fallback lo hi b
    using that by (simp_all add: envInt64_def envBool_def example_vars_def)
  have l: "\<exists>server client. loadClusterTLS example_tls ''file.pem'' ''file.pem'' ''file.pem'' = Inr (server, client)"
    by (simp add: loadClusterTLS_def verifyClusterCertificate_def example_tls_def and_then_def)
  have v: "example_vars ''CLUSTER_DNS'' = ''proxies.local''" "example_vars ''CLUSTER_SECRET'' = replicate 32 CHR ''s''"
    "example_vars ''CLUSTER_CA_FILE'' = ''file.pem''" "example_vars ''CLUSTER_CERT_FILE'' = ''file.pem''"
    "example_vars ''CLUSTER_KEY_FILE'' = ''file.pem''" "example_vars ''CLUSTER_MEMBERS'' = []" "example_vars ''BIND_IP'' = []"
    "example_vars ''OUTBOUND_IP'' = []" "example_vars ''BOT_RATELIMIT_OVERRIDES'' = []"
    by (simp_all add: example_vars_def)
  from l obtain server client where "loadClusterTLS example_tls ''file.pem'' ''file.pem'' ''file.pem'' = Inr (server, client)" by blast
  hence "\<exists>a. loadConfig example_tls example_vars = Inr a \<and> clusteringEnabled a \<and> a_clusterMembers a = [] \<and>
    a_bindIP a = ''0.0.0.0'' \<and> c_OutboundIP (a_proxy a) = [] \<and> c_GlobalOverrides (a_proxy a) = []"
    by (simp add: loadConfig_def envDurationMilliseconds_def envInt_def n v e and_then_def cluster_tls_def clusteringEnabled_def envString_def)
  thus ?thesis using that by blast
qed

lemma open_all: "(\<And>addr. \<not> listenFails env addr) \<Longrightarrow> \<exists>evs. open_listeners env rs = (evs, rs, None)"
  by (induction rs) auto

lemma example_process_events:
  "\<exists>t cc. {Serve ''cluster peer'' t, JoinCluster cc} \<subseteq> set (fst (run (\<lambda>_. None :: unit option) None 0 example_tls example_vars example_process)) \<and>
     BindAddress cc = ''0.0.0.0''"
proof -
  obtain a where a: "loadConfig example_tls example_vars = Inr a" "clusteringEnabled a" "a_clusterMembers a = []"
    "a_bindIP a = ''0.0.0.0''" "c_OutboundIP (a_proxy a) = []" "c_GlobalOverrides (a_proxy a) = []" by (rule example_loads)
  have "\<exists>p. New (\<lambda>_. None :: unit option) None 0 (a_proxy a) = Inr p"
    by (rule New_succeeds [OF loadConfig_numbers(3) [OF a(1)] a(5,6)])
  moreover obtain ev where "open_listeners example_process (wanted_servers a) = (ev, wanted_servers a, None)"
    using open_all [of example_process "wanted_servers a"] by (auto simp: example_process_def)
  moreover have "start_server (last (wanted_servers a)) = Serve ''cluster peer'' (a_clusterServerTLS a)"
    using wanted_names(2) [OF a(2)] by (simp add: start_server_def)
  ultimately show ?thesis
    using a by (auto simp: run_def run_servers_def joinCluster_def known_members_def cluster_config_def example_process_def Let_def
        loadDotEnv_def configureLogger_def envString_def example_vars_def)
qed

theorem cluster_traffic_authenticated_witness:
  "\<exists>evs e t cc. run (\<lambda>_. None :: unit option) None 0 example_tls example_vars example_process = (evs, e) \<and>
     Serve ''cluster peer'' t \<in> set evs \<and> JoinCluster cc \<in> set evs \<and> authenticated example_tls t \<and>
     32 \<le> RuneCount (Secret cc) \<and> join_check cc = None"
proof -
  obtain evs e where r: "run (\<lambda>_. None :: unit option) None 0 example_tls example_vars example_process = (evs, e)" by (rule prod.exhaust)
  obtain t cc where x: "Serve ''cluster peer'' t \<in> set evs" "JoinCluster cc \<in> set evs" "BindAddress cc = ''0.0.0.0''"
    using example_process_events unfolding r by auto
  have "ParseIP_ok ''0.0.0.0''" by code_simp
  thus ?thesis using cluster_traffic_authenticated [OF r, of t cc] r x by auto
qed

end
