(* ===== verification/Flight.thy ===== *)
theory Flight
  imports Transport Server "HOL-Library.Multiset"
begin

section \<open>Many requests at once\<close>

text \<open>
  The programs of single requests, \<open>RoundTrip\<close> of \<open>Transport\<close> and \<open>ServeHTTP\<close> of \<open>Server\<close>, run by any number of goroutines
  against what they share: the guard of invalid responses and the budget of requests in flight. Each
  goroutine does what its trace says; the events that touch the shared state are executed on it, in any
  interleaving. What holds for one trace (its monitor accepts it) gives what holds for all of them together.
\<close>

subsection \<open>Borrowing\<close>

text \<open>
  What a trace takes and gives back, seen from outside: \<open>holds\<close> reads the state of the monitor. The locale follows the
  set of goroutines that hold the thing: an event that takes it comes from one that does not hold it, an
  event that gives it back from one that does, and a goroutine that has ended holds nothing.
\<close>

definition pass_on :: "('e \<Rightarrow> bool) \<Rightarrow> ('e \<Rightarrow> bool) \<Rightarrow> nat \<Rightarrow> 'e \<Rightarrow> nat set \<Rightarrow> nat set" where
  "pass_on takes gives i e own = (if takes e then insert i own else if gives e then own - {i} else own)"

definition follows :: "(nat \<Rightarrow> 'e \<Rightarrow> 'm \<Rightarrow> 'm option) \<Rightarrow> ('m \<Rightarrow> bool) \<Rightarrow> (nat \<Rightarrow> 'e list) \<Rightarrow> nat set \<Rightarrow> bool" where
  \<comment> \<open>goroutine \<open>i\<close> still has to do \<open>todo i\<close>, and those in \<open>own\<close> hold the thing\<close>
  "follows mstep holds todo own \<longleftrightarrow>
     (\<forall>i. \<exists>m m'. trace_run (mstep i) (todo i) m = Some m' \<and> \<not> holds m' \<and> (i \<in> own \<longleftrightarrow> holds m))"

locale borrowing =
  fixes mstep :: "nat \<Rightarrow> 'e \<Rightarrow> 'm \<Rightarrow> 'm option"
    and holds :: "'m \<Rightarrow> bool"
    and takes gives :: "'e \<Rightarrow> bool"
  assumes takes_holds: "mstep i e m = Some m' \<Longrightarrow> takes e \<Longrightarrow> \<not> holds m \<and> holds m'"
    and gives_holds: "mstep i e m = Some m' \<Longrightarrow> gives e \<Longrightarrow> holds m \<and> \<not> holds m'"
    and keeps_holds: "mstep i e m = Some m' \<Longrightarrow> \<not> takes e \<Longrightarrow> \<not> gives e \<Longrightarrow> holds m' = holds m"
begin

lemma follows_start:
  assumes "\<And>i. \<exists>m'. trace_run (mstep i) (todo i) m = Some m' \<and> \<not> holds m'" "\<not> holds m"
  shows "follows mstep holds todo {}"
  unfolding follows_def
proof
  fix i
  show "\<exists>m m'. trace_run (mstep i) (todo i) m = Some m' \<and> \<not> holds m' \<and> (i \<in> {} \<longleftrightarrow> holds m)"
    using assms(1) [of i] assms(2) by blast
qed

lemma follows_step:
  assumes "follows mstep holds todo own" "todo i = e # es"
  shows "follows mstep holds (todo(i := es)) (pass_on takes gives i e own)" "takes e \<Longrightarrow> i \<notin> own" "gives e \<Longrightarrow> i \<in> own"
proof -
  obtain m m' where m: "trace_run (mstep i) (e # es) m = Some m'" "\<not> holds m'" "i \<in> own \<longleftrightarrow> holds m"
    using assms unfolding follows_def by metis
  then obtain m1 where m1: "mstep i e m = Some m1" "trace_run (mstep i) es m1 = Some m'" by (auto split: option.splits)
  have h: "i \<in> pass_on takes gives i e own \<longleftrightarrow> holds m1"
    using takes_holds [OF m1(1)] gives_holds [OF m1(1)] keeps_holds [OF m1(1)] m(3) by (auto simp: pass_on_def)
  have "j \<in> pass_on takes gives i e own \<longleftrightarrow> j \<in> own" if "j \<noteq> i" for j using that by (auto simp: pass_on_def)
  thus "follows mstep holds (todo(i := es)) (pass_on takes gives i e own)"
    using assms(1) m1(2) m(2) h unfolding follows_def by (metis fun_upd_apply)
  show "takes e \<Longrightarrow> i \<notin> own" "gives e \<Longrightarrow> i \<in> own"
    using takes_holds [OF m1(1)] gives_holds [OF m1(1)] m(3) by auto
qed

lemma follows_needs:
  assumes "follows mstep holds todo own" "todo i = e # es" "\<And>m m'. mstep i e m = Some m' \<Longrightarrow> holds m"
  shows "i \<in> own"
proof -
  obtain m m' where m: "trace_run (mstep i) (e # es) m = Some m'" "i \<in> own \<longleftrightarrow> holds m"
    using assms(1,2) unfolding follows_def by metis
  thus ?thesis using assms(3) [of m] by (auto split: option.splits)
qed

lemma follows_end: "follows mstep holds todo own \<Longrightarrow> todo i = [] \<Longrightarrow> i \<notin> own"
  unfolding follows_def by (metis option.inject trace_run.simps(1))

lemma follows_all_end: "follows mstep holds todo own \<Longrightarrow> (\<And>i. todo i = []) \<Longrightarrow> own = {}"
  using follows_end by blast

end

fun is_complete :: "rt_event \<Rightarrow> bool" where
  "is_complete (Complete b) = True"
| "is_complete e = False"

interpretation reservation: borrowing "\<lambda>i. monitor_step (ia i)" m_reserved "\<lambda>e. e = Reserve" is_complete for ia
proof
  fix i e m m'
  assume s: "monitor_step (ia i) e m = Some m'"
  show "e = Reserve \<Longrightarrow> \<not> m_reserved m \<and> m_reserved m'" using s by (auto split: if_splits)
  show "is_complete e \<Longrightarrow> m_reserved m \<and> \<not> m_reserved m'" using s by (cases e) (auto split: if_splits)
  show "e \<noteq> Reserve \<Longrightarrow> \<not> is_complete e \<Longrightarrow> m_reserved m' = m_reserved m" using s by (cases e) (auto split: if_splits)
qed

interpretation slot: borrowing "\<lambda>i. serve_step" "\<lambda>m. HeldSlot \<in> set (fst m)" "\<lambda>e. e = TakeSlot" "\<lambda>e. e = GiveSlot"
proof
  fix i :: nat and e m m'
  assume s: "serve_step e m = Some m'"
  obtain st n where m: "m = (st, n)" by (cases m)
  show "e = TakeSlot \<Longrightarrow> HeldSlot \<notin> set (fst m) \<and> HeldSlot \<in> set (fst m')" using s m by (auto split: if_splits)
  show "e = GiveSlot \<Longrightarrow> HeldSlot \<in> set (fst m) \<and> HeldSlot \<notin> set (fst m')" using s m by (auto split: if_splits)
  show "e \<noteq> TakeSlot \<Longrightarrow> e \<noteq> GiveSlot \<Longrightarrow> (HeldSlot \<in> set (fst m')) = (HeldSlot \<in> set (fst m))"
    using s m by (cases e) (auto split: if_splits list.splits held_thing.splits)
qed


subsection \<open>Requests and the guard of invalid responses\<close>

text \<open>
  A reservation is executed on the guard at the moment the goroutine makes it and has to be granted there (the trace of a request
  that is refused has no \<open>Reserve\<close>); \<open>f_since\<close> is when. A call of \<^verbatim>\<open>complete\<close> reads its clock after the reservation. Nothing
  is assumed of the guard when it is called.
\<close>

record flight =
  f_todo :: "nat \<Rightarrow> rt_event list"
  f_guard :: guard_sys
  f_since :: "nat \<Rightarrow> time option"

inductive flight_step :: "flight \<Rightarrow> flight \<Rightarrow> bool" where
  tick: "clock (f_guard s) \<le> c \<Longrightarrow> flight_step s (s\<lparr>f_guard := (f_guard s)\<lparr>clock := c\<rparr>\<rparr>)"
| look: "t \<le> clock (f_guard s) \<Longrightarrow>
    flight_step s (s\<lparr>f_guard := (f_guard s)\<lparr>grd := fst (available (grd (f_guard s)) t)\<rparr>\<rparr>)"
| refused: "\<lbrakk>t \<le> clock (f_guard s); guard_reserve (grd (f_guard s)) t = (g, False)\<rbrakk> \<Longrightarrow>
    flight_step s (s\<lparr>f_guard := (f_guard s)\<lparr>grd := g\<rparr>\<rparr>)"
| reserved: "\<lbrakk>f_todo s i = Reserve # es; t \<le> clock (f_guard s); guard_reserve (grd (f_guard s)) t = (g, True)\<rbrakk> \<Longrightarrow>
    flight_step s
      \<lparr>f_todo = (f_todo s)(i := es),
       f_guard = (f_guard s)\<lparr>grd := g, pending := clock (f_guard s) # pending (f_guard s)\<rparr>,
       f_since = (f_since s)(i \<mapsto> clock (f_guard s))\<rparr>"
| completed: "\<lbrakk>f_todo s i = Complete b # es; t \<le> clock (f_guard s); \<And>c. f_since s i = Some c \<Longrightarrow> c \<le> t\<rbrakk> \<Longrightarrow>
    flight_step s
      \<lparr>f_todo = (f_todo s)(i := es),
       f_guard = (f_guard s)\<lparr>grd := Guard.complete (grd (f_guard s)) t b,
         pending := (case f_since s i of None \<Rightarrow> pending (f_guard s) | Some c \<Rightarrow> remove1 c (pending (f_guard s))),
         recorded := recorded (f_guard s) @ (if b then [t] else [])\<rparr>,
       f_since = (f_since s)(i := None)\<rparr>"
| other: "\<lbrakk>f_todo s i = e # es; e \<noteq> Reserve; \<not> is_complete e\<rbrakk> \<Longrightarrow> flight_step s (s\<lparr>f_todo := (f_todo s)(i := es)\<rparr>)"

definition flight_start :: "int \<Rightarrow> duration \<Rightarrow> time \<Rightarrow> (nat \<Rightarrow> rt_event list) \<Rightarrow> flight" where
  "flight_start l w c todo =
     \<lparr>f_todo = todo, f_guard = \<lparr>grd = newInvalidRequestGuard l w, clock = c, pending = [], recorded = []\<rparr>, f_since = \<lambda>i. None\<rparr>"

record round_trip =
  \<comment> \<open>what one goroutine runs\<close>
  q_config :: rt_config
  q_interaction :: bool
  q_request :: request_env
  q_attempts :: "attempt_env list"

definition request_trace :: "round_trip \<Rightarrow> rt_event list" where
  "request_trace q = fst (RoundTrip (q_config q) (q_interaction q) (q_request q) (q_attempts q))"

definition request_returns :: "round_trip \<Rightarrow> bool" where
  "request_returns q \<longleftrightarrow> snd (RoundTrip (q_config q) (q_interaction q) (q_request q) (q_attempts q)) \<noteq> None"

inductive flight_reachable :: "int \<Rightarrow> duration \<Rightarrow> (nat \<Rightarrow> round_trip) \<Rightarrow> flight \<Rightarrow> bool" for l w q where
  start: "flight_reachable l w q (flight_start l w c (\<lambda>i. request_trace (q i)))"
| step: "flight_reachable l w q s \<Longrightarrow> flight_step s t \<Longrightarrow> flight_reachable l w q t"

definition since_pending :: "(nat \<Rightarrow> time option) \<Rightarrow> time list \<Rightarrow> bool" where
  "since_pending since cs \<longleftrightarrow>
     (\<exists>ps. distinct (map fst ps) \<and> (\<forall>i c. (i, c) \<in> set ps \<longleftrightarrow> since i = Some c) \<and> mset (map snd ps) = mset cs)"

lemma since_pending_add:
  assumes "since_pending since cs" "since i = None"
  shows "since_pending (since(i \<mapsto> c)) (c # cs)"
proof -
  obtain ps where ps: "distinct (map fst ps)" "\<forall>i c. (i, c) \<in> set ps \<longleftrightarrow> since i = Some c" "mset (map snd ps) = mset cs"
    using assms(1) by (auto simp: since_pending_def)
  hence "i \<notin> fst ` set ps" using assms(2) by force
  thus ?thesis using ps assms(2) unfolding since_pending_def by (intro exI [of _ "(i, c) # ps"]) auto
qed

lemma since_pending_remove:
  assumes "since_pending since cs" "since i = Some c"
  shows "since_pending (since(i := None)) (remove1 c cs)" "c \<in> set cs"
proof -
  obtain ps where ps: "distinct (map fst ps)" "\<forall>i c. (i, c) \<in> set ps \<longleftrightarrow> since i = Some c" "mset (map snd ps) = mset cs"
    using assms(1) by (auto simp: since_pending_def)
  have m: "(i, c) \<in> set ps" using ps(2) assms(2) by blast
  show "c \<in> set cs" using m ps(3) by (metis image_eqI set_map set_mset_mset snd_conv)
  have "mset (map snd (remove1 (i, c) ps)) = mset (remove1 c cs)"
    using m ps(3) by (simp add: image_mset_Diff)
  moreover have "distinct (map fst (remove1 (i, c) ps))" using ps(1) by (simp add: distinct_map distinct_remove1 inj_on_def)
  moreover have "(j, d) \<in> set (remove1 (i, c) ps) \<longleftrightarrow> (since(i := None)) j = Some d" for j d
    using ps(1,2) assms(2) by (auto simp: distinct_map)
  ultimately show "since_pending (since(i := None)) (remove1 c cs)" unfolding since_pending_def by blast
qed

lemma since_pending_card: "since_pending since cs \<Longrightarrow> length cs = card {i. since i \<noteq> None}"
proof -
  assume "since_pending since cs"
  then obtain ps where ps: "distinct (map fst ps)" "\<forall>i c. (i, c) \<in> set ps \<longleftrightarrow> since i = Some c" "mset (map snd ps) = mset cs"
    by (auto simp: since_pending_def)
  have "{i. since i \<noteq> None} = set (map fst ps)" using ps(2) by force
  hence "card {i. since i \<noteq> None} = length (map fst ps)" using distinct_card [OF ps(1)] by simp
  thus ?thesis using arg_cong [OF ps(3), of size] by simp
qed

definition flight_inv :: "int \<Rightarrow> duration \<Rightarrow> (nat \<Rightarrow> bool) \<Rightarrow> flight \<Rightarrow> bool" where
  "flight_inv l w ia s \<longleftrightarrow>
     follows (\<lambda>i. monitor_step (ia i)) m_reserved (f_todo s) {i. f_since s i \<noteq> None} \<and>
     guard_reachable l w (f_guard s) \<and> since_pending (f_since s) (pending (f_guard s))"

lemma flight_step_inv:
  assumes "flight_step s t" "flight_inv l w ia s"
  shows "flight_inv l w ia t"
proof -
  let ?own = "{i. f_since s i \<noteq> None}"
  have f: "follows (\<lambda>i. monitor_step (ia i)) m_reserved (f_todo s) ?own"
    and g: "guard_reachable l w (f_guard s)" and p: "since_pending (f_since s) (pending (f_guard s))"
    using assms(2) by (auto simp: flight_inv_def)
  show ?thesis
    using assms(1)
  proof cases
    case (tick c)
    thus ?thesis using f g p guard_reachable.step [OF g guard_step.tick] by (simp add: flight_inv_def)
  next
    case (look t)
    thus ?thesis using f g p guard_reachable.step [OF g guard_step.look] by (simp add: flight_inv_def)
  next
    case (refused t g')
    thus ?thesis using f g p guard_reachable.step [OF g guard_step.reserve_refused] by (simp add: flight_inv_def)
  next
    case (reserved i es t g')
    have i: "f_since s i = None" using reservation.follows_step(2) [OF f reserved(2)] by simp
    have "{j. ((f_since s)(i \<mapsto> clock (f_guard s))) j \<noteq> None} = pass_on (\<lambda>e. e = Reserve) is_complete i Reserve ?own"
      by (auto simp: pass_on_def)
    thus ?thesis
      using reserved reservation.follows_step(1) [OF f reserved(2)] since_pending_add [OF p i]
        guard_reachable.step [OF g guard_step.reserve_ok [OF reserved(3,4)]] by (simp add: flight_inv_def)
  next
    case (completed i b es t)
    obtain c where c: "f_since s i = Some c" using reservation.follows_step(3) [OF f completed(2)] by auto
    have "{j. ((f_since s)(i := None)) j \<noteq> None} = pass_on (\<lambda>e. e = Reserve) is_complete i (Complete b) ?own"
      by (auto simp: pass_on_def)
    thus ?thesis
      using completed c reservation.follows_step(1) [OF f completed(2)] since_pending_remove [OF p c]
        guard_reachable.step [OF g guard_step.complete_one [OF since_pending_remove(2) [OF p c] completed(4) [OF c] completed(3)]]
      by (simp add: flight_inv_def)
  next
    case (other i e es)
    thus ?thesis using g p reservation.follows_step(1) [OF f other(2)] by (simp add: flight_inv_def pass_on_def)
  qed
qed

lemma trace_settles:
  assumes "request_returns q"
  shows "\<exists>m. monitored (q_interaction q) (request_trace q) idle_monitor = Some m \<and> \<not> m_reserved m"
proof -
  obtain evs res where "RoundTrip (q_config q) (q_interaction q) (q_request q) (q_attempts q) = (evs, res)" by (rule prod.exhaust)
  thus ?thesis using RoundTrip_monitored assms by (fastforce simp: request_trace_def request_returns_def owns_nothing_def)
qed

lemma flight_reachable_inv:
  assumes "flight_reachable l w q s" "\<And>i. request_returns (q i)"
  shows "flight_inv l w (\<lambda>i. q_interaction (q i)) s"
  using assms(1)
proof induction
  case (start c)
  have "\<exists>m'. trace_run (monitor_step (q_interaction (q i))) (request_trace (q i)) idle_monitor = Some m' \<and> \<not> m_reserved m'" for i
    by (rule trace_settles [OF assms(2)])
  hence "follows (\<lambda>i. monitor_step (q_interaction (q i))) m_reserved (\<lambda>i. request_trace (q i)) {}"
    by (rule reservation.follows_start) (simp add: idle_monitor_def)
  thus ?case by (simp add: flight_inv_def flight_start_def guard_reachable.start since_pending_def)
next
  case (step s t)
  thus ?case using flight_step_inv by blast
qed

text \<open>
  C7. The budget of invalid responses holds for everything that is sent. However many requests run \<open>RoundTrip\<close>, however they are
  interleaved, and whatever Discord answers: the responses that Discord counts as invalid and that were received in any window are
  at most the limit; at every moment the guard's \<^verbatim>\<open>reserved\<close> is the number of requests that are waiting for a
  response; and when all of them have returned nothing is left reserved, so that no capacity is ever lost.
\<close>

theorem flight_budget:
  assumes "flight_reachable l w q s" "\<And>i. request_returns (q i)" "0 \<le> l"
  shows "int (in_window w T (recorded (f_guard s))) \<le> l \<and>
    reserved (grd (f_guard s)) = int (card {i. f_since s i \<noteq> None}) \<and>
    ((\<forall>i. f_todo s i = []) \<longrightarrow> reserved (grd (f_guard s)) = 0)"
proof -
  have inv: "flight_inv l w (\<lambda>i. q_interaction (q i)) s" by (rule flight_reachable_inv [OF assms(1,2)])
  hence g: "guard_inv l w (f_guard s)" using assms(3) by (auto simp: flight_inv_def intro: guard_reachable_inv)
  hence "int (in_window w T (recorded (f_guard s))) + int (granted_by T (pending (f_guard s))) \<le> l"
    by (simp add: guard_inv_def)
  moreover have r: "reserved (grd (f_guard s)) = int (card {i. f_since s i \<noteq> None})"
    using g inv since_pending_card by (simp add: guard_inv_def flight_inv_def)
  moreover have "{i. f_since s i \<noteq> None} = {}" if "\<forall>i. f_todo s i = []"
    by (rule reservation.follows_all_end [of "\<lambda>i. q_interaction (q i)" "f_todo s"]) (use inv that in \<open>simp_all add: flight_inv_def\<close>)
  ultimately show ?thesis by (metis add_le_same_cancel1 card.empty int_ops(1) le_add_same_cancel1 of_nat_0_le_iff order_trans)
qed

lemma flight_quiet:
  assumes "flight_reachable l w q s" "f_todo s i = xs @ ys" "Reserve \<notin> set xs" "\<forall>e \<in> set xs. \<not> is_complete e"
  shows "flight_reachable l w q (s\<lparr>f_todo := (f_todo s)(i := ys)\<rparr>)"
  using assms
proof (induction xs arbitrary: s)
  case Nil
  thus ?case by (simp add: fun_upd_idem)
next
  case (Cons e xs)
  let ?t = "s\<lparr>f_todo := (f_todo s)(i := xs @ ys)\<rparr>"
  have "flight_step s ?t" using Cons.prems by (intro flight_step.other [where e = e]) auto
  hence "flight_reachable l w q ?t" using Cons.prems(1) by (blast intro: flight_reachable.step)
  hence "flight_reachable l w q (?t\<lparr>f_todo := (f_todo ?t)(i := ys)\<rparr>)" by (rule Cons.IH) (use Cons.prems in simp_all)
  thus ?case by (simp add: fun_upd_def cong: if_cong)
qed

definition example_flight :: "nat \<Rightarrow> round_trip" where
  \<comment> \<open>one request, which Discord answers with a 403\<close>
  "example_flight i =
     \<lparr>q_config = \<lparr>UpstreamTimeout = 10, Disable401Lock = False, queueDeadline = None, MaxRetryBodyBytes = 100, metricsEnabled = False\<rparr>,
      q_interaction = True, q_request = example_request\<lparr>hasMetadata := i = 0\<rparr>, q_attempts = [example_attempt 403 []]\<rparr>"

lemma example_trace:
  "request_trace (example_flight i) =
     (if i = 0 then [QueueStart, Acquire 0, ReplayOpen, BucketReady, AttemptStart] @ Reserve # [Send 0 FirstBody] @ Complete True #
        [Observe 403 [], Release 0, HandOver, ReplayClose] else [])"
  "request_returns (example_flight i)"
  by (simp_all add: request_trace_def request_returns_def example_flight_def round_trip_eval example_request_def
      example_attempt_def all_well_def Let_def status_defs retryAfter_def newBucketState_def time_Sub_def time_zero_def
      minDuration_def maxDuration_def invalidDiscordResponse_def no_replay_def)

lemma one_invalid_response:
  assumes "0 < l" "0 < w"
  shows "\<exists>s. flight_reachable l w example_flight s \<and> (\<forall>i. f_todo s i = []) \<and> recorded (f_guard s) = [0]"
proof -
  define s0 where "s0 = flight_start l w 0 (\<lambda>i. request_trace (example_flight i))"
  define g where "g = (newInvalidRequestGuard l w)\<lparr>reserved := 1\<rparr>"
  have s0: "flight_reachable l w example_flight s0" unfolding s0_def by (rule flight_reachable.start)
  let ?r1 = "[Send 0 FirstBody] @ Complete True # [Observe 403 [], Release 0, HandOver, ReplayClose]"
  let ?r2 = "[Observe 403 [], Release 0, HandOver, ReplayClose]"
  have 1: "flight_reachable l w example_flight (s0\<lparr>f_todo := (f_todo s0)(0 := Reserve # ?r1)\<rparr>)" (is "flight_reachable _ _ _ ?s1")
    by (rule flight_quiet [OF s0, of 0 "[QueueStart, Acquire 0, ReplayOpen, BucketReady, AttemptStart]"])
      (simp_all add: s0_def flight_start_def example_trace)
  have "guard_reserve (newInvalidRequestGuard l w) 0 = (g, True)"
    using assms by (simp add: g_def guard_reserve_def Guard.live_def prune_def advance.simps newInvalidRequestGuard_def Let_def)
  hence "flight_step ?s1 \<lparr>f_todo = (f_todo s0)(0 := ?r1), f_guard = (f_guard s0)\<lparr>grd := g, pending := [0]\<rparr>,
      f_since = (\<lambda>i. None)(0 \<mapsto> 0)\<rparr>" (is "flight_step _ ?s2")
    using flight_step.reserved [of ?s1 0 ?r1 0 g] by (simp add: s0_def flight_start_def)
  with 1 have 2: "flight_reachable l w example_flight ?s2" by (rule flight_reachable.step)
  have 3: "flight_reachable l w example_flight (?s2\<lparr>f_todo := (f_todo ?s2)(0 := Complete True # ?r2)\<rparr>)" (is "flight_reachable _ _ _ ?s3")
    by (rule flight_quiet [OF 2, of 0 "[Send 0 FirstBody]"]) simp_all
  have "flight_step ?s3 \<lparr>f_todo = (f_todo s0)(0 := ?r2),
      f_guard = (f_guard s0)\<lparr>grd := Guard.complete g 0 True, pending := [], recorded := [0]\<rparr>, f_since = (\<lambda>i. None)\<rparr>" (is "flight_step _ ?s4")
    using flight_step.completed [of ?s3 0 True ?r2 0] by (simp add: s0_def flight_start_def fun_upd_idem)
  with 3 have 4: "flight_reachable l w example_flight ?s4" by (rule flight_reachable.step)
  have "flight_reachable l w example_flight (?s4\<lparr>f_todo := (f_todo ?s4)(0 := [])\<rparr>)" (is "flight_reachable _ _ _ ?s5")
    by (rule flight_quiet [OF 4, of 0 ?r2]) simp_all
  moreover have "f_todo ?s5 i = []" for i by (simp add: s0_def flight_start_def example_trace)
  ultimately show ?thesis by (intro exI [of _ ?s5]) simp
qed

theorem flight_budget_witness:
  "\<exists>s. flight_reachable 5 10 example_flight s \<and> recorded (f_guard s) = [0] \<and> reserved (grd (f_guard s)) = 0"
proof -
  obtain s where s: "flight_reachable 5 10 example_flight s" "\<forall>i. f_todo s i = []" "recorded (f_guard s) = [0]"
    using one_invalid_response [of 5 10] by auto
  hence "reserved (grd (f_guard s)) = 0" using flight_budget [OF s(1) example_trace(2), of 0] s(2) by simp
  thus ?thesis using s by blast
qed


subsection \<open>Requests in flight\<close>

record server_flight =
  v_todo :: "nat \<Rightarrow> serve_event list"
  v_budget :: resourceBudget
  v_inside :: "nat set"

inductive server_step :: "server_flight \<Rightarrow> server_flight \<Rightarrow> bool" where
  enter: "\<lbrakk>v_todo s i = TakeSlot # es; reserve (v_budget s) 1 = (b, True)\<rbrakk> \<Longrightarrow>
    server_step s \<lparr>v_todo = (v_todo s)(i := es), v_budget = b, v_inside = insert i (v_inside s)\<rparr>"
| leave: "v_todo s i = GiveSlot # es \<Longrightarrow>
    server_step s \<lparr>v_todo = (v_todo s)(i := es), v_budget = release (v_budget s) 1, v_inside = v_inside s - {i}\<rparr>"
| inside: "\<lbrakk>v_todo s i = e # es; e \<noteq> TakeSlot; e \<noteq> GiveSlot\<rbrakk> \<Longrightarrow> server_step s (s\<lparr>v_todo := (v_todo s)(i := es)\<rparr>)"

inductive server_reachable ::
    "proxyConfig \<Rightarrow> i64 \<Rightarrow> (nat \<Rightarrow> serve_env) \<Rightarrow> (nat \<Rightarrow> http_request) \<Rightarrow> server_flight \<Rightarrow> bool" for cfg l env rq where
  start: "server_reachable cfg l env rq
    \<lparr>v_todo = \<lambda>i. ServeHTTP cfg (env i) (rq i), v_budget = newResourceBudget l, v_inside = {}\<rparr>"
| step: "server_reachable cfg l env rq s \<Longrightarrow> server_step s t \<Longrightarrow> server_reachable cfg l env rq t"

fun forwards :: "serve_event \<Rightarrow> bool" where
  "forwards (ToPeer t h out) = True"
| "forwards (ToDiscord md out) = True"
| "forwards e = False"

definition forwarding :: "server_flight \<Rightarrow> nat set" where
  \<comment> \<open>the requests that are at a reverse proxy\<close>
  "forwarding s = {i. \<exists>e es. v_todo s i = e # es \<and> forwards e}"

definition server_inv :: "i64 \<Rightarrow> server_flight \<Rightarrow> bool" where
  "server_inv l s \<longleftrightarrow>
     follows (\<lambda>i. serve_step) (\<lambda>m. HeldSlot \<in> set (fst m)) (v_todo s) (v_inside s) \<and> finite (v_inside s) \<and>
     budget_wf (v_budget s) \<and> limit (v_budget s) = l \<and> sint (used (v_budget s)) = int (card (v_inside s))"

lemma server_step_inv:
  assumes "server_step s t" "server_inv l s"
  shows "server_inv l t"
proof -
  have f: "follows (\<lambda>i. serve_step) (\<lambda>m. HeldSlot \<in> set (fst m)) (v_todo s) (v_inside s)" and fin: "finite (v_inside s)"
    and b: "budget_wf (v_budget s)" "limit (v_budget s) = l" "sint (used (v_budget s)) = int (card (v_inside s))"
    using assms(2) by (auto simp: server_inv_def)
  have one: "sint (1 :: i64) = 1" by simp
  show ?thesis
    using assms(1)
  proof cases
    case (enter i es b')
    note st = slot.follows_step [OF f enter(2)]
    have "budget_wf b' \<and> limit b' = l \<and> sint (used b') = int (card (v_inside s)) + 1"
      by (rule reserve_cases [OF b(1), of 1]) (use enter(3) b in \<open>auto simp: budget_wf_def\<close>)
    thus ?thesis using enter st(1,2) fin by (simp add: server_inv_def pass_on_def)
  next
    case (leave i es)
    note st = slot.follows_step [OF f leave(2)]
    have "0 < card (v_inside s)" using st(3) fin by (auto simp: card_gt_0_iff)
    thus ?thesis using leave st(1,3) fin b release_exact [OF b(1), of 1] one by (simp add: server_inv_def pass_on_def of_nat_diff)
  next
    case (inside i e es)
    thus ?thesis using assms(2) slot.follows_step(1) [OF f inside(2)] by (simp add: server_inv_def pass_on_def)
  qed
qed

lemma server_reachable_inv: "server_reachable cfg l env rq s \<Longrightarrow> 0 \<le> sint l \<Longrightarrow> server_inv l s"
proof (induction rule: server_reachable.induct)
  case start
  have "serve_trace (ServeHTTP cfg (env i) (rq i)) ([], 0) = Some ([], 1)" for i
    by (simp add: serve_balanced)
  hence "follows (\<lambda>i. serve_step) (\<lambda>m. HeldSlot \<in> set (fst m)) (\<lambda>i. ServeHTTP cfg (env i) (rq i)) {}"
    by (intro slot.follows_start [where m = "([], 0)"]) simp_all
  thus ?case using start by (simp add: server_inv_def newResourceBudget_def budget_wf_def)
next
  case (step s t)
  thus ?case using server_step_inv by blast
qed

text \<open>
  C14. The limit of requests in flight holds for any number of concurrent requests, each of which runs \<open>ServeHTTP\<close>: the budget is
  exactly the number of requests inside, only those are forwarded to Discord or to a peer, so that at most the
  configured number of requests is being forwarded at any moment; and the slots of requests that have been answered, on whatever path, are all
  back: when every request has been answered the budget is empty.
\<close>

theorem in_flight_bounded:
  assumes "server_reachable cfg l env rq s" "0 \<le> sint l"
  shows "sint (used (v_budget s)) = int (card (v_inside s)) \<and> forwarding s \<subseteq> v_inside s \<and> int (card (forwarding s)) \<le> sint l \<and>
    ((\<forall>i. v_todo s i = []) \<longrightarrow> used (v_budget s) = 0)"
proof -
  have inv: "server_inv l s" by (rule server_reachable_inv [OF assms])
  hence f: "follows (\<lambda>i. serve_step) (\<lambda>m. HeldSlot \<in> set (fst m)) (v_todo s) (v_inside s)" by (simp add: server_inv_def)
  have "HeldSlot \<in> set (fst m)" if "forwards e" "serve_step e m = Some m'" for e m m'
    using that by (cases e; cases m) (auto split: if_splits)
  hence sub: "forwarding s \<subseteq> v_inside s" using slot.follows_needs [OF f] by (auto simp: forwarding_def)
  have "int (card (forwarding s)) \<le> int (card (v_inside s))" using sub inv by (simp add: card_mono server_inv_def)
  moreover have "used (v_budget s) = 0" if "\<forall>i. v_todo s i = []"
    using slot.follows_all_end [OF f] that inv by (simp add: server_inv_def signed_eq_0_iff)
  ultimately show ?thesis using sub inv by (auto simp: server_inv_def budget_wf_def)
qed

definition example_server :: server_flight where
  \<comment> \<open>every client asks for an unknown path of the proxy itself; the first one has been let in\<close>
  "example_server =
     (let refusal = [Reply (http_Error [] ''404 page not found'' StatusNotFound), GiveSlot]
      in \<lparr>v_todo = (\<lambda>i. TakeSlot # refusal)(0 := refusal), v_budget = \<lparr>limit = 1, used = 1\<rparr>, v_inside = {0}\<rparr>)"

theorem in_flight_bounded_witness:
  "\<exists>cfg env rq. server_reachable cfg 1 env rq example_server \<and> card (forwarding example_server) \<le> 1"
proof -
  define env :: "nat \<Rightarrow> serve_env" where "env = (\<lambda>i. undefined\<lparr>e_done := False, e_over := False, e_slot := True\<rparr>)"
  define rq :: "nat \<Rightarrow> http_request" where "rq = (\<lambda>i. undefined\<lparr>rq_path := ''/nirn/none''\<rparr>)"
  let ?refusal = "[Reply (http_Error [] ''404 page not found'' StatusNotFound), GiveSlot]"
  let ?s = "\<lparr>v_todo = \<lambda>i. ServeHTTP undefined (env i) (rq i), v_budget = newResourceBudget 1, v_inside = {}\<rparr>"
  have t: "ServeHTTP undefined (env i) (rq i) = TakeSlot # ?refusal" for i
    by (simp add: ServeHTTP_def admitted_def env_def rq_def HasPrefix_def)
  have "server_step ?s example_server"
    using server_step.enter [of ?s 0 ?refusal "\<lparr>limit = 1, used = 1\<rparr>"]
    by (simp add: t example_server_def reserve_def newResourceBudget_def exhausted_def Let_def)
  hence r: "server_reachable undefined 1 env rq example_server"
    by (rule server_reachable.step [OF server_reachable.start])
  thus ?thesis using in_flight_bounded [OF r] by auto
qed

end
