(* ===== verification/Buffers.thy ===== *)
theory Buffers
  imports Nirn_Prelude
begin

section \<open>Copy buffers of the reverse proxies\<close>

text \<open>
  \<^verbatim>\<open>proxyBufferPool\<close> of \<^verbatim>\<open>internal/proxy/transport.go\<close>, shared by both reverse proxies. A buffer is an address with a
  length. A \<^verbatim>\<open>sync.Pool\<close> without a \<^verbatim>\<open>New\<close> function hands out any of the values put into it, or \<^verbatim>\<open>nil\<close> even if it has
  some, and may drop values at any time: which one it picks is the argument \<open>pick\<close>. Each goroutine of
  \<^verbatim>\<open>ReverseProxy\<close> gets a buffer, copies one body through it and puts it back.
\<close>

subsection \<open>The pool\<close>

type_synonym buffer = "nat \<times> nat"

definition sync_Pool_Get :: "nat option \<Rightarrow> 'a list \<Rightarrow> 'a list \<times> 'a option" where
  "sync_Pool_Get pick pool =
     (case pick of
        None \<Rightarrow> (pool, None)
      | Some k \<Rightarrow> if k < length pool then (take k pool @ drop (Suc k) pool, Some (pool ! k)) else (pool, None))"

definition sync_Pool_Put :: "'a \<Rightarrow> 'a list \<Rightarrow> 'a list" where
  "sync_Pool_Put x pool = x # pool"

definition pool_Get :: "nat option \<Rightarrow> nat \<Rightarrow> buffer list \<Rightarrow> buffer list \<times> buffer" where
  \<comment> \<open>\<open>fresh\<close> is the address of what \<^verbatim>\<open>make\<close> allocates\<close>
  "pool_Get pick fresh pool =
     (case sync_Pool_Get pick pool of (pool', Some buffer) \<Rightarrow> (pool', buffer) | (pool', None) \<Rightarrow> (pool', (fresh, 32 * 1024)))"

definition pool_Put :: "buffer \<Rightarrow> buffer list \<Rightarrow> buffer list" where
  "pool_Put buffer pool = sync_Pool_Put buffer pool"


subsection \<open>Concurrent copies\<close>

record buffer_sys =
  b_pool :: "buffer list"
  b_used :: "(nat \<times> buffer) list" \<comment> \<open>which goroutine copies through which buffer\<close>
  b_next :: nat \<comment> \<open>the next free address\<close>

inductive buffer_step :: "buffer_sys \<Rightarrow> buffer_sys \<Rightarrow> bool" where
  take_one: "pool_Get pick (b_next s) (b_pool s) = (pool, buffer) \<Longrightarrow>
    buffer_step s \<lparr>b_pool = pool, b_used = (i, buffer) # b_used s, b_next = Suc (b_next s)\<rparr>"
| put_back: "b_used s = us @ (i, buffer) # vs \<Longrightarrow>
    buffer_step s (s\<lparr>b_pool := pool_Put buffer (b_pool s), b_used := us @ vs\<rparr>)"
| collect: "b_pool s = us @ buffer # vs \<Longrightarrow> buffer_step s (s\<lparr>b_pool := us @ vs\<rparr>)"

inductive buffers_reachable :: "buffer_sys \<Rightarrow> bool" where
  start: "buffers_reachable \<lparr>b_pool = [], b_used = [], b_next = n\<rparr>"
| step: "buffers_reachable s \<Longrightarrow> buffer_step s t \<Longrightarrow> buffers_reachable t"

definition all_buffers :: "buffer_sys \<Rightarrow> buffer list" where
  "all_buffers s = b_pool s @ map snd (b_used s)"

definition buffers_inv :: "buffer_sys \<Rightarrow> bool" where
  "buffers_inv s \<longleftrightarrow> distinct (map fst (all_buffers s)) \<and>
     (\<forall>b \<in> set (all_buffers s). fst b < b_next s \<and> snd b = 32 * 1024)"

lemma pool_Get_cases:
  assumes "pool_Get pick fresh pool = (pool', buffer)"
  obtains (old) us vs where "pool = us @ buffer # vs" "pool' = us @ vs" | (new) "pool' = pool" "buffer = (fresh, 32 * 1024)"
proof (cases "\<exists>k. pick = Some k \<and> k < length pool")
  case True
  then obtain k where "pick = Some k" "k < length pool" by blast
  thus ?thesis using assms by (intro old [of "take k pool" "drop (Suc k) pool"])
    (auto simp: pool_Get_def sync_Pool_Get_def id_take_nth_drop)
next
  case False
  thus ?thesis using assms by (intro new) (auto simp: pool_Get_def sync_Pool_Get_def split: option.splits if_splits)
qed

lemma buffer_step_inv: "buffer_step s t \<Longrightarrow> buffers_inv s \<Longrightarrow> buffers_inv t"
proof (induction rule: buffer_step.induct)
  case (take_one pick s pool buffer i)
  show ?case using take_one(1)
  proof (cases rule: pool_Get_cases)
    case (old us vs)
    thus ?thesis using take_one(2) by (auto simp: buffers_inv_def all_buffers_def intro: less_SucI)
  next
    case new
    have "fst b < b_next s" if "b \<in> set (all_buffers s)" for b using take_one(2) that by (simp add: buffers_inv_def)
    hence "b_next s \<notin> fst ` set (all_buffers s)" by force
    thus ?thesis using new take_one(2) by (auto simp: buffers_inv_def all_buffers_def intro: less_SucI)
  qed
next
  case (put_back s us i buffer vs)
  thus ?case by (auto simp: buffers_inv_def all_buffers_def pool_Put_def sync_Pool_Put_def)
next
  case (collect s us buffer vs)
  thus ?case by (auto simp: buffers_inv_def all_buffers_def)
qed

lemma buffers_reachable_inv: "buffers_reachable s \<Longrightarrow> buffers_inv s"
proof (induction rule: buffers_reachable.induct)
  case (start n)
  show ?case by (simp add: buffers_inv_def all_buffers_def)
next
  case (step s t)
  thus ?case using buffer_step_inv by blast
qed

text \<open>
  C38. Two responses or uploads that are copied at the same time never go through the same buffer, and a buffer in use is not
  in the pool: however the pool picks and drops buffers, no body can get bytes of another one. Every buffer that
  is handed out has 32 KiB.
\<close>

theorem buffers_exclusive:
  assumes "buffers_reachable s"
  shows "distinct (map (fst \<circ> snd) (b_used s)) \<and> fst ` set (b_pool s) \<inter> (fst \<circ> snd) ` set (b_used s) = {} \<and>
    (\<forall>u \<in> set (b_used s). snd (snd u) = 32 * 1024)"
  using buffers_reachable_inv [OF assms] by (auto simp: buffers_inv_def all_buffers_def image_comp)

theorem buffers_exclusive_witness:
  "\<exists>s. buffers_reachable s \<and> b_used s = [(2, 0, 32768), (1, 1, 32768)] \<and> distinct (map (fst \<circ> snd) (b_used s))"
proof -
  let ?s0 = "\<lparr>b_pool = [], b_used = [], b_next = 0\<rparr>"
  let ?s1 = "\<lparr>b_pool = [], b_used = [(0, 0, 32768)], b_next = 1\<rparr>"
  let ?s2 = "\<lparr>b_pool = [], b_used = [(1, 1, 32768), (0, 0, 32768)], b_next = Suc (Suc 0)\<rparr>"
  let ?s3 = "\<lparr>b_pool = [(0, 32768)], b_used = [(1, 1, 32768)], b_next = Suc (Suc 0)\<rparr>"
  let ?s4 = "\<lparr>b_pool = [], b_used = [(2, 0, 32768), (1, 1, 32768)], b_next = Suc (Suc (Suc 0))\<rparr>"
  have "buffer_step ?s0 ?s1" using buffer_step.take_one [of None ?s0 "[]" "(0, 32768)" 0]
    by (simp add: pool_Get_def sync_Pool_Get_def)
  moreover have "buffer_step ?s1 ?s2" using buffer_step.take_one [of None ?s1 "[]" "(1, 32768)" 1]
    by (simp add: pool_Get_def sync_Pool_Get_def)
  moreover have "buffer_step ?s2 ?s3" using buffer_step.put_back [of ?s2 "[(1, 1, 32768)]" 0 "(0, 32768)" "[]"]
    by (simp add: pool_Put_def sync_Pool_Put_def)
  moreover have "buffer_step ?s3 ?s4" using buffer_step.take_one [of "Some 0" ?s3 "[]" "(0, 32768)" 2]
    by (simp add: pool_Get_def sync_Pool_Get_def)
  ultimately have "buffers_reachable ?s4" by (meson buffers_reachable.intros)
  hence "buffers_reachable ?s4 \<and> distinct (map (fst \<circ> snd) (b_used ?s4))" using buffers_exclusive by blast
  thus ?thesis by (intro exI [of _ ?s4]) simp
qed

end
