(* ===== verification/Convergence.thy ===== *)
theory Convergence
  imports Membership
begin

section \<open>Routes after a change of membership\<close>

text \<open>
  The callbacks of \<^verbatim>\<open>clusterEvents\<close> and \<^verbatim>\<open>reindexMembers\<close> of \<^verbatim>\<open>internal/proxy/cluster.go\<close>, with the member list of the library as
  part of the state: it changes at any time and calls back, and each callback starts a goroutine that reads the members and publishes
  routes. The steps are those of \<open>Membership\<close> as far as routes are concerned, with the two stores of a publication apart. The
  theorem is what the callbacks are for: once the members stop changing, the routes are those of the current members.
\<close>

subsection \<open>Callbacks\<close>

datatype index_pc =
  Rest | Started | Locked | Got string int | Loaded string int "memberNode list" | Storing string int "memberNode list"

type_synonym log_line = "string \<times> string"

definition NotifyJoin :: "memberNode \<Rightarrow> log_line \<times> index_pc" where
  \<comment> \<open>the line that is logged, and the goroutine that is started\<close>
  "NotifyJoin node = ((n_name node, ''Cluster node joined''), Started)"

definition NotifyLeave :: "memberNode \<Rightarrow> log_line \<times> index_pc" where
  "NotifyLeave node = ((n_name node, ''Cluster node left''), Started)"

definition NotifyUpdate :: "memberNode \<Rightarrow> log_line \<times> index_pc" where
  "NotifyUpdate node = ((n_name node, ''Cluster node updated''), Started)"


subsection \<open>Steps\<close>

record index_sys =
  x_cluster :: "(string \<times> int) option" \<comment> \<open>the installed cluster: \<^verbatim>\<open>localAddr\<close> and \<^verbatim>\<open>maxClusterNodes\<close>\<close>
  x_closed :: bool
  x_members :: "memberNode list"
  x_published :: routing
  x_owner :: "nat option" \<comment> \<open>who holds \<^verbatim>\<open>clusterIndexMu\<close>\<close>
  x_pcs :: "nat \<Rightarrow> index_pc"

abbreviation at_pc :: "index_sys \<Rightarrow> nat \<Rightarrow> index_pc \<Rightarrow> index_sys" where
  "at_pc s i pc \<equiv> s\<lparr>x_pcs := (x_pcs s)(i := pc)\<rparr>"

inductive index_step :: "index_sys \<Rightarrow> index_sys \<Rightarrow> bool" where
  join: "x_pcs s i = Rest \<Longrightarrow> index_step s (at_pc (s\<lparr>x_members := ms\<rparr>) i (snd (NotifyJoin node)))"
| leave: "x_pcs s i = Rest \<Longrightarrow> index_step s (at_pc (s\<lparr>x_members := ms\<rparr>) i (snd (NotifyLeave node)))"
| update: "x_pcs s i = Rest \<Longrightarrow> index_step s (at_pc (s\<lparr>x_members := ms\<rparr>) i (snd (NotifyUpdate node)))"
| install: "\<lbrakk>x_pcs s i = Rest; x_cluster s = None; \<not> x_closed s\<rbrakk> \<Longrightarrow>
    index_step s (at_pc (s\<lparr>x_cluster := Some (addr, maxNodes)\<rparr>) i Started)"
| lock: "\<lbrakk>x_pcs s i = Started; x_owner s = None\<rbrakk> \<Longrightarrow> index_step s (at_pc (s\<lparr>x_owner := Some i\<rparr>) i Locked)"
| no_cluster: "\<lbrakk>x_pcs s i = Locked; x_cluster s = None\<rbrakk> \<Longrightarrow> index_step s (at_pc (s\<lparr>x_owner := None\<rparr>) i Rest)"
| got_cluster: "\<lbrakk>x_pcs s i = Locked; x_cluster s = Some (addr, maxNodes)\<rbrakk> \<Longrightarrow> index_step s (at_pc s i (Got addr maxNodes))"
| load: "x_pcs s i = Got addr maxNodes \<Longrightarrow> index_step s (at_pc s i (Loaded addr maxNodes (x_members s)))"
| store_flag: "x_pcs s i = Loaded addr maxNodes ms \<Longrightarrow>
    index_step s (at_pc (s\<lparr>x_published := (x_published s)\<lparr>clusterOverCapacity := clusterOverCapacity (reindex addr maxNodes ms)\<rparr>\<rparr>)
      i (Storing addr maxNodes ms))"
| store_routes: "x_pcs s i = Storing addr maxNodes ms \<Longrightarrow>
    index_step s (at_pc (s\<lparr>x_published := (x_published s)\<lparr>routes := routes (reindex addr maxNodes ms)\<rparr>, x_owner := None\<rparr>) i Rest)"
| close: "index_step s (s\<lparr>x_closed := True, x_cluster := None\<rparr>)"
| clear: "x_closed s \<Longrightarrow> index_step s (s\<lparr>x_published := \<lparr>routes = None, clusterOverCapacity = False\<rparr>\<rparr>)"

inductive index_reachable :: "index_sys \<Rightarrow> bool" where
  start: "index_reachable \<lparr>x_cluster = None, x_closed = False, x_members = ms,
    x_published = \<lparr>routes = None, clusterOverCapacity = False\<rparr>, x_owner = None, x_pcs = \<lambda>i. Rest\<rparr>"
| step: "index_reachable s \<Longrightarrow> index_step s t \<Longrightarrow> index_reachable t"


subsection \<open>Invariant\<close>

fun in_section :: "index_pc \<Rightarrow> bool" where
  "in_section Rest = False"
| "in_section Started = False"
| "in_section _ = True"

fun saw :: "index_pc \<Rightarrow> (string \<times> int) option" where
  "saw (Got a m) = Some (a, m)"
| "saw (Loaded a m ms) = Some (a, m)"
| "saw (Storing a m ms) = Some (a, m)"
| "saw _ = None"

fun fresh_pc :: "memberNode list \<Rightarrow> index_pc \<Rightarrow> bool" where
  \<comment> \<open>it will publish the current members\<close>
  "fresh_pc now Rest = False"
| "fresh_pc now (Loaded a m ms) = (ms = now)"
| "fresh_pc now (Storing a m ms) = (ms = now)"
| "fresh_pc now _ = True"

definition section_inv :: "index_sys \<Rightarrow> bool" where
  "section_inv s \<longleftrightarrow> (\<forall>i. in_section (x_pcs s i) \<longleftrightarrow> x_owner s = Some i)"

definition view_inv :: "index_sys \<Rightarrow> bool" where
  "view_inv s \<longleftrightarrow> (x_closed s \<longrightarrow> x_cluster s = None) \<and>
     (\<forall>i v. \<not> x_closed s \<longrightarrow> saw (x_pcs s i) = Some v \<longrightarrow> x_cluster s = Some v)"

definition flag_inv :: "index_sys \<Rightarrow> bool" where
  "flag_inv s \<longleftrightarrow>
     (\<forall>i a m ms. x_pcs s i = Storing a m ms \<longrightarrow> \<not> x_closed s \<longrightarrow>
        clusterOverCapacity (x_published s) = clusterOverCapacity (reindex a m ms))"

definition fresh_inv :: "index_sys \<Rightarrow> bool" where
  "fresh_inv s \<longleftrightarrow>
     (\<forall>a m. x_cluster s = Some (a, m) \<longrightarrow>
        (\<exists>i. fresh_pc (x_members s) (x_pcs s i)) \<or>
        (\<forall>i. x_pcs s i = Rest) \<and> x_published s = reindex a m (x_members s))"

lemmas notify_defs = NotifyJoin_def NotifyLeave_def NotifyUpdate_def

lemma section_inv_step:
  assumes "index_step s t" "section_inv s"
  shows "section_inv t"
proof -
  have i: "in_section (x_pcs s j) \<longleftrightarrow> x_owner s = Some j" for j using assms(2) by (simp add: section_inv_def)
  show ?thesis using assms(1)
  proof cases
    case (lock k)
    thus ?thesis by (simp add: section_inv_def i)
  next
    case (no_cluster k)
    thus ?thesis using i [of k] by (simp add: section_inv_def i)
  next
    case (store_routes k a m ms)
    thus ?thesis using i [of k] by (simp add: section_inv_def i)
  qed (use i in \<open>simp_all add: section_inv_def notify_defs i [symmetric]\<close>)
qed

lemma view_saw: "view_inv s \<Longrightarrow> \<not> x_closed s \<Longrightarrow> saw (x_pcs s i) = Some v \<Longrightarrow> x_cluster s = Some v"
  unfolding view_inv_def by blast

lemma view_invI:
  assumes "x_closed t \<Longrightarrow> x_cluster t = None" "\<And>i v. \<not> x_closed t \<Longrightarrow> saw (x_pcs t i) = Some v \<Longrightarrow> x_cluster t = Some v"
  shows "view_inv t"
  using assms unfolding view_inv_def by blast

lemma view_inv_step:
  assumes "index_step s t" "view_inv s"
  shows "view_inv t"
proof -
  have c: "x_closed s \<Longrightarrow> x_cluster s = None" using assms(2) by (simp add: view_inv_def)
  note v = view_saw [OF assms(2)]
  show ?thesis
  proof (rule view_invI)
    show "x_closed t \<Longrightarrow> x_cluster t = None" using assms(1) c by cases simp_all
    fix k w
    assume t: "\<not> x_closed t" "saw (x_pcs t k) = Some w"
    show "x_cluster t = Some w"
      using assms(1)
    proof cases
      case (install i addr maxNodes)
      hence "saw (x_pcs s k) = Some w" "\<not> x_closed s" using t by (simp_all split: if_splits)
      thus ?thesis using v [of k w] install(3) by simp
    next
      case (load i addr maxNodes)
      thus ?thesis using t v [of i "(addr, maxNodes)"] v [of k w] by (simp split: if_splits)
    next
      case (store_flag i addr maxNodes ms)
      thus ?thesis using t v [of i "(addr, maxNodes)"] v [of k w] by (simp split: if_splits)
    qed (use t v [of k w] in \<open>simp_all add: notify_defs split: if_splits\<close>)
  qed
qed

lemma flag_inv_step:
  assumes "index_step s t" "section_inv s" "flag_inv s"
  shows "flag_inv t"
proof -
  have f: "x_pcs s j = Storing a m ms \<Longrightarrow> \<not> x_closed s \<Longrightarrow>
      clusterOverCapacity (x_published s) = clusterOverCapacity (reindex a m ms)" for j a m ms
    using assms(3) unfolding flag_inv_def by blast
  have one: "i = j" if "in_section (x_pcs s i)" "in_section (x_pcs s j)" for i j
    using assms(2) that by (simp add: section_inv_def)
  show ?thesis
    unfolding flag_inv_def
  proof (intro allI impI)
    fix k a m ms
    assume t: "x_pcs t k = Storing a m ms" "\<not> x_closed t"
    show "clusterOverCapacity (x_published t) = clusterOverCapacity (reindex a m ms)"
      using assms(1)
    proof cases
      case (store_flag i a' m' ms')
      thus ?thesis using t one [of i k] by (auto split: if_splits)
    qed (use t f [of k a m ms] in \<open>simp_all add: notify_defs split: if_splits\<close>)
  qed
qed

lemma stays_fresh: "fresh_pc now (f j) \<Longrightarrow> j \<noteq> i \<or> fresh_pc now pc \<Longrightarrow> \<exists>k. fresh_pc now ((f(i := pc)) k)"
  by (metis fun_upd_apply)

lemma fresh_inv_frame:
  \<comment> \<open>a goroutine that was or becomes fresh stays so\<close>
  assumes "fresh_inv s" "x_pcs s i \<noteq> Rest" "fresh_pc (x_members s) (x_pcs s i) \<longrightarrow> fresh_pc (x_members s) pc"
    and "x_cluster t = x_cluster s" "x_members t = x_members s" "x_pcs t = (x_pcs s)(i := pc)"
  shows "fresh_inv t"
  unfolding fresh_inv_def
proof (intro allI impI disjI1)
  fix a m
  assume "x_cluster t = Some (a, m)"
  then obtain j where j: "fresh_pc (x_members s) (x_pcs s j)" using assms(1,2,4) by (auto simp: fresh_inv_def)
  hence "j \<noteq> i \<or> fresh_pc (x_members s) pc" using assms(3) by blast
  thus "\<exists>i. fresh_pc (x_members t) (x_pcs t i)" unfolding assms(5,6)
    using stays_fresh [of "x_members s" "x_pcs s" j i pc] j by blast
qed

lemma fresh_inv_started: "x_pcs t i = Started \<Longrightarrow> fresh_inv t"
  unfolding fresh_inv_def by (metis fresh_pc.simps(4))

lemma fresh_inv_none: "x_cluster t = None \<Longrightarrow> fresh_inv t"
  by (simp add: fresh_inv_def)

lemma fresh_inv_published:
  \<comment> \<open>the end of \<^verbatim>\<open>reindexMembers\<close>\<close>
  assumes "section_inv s" "view_inv s" "flag_inv s" "fresh_inv s" "x_pcs s i = Storing a m ms"
    and "t = at_pc (s\<lparr>x_published := (x_published s)\<lparr>routes := routes (reindex a m ms)\<rparr>, x_owner := None\<rparr>) i Rest"
  shows "fresh_inv t"
  unfolding fresh_inv_def
proof (intro allI impI)
  fix a' m'
  assume "x_cluster t = Some (a', m')"
  hence c: "x_cluster s = Some (a', m')" using assms(6) by simp
  hence o: "\<not> x_closed s" using assms(2) by (auto simp: view_inv_def)
  hence am: "a' = a" "m' = m" using view_saw [OF assms(2) o, of i "(a, m)"] assms(5) c by simp_all
  have others: "x_pcs s j \<in> {Rest, Started}" if "j \<noteq> i" for j
  proof -
    have sec: "in_section (x_pcs s k) \<longleftrightarrow> x_owner s = Some k" for k using assms(1) by (simp add: section_inv_def)
    have "\<not> in_section (x_pcs s j)" using sec [of i] sec [of j] that assms(5) by simp
    thus ?thesis by (cases "x_pcs s j") simp_all
  qed
  have flag: "clusterOverCapacity (x_published s) = clusterOverCapacity (reindex a m ms)"
    using assms(3,5) o by (auto simp: flag_inv_def)
  show "(\<exists>i. fresh_pc (x_members t) (x_pcs t i)) \<or> (\<forall>i. x_pcs t i = Rest) \<and> x_published t = reindex a' m' (x_members t)"
  proof (cases "\<exists>j. j \<noteq> i \<and> x_pcs s j = Started")
    case True
    then obtain j where "j \<noteq> i" "x_pcs s j = Started" by blast
    thus ?thesis using assms(6) by (intro disjI1 exI [of _ j]) simp
  next
    case False
    hence rest: "\<forall>j. j \<noteq> i \<longrightarrow> x_pcs s j = Rest" using others by blast
    have "x_pcs s i \<noteq> Rest" using assms(5) by simp
    then obtain j where "fresh_pc (x_members s) (x_pcs s j)" using assms(4) c by (auto simp: fresh_inv_def)
    hence "ms = x_members s" using rest assms(5) by (cases "j = i") auto
    thus ?thesis using rest assms(6) flag am by (intro disjI2) simp
  qed
qed

lemma fresh_inv_step:
  assumes "index_step s t" "section_inv s" "view_inv s" "flag_inv s" "fresh_inv s"
  shows "fresh_inv t"
  using assms(1)
proof cases
  case (lock i)
  thus ?thesis using assms(5) by - (rule fresh_inv_frame [of s i Locked], simp_all)
next
  case (got_cluster i addr maxNodes)
  thus ?thesis using assms(5) by - (rule fresh_inv_frame [of s i "Got addr maxNodes"], simp_all)
next
  case (load i addr maxNodes)
  thus ?thesis using assms(5) by - (rule fresh_inv_frame [of s i "Loaded addr maxNodes (x_members s)"], simp_all)
next
  case (store_flag i addr maxNodes ms)
  thus ?thesis using assms(5) by - (rule fresh_inv_frame [of s i "Storing addr maxNodes ms"], simp_all)
next
  case (store_routes i a m ms)
  show ?thesis by (rule fresh_inv_published [OF assms(2-5) store_routes(2,1)])
next
  case (join i ms node)
  show ?thesis by (rule fresh_inv_started [of _ i]) (simp add: join notify_defs)
next
  case (leave i ms node)
  show ?thesis by (rule fresh_inv_started [of _ i]) (simp add: leave notify_defs)
next
  case (update i ms node)
  show ?thesis by (rule fresh_inv_started [of _ i]) (simp add: update notify_defs)
next
  case (install i addr maxNodes)
  show ?thesis by (rule fresh_inv_started [of _ i]) (simp add: install)
next
  case clear
  show ?thesis by (rule fresh_inv_none) (use clear assms(3) in \<open>simp add: view_inv_def\<close>)
qed (auto intro: fresh_inv_none)

lemma index_reachable_inv: "index_reachable s \<Longrightarrow> section_inv s \<and> view_inv s \<and> flag_inv s \<and> fresh_inv s"
proof (induction rule: index_reachable.induct)
  case (start ms)
  show ?case by (simp add: section_inv_def view_inv_def flag_inv_def fresh_inv_def)
next
  case (step s t)
  thus ?case using section_inv_step view_inv_step flag_inv_step fresh_inv_step by blast
qed

definition settled :: "index_sys \<Rightarrow> bool" where
  \<comment> \<open>every callback has been dealt with\<close>
  "settled s \<longleftrightarrow> index_reachable s \<and> (\<forall>i. x_pcs s i = Rest)"

lemma settled_routes: "settled s \<Longrightarrow> x_cluster s = Some (a, m) \<Longrightarrow> x_published s = reindex a m (x_members s)"
  using index_reachable_inv [of s] by (auto simp: settled_def fresh_inv_def)

lemma settled_nodes_agree:
  assumes "settled s" "x_cluster s = Some (a, m)" "settled s'" "x_cluster s' = Some (a', m')"
    and "mset (x_members s) = mset (x_members s')" "distinct (map n_name (x_members s))"
    and "calculateRoute (routes (x_published s)) k = target" "target \<noteq> []" "int (length (x_members s')) \<le> m'"
  shows "(a' = target \<longrightarrow> calculateRoute (routes (x_published s')) k = []) \<and>
    (a' \<noteq> target \<and> a' \<in> m_address ` set (index_members (x_members s)) \<longrightarrow> calculateRoute (routes (x_published s')) k = target)"
proof -
  have p: "x_published s = reindex a m (x_members s)" "x_published s' = reindex a' m' (x_members s')"
    using settled_routes assms(1-4) by auto
  have cap: "int (length (x_members s)) \<le> m"
    using assms(7,8) p(1) by (auto simp: reindex_def calculateRoute_def split: if_splits)
  have t: "calculateRoute (Some (build_table a (x_members s))) k = target" using assms(7) p(1) cap by (simp add: reindex_def)
  have r': "routes (x_published s') = Some (build_table a' (x_members s'))" using p(2) assms(9) by (simp add: reindex_def)
  note rc = routing_converges [OF assms(5,6) t assms(8)]
  have "calculateRoute (Some (build_table (m_address x) (x_members s'))) k = (if m_address x = target then [] else target)"
    if "x \<in> set (index_members (x_members s))" for x using rc that by blast
  hence "a' \<noteq> target \<and> a' \<in> m_address ` set (index_members (x_members s)) \<longrightarrow> calculateRoute (routes (x_published s')) k = target"
    unfolding r' by auto
  moreover have "a' = target \<longrightarrow> calculateRoute (routes (x_published s')) k = []" unfolding r' using rc by simp
  ultimately show ?thesis by blast
qed

text \<open>
  C10. A cluster settles. When the membership stops changing and the callbacks have run, in whatever order the events, the callbacks and
  the joining of the node itself were interleaved, the routes of a node are those of its current members. So nodes
  that see the same members, in whatever order, agree: if one of them sends a key to a peer, that peer serves it itself, and every other member sends the key to the same peer. A
  node with too many members has no routes and knows that it is over capacity.
\<close>

theorem cluster_settles:
  assumes "settled s" "x_cluster s = Some (a, m)" "settled s'" "x_cluster s' = Some (a', m')"
    and "mset (x_members s) = mset (x_members s')" "distinct (map n_name (x_members s))"
  shows "x_published s = reindex a m (x_members s) \<and>
    (m < int (length (x_members s)) \<longrightarrow> routes (x_published s) = None \<and> clusterOverCapacity (x_published s)) \<and>
    (calculateRoute (routes (x_published s)) k = target \<and> target \<noteq> [] \<and> int (length (x_members s')) \<le> m' \<longrightarrow>
      (a' = target \<longrightarrow> calculateRoute (routes (x_published s')) k = []) \<and>
      (a' \<noteq> target \<and> a' \<in> m_address ` set (index_members (x_members s)) \<longrightarrow> calculateRoute (routes (x_published s')) k = target))"
  using settled_routes [OF assms(1,2)] settled_nodes_agree [OF assms] by (simp add: reindex_def)

definition example_settled :: "string \<Rightarrow> index_sys" where
  "example_settled addr =
     \<lparr>x_cluster = Some (addr, 2), x_closed = False, x_members = example_nodes, x_published = reindex addr 2 example_nodes,
      x_owner = None, x_pcs = \<lambda>i. Rest\<rparr>"

lemma example_settles: "settled (example_settled addr)"
proof -
  let ?nil = "\<lparr>routes = None, clusterOverCapacity = False\<rparr>"
  let ?s = "\<lambda>p f o'. \<lparr>x_cluster = Some (addr, 2), x_closed = False, x_members = example_nodes, x_published = p, x_owner = o', x_pcs = f\<rparr>"
  let ?r = "\<lambda>i. Rest" and ?flag = "?nil\<lparr>clusterOverCapacity := clusterOverCapacity (reindex addr 2 example_nodes)\<rparr>"
  have "index_reachable \<lparr>x_cluster = None, x_closed = False, x_members = example_nodes, x_published = ?nil, x_owner = None, x_pcs = ?r\<rparr>"
    by (rule index_reachable.start)
  hence "index_reachable (?s ?nil (?r(0 := Started)) None)"
    using index_step.install [of "\<lparr>x_cluster = None, x_closed = False, x_members = example_nodes, x_published = ?nil, x_owner = None,
      x_pcs = ?r\<rparr>" 0 addr 2] by (auto intro: index_reachable.step)
  hence "index_reachable (?s ?nil (?r(0 := Locked)) (Some 0))"
    using index_step.lock [of "?s ?nil (?r(0 := Started)) None" 0] by (auto intro: index_reachable.step)
  hence "index_reachable (?s ?nil (?r(0 := Got addr 2)) (Some 0))"
    using index_step.got_cluster [of "?s ?nil (?r(0 := Locked)) (Some 0)" 0 addr 2] by (auto intro: index_reachable.step)
  hence "index_reachable (?s ?nil (?r(0 := Loaded addr 2 example_nodes)) (Some 0))"
    using index_step.load [of "?s ?nil (?r(0 := Got addr 2)) (Some 0)" 0 addr 2] by (auto intro: index_reachable.step)
  hence "index_reachable (?s ?flag (?r(0 := Storing addr 2 example_nodes)) (Some 0))"
    using index_step.store_flag [of "?s ?nil (?r(0 := Loaded addr 2 example_nodes)) (Some 0)" 0 addr 2 example_nodes]
    by (auto intro: index_reachable.step)
  hence "index_reachable (?s (?flag\<lparr>routes := routes (reindex addr 2 example_nodes)\<rparr>) ?r None)"
    using index_step.store_routes [of "?s ?flag (?r(0 := Storing addr 2 example_nodes)) (Some 0)" 0 addr 2 example_nodes]
    by (auto simp: fun_upd_idem intro: index_reachable.step)
  moreover have "?flag\<lparr>routes := routes (reindex addr 2 example_nodes)\<rparr> = reindex addr 2 example_nodes" by simp
  ultimately have "index_reachable (?s (reindex addr 2 example_nodes) ?r None)" by (simp only:)
  thus ?thesis by (simp add: settled_def example_settled_def)
qed

theorem cluster_settles_witness:
  "\<exists>target. target \<noteq> [] \<and> calculateRoute (routes (x_published (example_settled []))) 7 = target \<and>
     calculateRoute (routes (x_published (example_settled target))) 7 = []"
proof -
  let ?t = "calculateRoute (routes (x_published (example_settled []))) 7" and ?ms = "t_members (build_table [] example_nodes)"
  have cap: "int (length example_nodes) \<le> 2" "distinct (map n_name example_nodes)" by (simp_all add: example_nodes_def)
  have s: "set ?ms = {newClusterMember ''a'' ''10.0.0.1:8080'', newClusterMember ''b'' ''10.0.0.2:8080''}"
    by (simp add: build_table_def example_members)
  then obtain mb where "mb \<in> set ?ms" "rendezvousMember 7 ?ms = Some mb"
    using rendezvous_some [of ?ms 7] by (metis empty_iff insertI1 set_empty)
  hence t: "?t \<noteq> []"
    using s cap(1) by (auto simp: calculateRoute_def build_table_def example_settled_def reindex_def)
  have "calculateRoute (routes (x_published (example_settled ?t))) 7 = []"
    using cluster_settles [OF example_settles [of "[]"] _ example_settles [of ?t], of "[]" 2 ?t 2 7 ?t] cap t
    by (simp add: example_settled_def)
  thus ?thesis using t by blast
qed

end
