(* ===== verification/Telemetry.thy ===== *)
theory Telemetry
  imports Observability Complex_Main
begin

section \<open>The logger and the metrics of the package\<close>

text \<open>
  The package variables of \<^verbatim>\<open>internal/proxy/observability.go\<close>: the logger with its hook, and the metrics with their registration.
  \<^verbatim>\<open>logrus\<close> and \<^verbatim>\<open>prometheus\<close> are parameters, with what the package relies on as hypotheses: hooks of the level of an entry run on it
  before it is written, in the order in which they were added; and a registry refuses a metric whose name it
  already has, which \<^verbatim>\<open>MustRegister\<close> turns into a panic.
\<close>

subsection \<open>Loggers\<close>

record hook =
  hk_levels :: "nat list"
  hk_fire :: "log_entry \<Rightarrow> nat \<Rightarrow> log_entry \<times> nat"

definition Levels :: "nat list \<Rightarrow> nat list" where
  "Levels allLevels = allLevels"

definition GlobalHook :: "string \<Rightarrow> nat \<Rightarrow> nat list \<Rightarrow> hook" where
  \<comment> \<open>for \<^verbatim>\<open>logrus.ErrorKey\<close>, \<^verbatim>\<open>logrus.ErrorLevel\<close> and \<^verbatim>\<open>logrus.AllLevels\<close>\<close>
  "GlobalHook errorKey errorLevel allLevels = \<lparr>hk_levels = Levels allLevels, hk_fire = Fire errorKey errorLevel\<rparr>"

definition newLogger :: "('l \<Rightarrow> hook \<Rightarrow> 'l) \<Rightarrow> 'l \<Rightarrow> hook \<Rightarrow> 'l" where
  \<comment> \<open>\<^verbatim>\<open>AddHook\<close>, and what \<^verbatim>\<open>logrus.New\<close> returns\<close>
  "newLogger addHook configured h = addHook configured h"

definition SetLogger :: "('l \<Rightarrow> hook \<Rightarrow> 'l) \<Rightarrow> 'l \<Rightarrow> hook \<Rightarrow> 'l" where
  \<comment> \<open>the value of \<^verbatim>\<open>logger\<close> afterwards\<close>
  "SetLogger addHook replacement h = addHook replacement h"

definition runs_hooks :: "('l \<Rightarrow> hook \<Rightarrow> 'l) \<Rightarrow> ('l \<Rightarrow> log_entry \<Rightarrow> nat \<Rightarrow> log_entry \<times> nat) \<Rightarrow> bool" where
  \<comment> \<open>\<open>prepared l e n\<close> is the entry that \<open>l\<close> writes for \<open>e\<close>, and \<^verbatim>\<open>ErrorCounter\<close> afterwards\<close>
  "runs_hooks addHook prepared \<longleftrightarrow>
     (\<forall>l h e n. prepared (addHook l h) e n =
        (if e_level e \<in> set (hk_levels h) then (case prepared l e n of (e', n') \<Rightarrow> hk_fire h e' n') else prepared l e n))"

definition no_secret :: "log_value option \<Rightarrow> bool" where
  "no_secret v \<longleftrightarrow> (case v of Some (LogString x) \<Rightarrow> redactLogSecrets x = x | Some (LogError x) \<Rightarrow> False | _ \<Rightarrow> True)"

lemma redact_no_secret: "no_secret (map_option redact_value v)"
  by (cases v) (auto simp: no_secret_def redact_idempotent elim: redact_value.elims split: log_value.splits)


definition list_logger :: "hook list \<Rightarrow> log_entry \<Rightarrow> nat \<Rightarrow> log_entry \<times> nat" where
  "list_logger hs e n =
     foldl (\<lambda>(e', n') h. if e_level e \<in> set (hk_levels h) then hk_fire h e' n' else (e', n')) (e, n) hs"



subsection \<open>Metrics\<close>

datatype metric_kind = Counter | CounterVec | GaugeVec | HistogramVec "rat list"

record metric =
  mt_name :: string
  mt_kind :: metric_kind
  mt_labels :: "string list"

definition ErrorCounter :: metric where
  "ErrorCounter = \<lparr>mt_name = ''nirn_proxy_error'', mt_kind = Counter, mt_labels = []\<rparr>"

definition ProxyFailures :: metric where
  "ProxyFailures = \<lparr>mt_name = ''nirn_proxy_failures_total'', mt_kind = CounterVec, mt_labels = [''reason'']\<rparr>"

definition RequestHistogram :: metric where
  "RequestHistogram =
     \<lparr>mt_name = ''nirn_proxy_requests'', mt_kind = HistogramVec [1 / 10, 1 / 4, 1, 5 / 2, 5, 20],
      mt_labels = [''method'', ''status'', ''route'', ''clientId'']\<rparr>"

definition ConnectionsOpen :: metric where
  "ConnectionsOpen = \<lparr>mt_name = ''nirn_proxy_open_connections'', mt_kind = GaugeVec, mt_labels = [''method'', ''route'']\<rparr>"

definition RequestsRoutedSent :: metric where
  "RequestsRoutedSent = \<lparr>mt_name = ''nirn_proxy_requests_routed_sent'', mt_kind = Counter, mt_labels = []\<rparr>"

definition RequestsRoutedRecv :: metric where
  "RequestsRoutedRecv = \<lparr>mt_name = ''nirn_proxy_requests_routed_received'', mt_kind = Counter, mt_labels = []\<rparr>"

definition RequestsRoutedError :: metric where
  "RequestsRoutedError = \<lparr>mt_name = ''nirn_proxy_requests_routed_error'', mt_kind = Counter, mt_labels = []\<rparr>"

definition auto_registered :: "metric list" where
  \<comment> \<open>\<^verbatim>\<open>promauto\<close> registers these when the package is initialised\<close>
  "auto_registered = [ErrorCounter, ProxyFailures, ConnectionsOpen, RequestsRoutedSent, RequestsRoutedRecv, RequestsRoutedError]"

fun register_all :: "('r \<Rightarrow> metric \<Rightarrow> 'r option) \<Rightarrow> metric list \<Rightarrow> 'r \<Rightarrow> 'r option" where
  \<comment> \<open>\<open>None\<close> is a panic\<close>
  "register_all mustRegister [] r = Some r"
| "register_all mustRegister (m # ms) r = (case mustRegister r m of None \<Rightarrow> None | Some r' \<Rightarrow> register_all mustRegister ms r')"

definition registerMetrics_Do :: "('r \<Rightarrow> metric \<Rightarrow> 'r option) \<Rightarrow> bool \<times> 'r \<Rightarrow> (bool \<times> 'r) option" where
  \<comment> \<open>the \<^verbatim>\<open>sync.Once\<close> in \<^verbatim>\<open>NewMetricsServer\<close>, with whether it has run\<close>
  "registerMetrics_Do mustRegister s =
     (if fst s then Some s else case mustRegister (snd s) RequestHistogram of None \<Rightarrow> None | Some r \<Rightarrow> Some (True, r))"

fun metrics_servers :: "('r \<Rightarrow> metric \<Rightarrow> 'r option) \<Rightarrow> nat \<Rightarrow> bool \<times> 'r \<Rightarrow> (bool \<times> 'r) option" where
  \<comment> \<open>so many calls of \<^verbatim>\<open>NewMetricsServer\<close>\<close>
  "metrics_servers mustRegister 0 s = Some s"
| "metrics_servers mustRegister (Suc n) s =
     (case registerMetrics_Do mustRegister s of None \<Rightarrow> None | Some s' \<Rightarrow> metrics_servers mustRegister n s')"

definition refuses_duplicates :: "('r \<Rightarrow> metric \<Rightarrow> 'r option) \<Rightarrow> ('r \<Rightarrow> string set) \<Rightarrow> bool" where
  "refuses_duplicates mustRegister names \<longleftrightarrow>
     (\<forall>r m. if mt_name m \<in> names r then mustRegister r m = None
            else \<exists>r'. mustRegister r m = Some r' \<and> names r' = insert (mt_name m) (names r))"

lemma register_all_names:
  "refuses_duplicates mustRegister names \<Longrightarrow> distinct (map mt_name ms) \<Longrightarrow> names r \<inter> mt_name ` set ms = {} \<Longrightarrow>
   \<exists>r'. register_all mustRegister ms r = Some r' \<and> names r' = names r \<union> mt_name ` set ms"
proof (induction ms arbitrary: r)
  case (Cons m ms)
  have "mt_name m \<notin> names r" using Cons.prems(3) by auto
  then obtain r1 where r1: "mustRegister r m = Some r1" "names r1 = insert (mt_name m) (names r)"
    using Cons.prems(1) unfolding refuses_duplicates_def by metis
  have "names r1 \<inter> mt_name ` set ms = {}" using Cons.prems(2,3) r1(2) by auto
  from Cons.IH [OF Cons.prems(1) _ this] show ?case using r1 Cons.prems(2) by auto
qed simp

lemma metrics_servers_done: "metrics_servers mustRegister n (True, r) = Some (True, r)"
  by (induction n) (simp_all add: registerMetrics_Do_def)

lemma metric_names: "distinct (map mt_name (RequestHistogram # auto_registered))"
  by (simp add: auto_registered_def RequestHistogram_def ErrorCounter_def ProxyFailures_def ConnectionsOpen_def
      RequestsRoutedSent_def RequestsRoutedRecv_def RequestsRoutedError_def)

text \<open>
  Registering the metrics never panics, however many metrics servers the process starts: all metrics end up registered,
  the histogram only once a metrics server was asked for.
\<close>

lemma metrics_registered:
  assumes "refuses_duplicates mustRegister names" "names r = {}"
  shows "\<exists>r1 s. register_all mustRegister auto_registered r = Some r1 \<and> metrics_servers mustRegister n (False, r1) = Some s \<and>
    names (snd s) = mt_name ` set auto_registered \<union> (if n = 0 then {} else {mt_name RequestHistogram})"
proof -
  obtain r1 where r1: "register_all mustRegister auto_registered r = Some r1" "names r1 = mt_name ` set auto_registered"
    using register_all_names [OF assms(1), of auto_registered r] metric_names assms(2) by auto
  show ?thesis
  proof (cases n)
    case 0
    thus ?thesis using r1 by simp
  next
    case (Suc k)
    have "mt_name RequestHistogram \<notin> names r1" using metric_names r1(2) by simp
    then obtain r2 where "mustRegister r1 RequestHistogram = Some r2" "names r2 = insert (mt_name RequestHistogram) (names r1)"
      using assms(1) unfolding refuses_duplicates_def by metis
    thus ?thesis using r1 Suc by (intro exI [of _ r1] exI [of _ "(True, r2)"]) (simp add: registerMetrics_Do_def metrics_servers_done)
  qed
qed

end
