(* ===== verification/Spec2Isabelle.thy ===== *)
theory Spec2Isabelle
  imports Gate Budget Guard Pacer Bucket Routes Identity Client Serial Registry Cluster Membership Headers Replay Reply Transport Cooling Retries
    Observability Construct Settings Forward Server Lifecycle Startup Flight
    Buffers Convergence Telemetry
begin

text \<open>
  A verification of nirn-proxy, a transparent HTTP proxy in front of the REST API of Discord that keeps its clients within
  Discord's rate limits. The sources are the Go files \<^verbatim>\<open>main.go\<close>, \<^verbatim>\<open>config.go\<close> and
  \<^verbatim>\<open>internal/proxy/*.go\<close>; file names below are relative to \<^verbatim>\<open>src/\<close> and, except for the first two, to
  \<^verbatim>\<open>internal/proxy/\<close>.

  \<^bold>\<open>The program.\<close> The process (\<^verbatim>\<open>main.go\<close>) reads its configuration from the environment (\<^verbatim>\<open>config.go\<close>), builds a
  \<^verbatim>\<open>Proxy\<close>, opens its listeners, may join a cluster, and serves until a signal comes. A request enters
  \<^verbatim>\<open>ServeHTTP\<close> (\<^verbatim>\<open>proxy.go\<close>), which takes a slot of the budget of requests in flight, derives the bucket of the
  route (\<^verbatim>\<open>routes.go\<close>) and the identity of the credential (\<^verbatim>\<open>scheduler.go\<close>), and either forwards the request to the
  node of the cluster that owns the identity (\<^verbatim>\<open>cluster.go\<close>) or takes the state of the client and sends the request
  to Discord through \<^verbatim>\<open>scheduledTransport\<close> (\<^verbatim>\<open>transport.go\<close>). That transport waits for the bucket, its cooldown and the
  global pacer of the client, reserves an invalid response in the guard, sends, learns from the headers of the
  response (\<^verbatim>\<open>ratelimit.go\<close>), and retries a 429 as long as the body can be replayed and the deadline allows it. A sweeper
  drops idle state. \<^verbatim>\<open>observability.go\<close> bounds metric labels and removes secrets from logs.

  \<^bold>\<open>How code becomes definitions.\<close> Structs are records, enumerations and errors are datatypes, Go maps are association
  lists whose order stands for the open order of \<^verbatim>\<open>range\<close>, strings are lists of bytes, \<^verbatim>\<open>int64\<close> and
  \<^verbatim>\<open>uint64\<close> are 64-bit words where overflow matters and integers with their bounds elsewhere, instants and durations are
  integers of nanoseconds. Every section that the code runs under a lock, and every atomic operation, is a function on
  the state. Where goroutines share that state, an inductive step relation (\<open>gate_step\<close>, \<open>budget_step\<close>,
  \<open>guard_step\<close>, \<open>pacer_step\<close>, \<open>dir_step\<close>, \<open>acq_step\<close>, \<open>reg_step\<close>, \<open>capture_step\<close>, \<open>cstep\<close>, \<open>index_step\<close>, \<open>life_step\<close>, \<open>buffer_step\<close>)
  interleaves the sections of any number of them, with cancellations and stale clock readings wherever the
  code allows them, and the invariants are proved by induction on the reachable states. The long programs of a single
  goroutine (\<open>RoundTrip\<close>, \<open>ServeHTTP\<close>, \<open>run\<close>) are functions from what they read and what their calls return
  to the list of what they do and their result; a small automaton then checks the list (\<open>trace_run\<close>). \<open>flight_step\<close> and
  \<open>server_step\<close> bring the two together: any number of these programs run against one guard and one budget, step by step.
  \<open>cool_step\<close> is the part of a client's state that cooldowns depend on, as it changes over time.

  \<^bold>\<open>The theories.\<close>
  \<^item> \<open>Nirn_Prelude\<close>: time, association lists, shared lemmas. \<open>Go_Strings\<close>, \<open>Go_Encoding\<close>, \<open>Go_Net\<close>, \<open>Go_Float\<close>,
    \<open>Go_Http\<close> and \<open>Go_Proxy\<close>: what the program uses of Go's library, as functions (SHA-256, CRC-64, base64, UTF-8,
    parsing of integers and of floats with their rounding, headers, the header handling of
    \<^verbatim>\<open>httputil.ReverseProxy\<close>).
  \<^item> \<open>Gate\<close> (\<^verbatim>\<open>fifoGate\<close>, \<^verbatim>\<open>scheduler.go\<close>): at most one holder, granted in order of arrival, no lost wake-up, and a
    refinement to an abstract FIFO semaphore. The locale \<open>fifo_gate\<close> is what buckets, pacers and the validation gate rely on.
  \<^item> \<open>Budget\<close> (\<^verbatim>\<open>resourceBudget\<close>, \<^verbatim>\<open>proxy.go\<close>): reservations at 64 bits, with compare-and-swap loops interleaved. The
    locale \<open>capacity\<close> is its contract in unbounded integers.
  \<^item> \<open>Guard\<close> (\<^verbatim>\<open>invalidRequestGuard\<close>, \<^verbatim>\<open>ratelimit.go\<close>): the sliding window over invalid responses.
  \<^item> \<open>Cooldown\<close>, \<open>Pacer\<close>, \<open>Bucket\<close>: the contract of a cooldown (locale \<open>cooldown\<close>), interpreted for the global pacer of
    \<^verbatim>\<open>ratelimit.go\<close> and for \<^verbatim>\<open>bucketState\<close> of \<^verbatim>\<open>scheduler.go\<close>; the rate in every rolling second, and the wait loops.
  \<^item> \<open>Routes\<close> (\<^verbatim>\<open>routes.go\<close>): bucket paths, major parameters and metrics paths, which requests they
    separate and which secrets they leave out.
  \<^item> \<open>Identity\<close> (\<^verbatim>\<open>identify\<close>, \<^verbatim>\<open>scheduler.go\<close>; overrides, \<^verbatim>\<open>ratelimit.go\<close>), \<open>Client\<close> (\<^verbatim>\<open>clientState\<close>: buckets on an
    explicit heap, aliases, sweeping), \<open>Serial\<close> (\<^verbatim>\<open>acquireBucket\<close> under all interleavings: one request per bucket and
    route), \<open>Registry\<close> (\<^verbatim>\<open>client\<close>, eviction and \<^verbatim>\<open>sweepClients\<close>: caps, and no client in use is dropped).
  \<^item> \<open>Cluster\<close> and \<open>Membership\<close> (\<^verbatim>\<open>cluster.go\<close>): route tables and rendezvous hashing; the protocol of joining,
    indexing and closing, and the transport to peers. \<open>Convergence\<close>: the callbacks of the member list, and that the routes are
    those of the current members once it stops changing.
  \<^item> \<open>Headers\<close> (\<^verbatim>\<open>ratelimit.go\<close>): what a response teaches, float rounding included. \<open>Replay\<close>, \<open>Reply\<close> and \<open>Transport\<close>
    (\<^verbatim>\<open>transport.go\<close>): captured bodies, synthetic responses and error handlers, and \<open>RoundTrip\<close> with the
    automaton that shows what it owns at each point.
  \<^item> \<open>Cooling\<close> (\<^verbatim>\<open>bucket\<close>, \<^verbatim>\<open>learnBucket\<close>, \<^verbatim>\<open>sweep\<close>, \<^verbatim>\<open>scheduler.go\<close>): a cooldown is not forgotten when its route is moved to another bucket
    or buckets are swept. \<open>Retries\<close>: therefore, and because each 429 blocks for the minimum delay at least, the retry loop of
    \<open>RoundTrip\<close> sends a bounded number of times and returns.
  \<^item> \<open>Flight\<close>: all requests at once. The locale \<open>borrowing\<close> carries what an automaton says of each trace over to all interleavings of
    the traces; it is interpreted for the reservations of the guard by \<open>RoundTrip\<close> and for the slots of \<open>ServeHTTP\<close>, and gives the
    limits on invalid responses and on requests in flight for everything the proxy sends.
  \<^item> \<open>Construct\<close> (\<^verbatim>\<open>Config\<close>, \<^verbatim>\<open>New\<close>, \<^verbatim>\<open>newHTTPTransport\<close>): the checks of a configuration, and that every limit in it
    holds in every run of the proxy built from it.
  \<^item> \<open>Forward\<close> (\<^verbatim>\<open>transport.go\<close>) and \<open>Server\<close> (\<^verbatim>\<open>proxy.go\<close>): the requests that leave for Discord and for peers, what
    happens to one that was sent to a peer, and \<open>ServeHTTP\<close>: balanced on every path, forwarded at most once, failures marked as the proxy's own.
  \<^item> \<open>Lifecycle\<close> (\<^verbatim>\<open>sweepLoop\<close>, \<^verbatim>\<open>Close\<close>, \<^verbatim>\<open>finishClose\<close>, \<^verbatim>\<open>proxy.go\<close>): closing, composed of the protocol of the cluster
    and the registry: nothing is left when \<open>Close\<close> returns, and it can always get there.
  \<^item> \<open>Observability\<close> (\<^verbatim>\<open>observability.go\<close>): the label limiter and the redaction of logs, with the
    regular expression as an executable matcher. \<open>Telemetry\<close>: the loggers and metrics built on them. \<open>Buffers\<close>
    (\<^verbatim>\<open>proxyBufferPool\<close>, \<^verbatim>\<open>transport.go\<close>): no two bodies are copied through one buffer.
  \<^item> \<open>Settings\<close> (\<^verbatim>\<open>config.go\<close>): all settings with defaults and ranges, and the cluster certificates. \<open>Startup\<close>
    (\<^verbatim>\<open>main.go\<close>): \<open>run\<close> cleans up however it ends, and traffic between peers is authenticated.
  \<^item> This theory: how the nodes of a cluster share the budget for invalid responses.

  \<^bold>\<open>Parameters.\<close> Clock readings, results of blocking calls and the answers of Discord are arguments everywhere. Third-party code
  is an argument as well: the member list of \<^verbatim>\<open>memberlist\<close> and whether its calls fail, what \<^verbatim>\<open>godotenv\<close> and
  \<^verbatim>\<open>logrus\<close> make of their input; so are files, name resolution, X.509 parsing and chain verification. No theorem
  assumes anything of them beyond what its statement says. Assumed by name are: that logrus runs the hooks of a logger for their
  levels, in their order, before it writes an entry (\<open>runs_hooks\<close>); that a Prometheus registry takes a metric whose name
  is new (\<open>refuses_duplicates\<close>); and, for cooldowns, that the hash of a bucket that Discord names is not the hash of a
  route of the same client (\<open>bucket_fresh\<close>), since 64-bit hashes can collide and the code does not guard against it.
  \<open>index_step\<close> relies on memberlist changing its list and calling back under the lock that \<^verbatim>\<open>Members\<close> takes. In \<open>Retries\<close> the
  observations of the wait loops are tied to the state they were read from (\<open>attempt_at\<close>), and the context of the queue is seen to
  have ended from a time \<open>cutoff\<close> on; nothing is assumed of the delay of its timer.

  \<^bold>\<open>Loops and bounds.\<close> The loops over data (\<open>advance\<close>, \<open>redactLogSecrets\<close>, parsers) terminate and are total functions.
  The wait loops and the retry loop consume one record of observations per iteration and give \<open>None\<close> when the list
  ends before they return; \<open>waitFor_returns\<close> and \<open>bucket_wait_returns\<close> say which observations end the former, and
  \<open>retries_bounded\<close> says after how many attempts the latter has returned. There is no fuel elsewhere.

  \<^bold>\<open>Not modelled.\<close> The assembly of the reverse proxy to Discord in \<^verbatim>\<open>initReverseProxies\<close> (the functions it installs are modelled one
  by one; the proxy to peers is \<open>peerProxy_ServeHTTP\<close>); the methods of \<^verbatim>\<open>clusterDelegate\<close> whose body is empty; the keys under
  which values travel in a context (they are arguments here); log lines other than those of the member list's callbacks; the
  streaming of response bodies and
  query strings, which the library passes through; the internals of \<^verbatim>\<open>memberlist\<close>, TLS and X.509. The real-time behaviour of
  the scheduler of Go is not modelled either: liveness is stated as the possibility to go on from every reachable state.
  Deadlines given to \<^verbatim>\<open>Close\<close> and \<^verbatim>\<open>Shutdown\<close> appear only as the choice of the environment to give up.
\<close>

section \<open>The cluster as a whole\<close>

type_synonym node_run = "environment \<times> flight"

definition node_runs :: "'c tls_env \<Rightarrow> int \<Rightarrow> node_run \<Rightarrow> bool" where
  \<comment> \<open>a node that started from the environment \<open>vars\<close> as one of a cluster of at most \<open>n\<close> nodes, and whose requests have come to \<open>f\<close>\<close>
  "node_runs te n nd \<longleftrightarrow>
     (case nd of (vars, f) \<Rightarrow>
        \<exists>a resolver inherited now p q. loadConfig te vars = Inr a \<and> clusteringEnabled a \<and> a_clusterMaxNodes a = n \<and>
          New (resolver :: string \<Rightarrow> unit option) inherited now (a_proxy a) = Inr p \<and>
          (\<forall>i. request_returns (q i)) \<and>
          flight_reachable (g_limit (p_invalidRequests p)) (g_window (p_invalidRequests p)) q f)"

lemma node_share:
  assumes "node_runs te n nd"
  shows "1 \<le> n \<and> int (in_window invalidRequestWindow T (recorded (f_guard (snd nd)))) \<le> InvalidRequestSafetyLimit div n"
proof -
  obtain vars f a p q and resolver :: "string \<Rightarrow> unit option" and inherited now where nd: "nd = (vars, f)"
    and a: "loadConfig te vars = Inr a" "clusteringEnabled a" "a_clusterMaxNodes a = n"
    and p: "New resolver inherited now (a_proxy a) = Inr p"
    and q: "\<forall>i. request_returns (q i)"
    and f: "flight_reachable (g_limit (p_invalidRequests p)) (g_window (p_invalidRequests p)) q f"
    using assms by (cases nd) (auto simp: node_runs_def)
  have n: "1 \<le> n" "n \<le> InvalidRequestSafetyLimit" using loadConfig_numbers(5) [OF a(1)] a(3) by simp_all
  have one: "1 \<le> InvalidRequestSafetyLimit div n" using n zdiv_mono1 [of n InvalidRequestSafetyLimit n] by simp
  have "c_InvalidRequestLimit (a_proxy a) = invalid_share True n" using loadConfig_fields [OF a(1)] a(2,3) by simp
  with one have lim: "invalid_limit (a_proxy a) = InvalidRequestSafetyLimit div n"
    by (simp add: invalid_share_def invalid_limit_def)
  have g: "p_invalidRequests p = newInvalidRequestGuard (InvalidRequestSafetyLimit div n) invalidRequestWindow"
    using p by (rule New_cases) (simp add: lim)
  have "flight_reachable (InvalidRequestSafetyLimit div n) invalidRequestWindow q f"
    using f by (simp add: g newInvalidRequestGuard_def)
  hence "guard_inv (InvalidRequestSafetyLimit div n) invalidRequestWindow (f_guard f)"
    using flight_reachable_inv [of _ _ q f] q one by (auto simp: flight_inv_def intro: guard_reachable_inv)
  hence "int (in_window invalidRequestWindow T (recorded (f_guard f))) + int (granted_by T (pending (f_guard f))) \<le>
      InvalidRequestSafetyLimit div n"
    by (simp add: guard_inv_def)
  thus ?thesis using n nd by simp
qed

text \<open>
  C6. The nodes of a cluster share the budget for invalid responses. However many nodes run, as long as they are no more than the
  \<open>CLUSTER_MAX_NODES\<close> they were all started with, however each of them is configured otherwise, and however many
  requests each of them runs at once, all of them
  together never record more invalid responses within ten minutes than the safety limit below Discord's ban threshold.
\<close>

theorem cluster_invalid_budget:
  assumes "int (length nodes) \<le> n" "\<forall>nd \<in> set nodes. node_runs te n nd"
  shows "(\<Sum>nd \<leftarrow> nodes. int (in_window invalidRequestWindow T (recorded (f_guard (snd nd))))) \<le> InvalidRequestSafetyLimit"
proof (cases "nodes = []")
  case False
  then obtain nd where "nd \<in> set nodes" by (cases nodes) auto
  hence n: "1 \<le> n" using assms(2) node_share by blast
  have "(\<Sum>nd \<leftarrow> nodes. int (in_window invalidRequestWindow T (recorded (f_guard (snd nd))))) \<le>
      (\<Sum>nd \<leftarrow> nodes. InvalidRequestSafetyLimit div n)"
    using assms(2) node_share by (intro sum_list_mono) blast
  also have "\<dots> = int (length nodes) * (InvalidRequestSafetyLimit div n)" by (simp add: sum_list_triv)
  also have "\<dots> \<le> n * (InvalidRequestSafetyLimit div n)"
    using assms(1) n by (intro mult_right_mono) (simp_all add: InvalidRequestSafetyLimit_def pos_imp_zdiv_nonneg_iff)
  also have "\<dots> \<le> InvalidRequestSafetyLimit"
    using n mult_div_mod_eq [of n InvalidRequestSafetyLimit] pos_mod_sign [of n InvalidRequestSafetyLimit] by linarith
  finally show ?thesis .
qed (simp add: InvalidRequestSafetyLimit_def)

lemma example_node: "\<exists>f. node_runs example_tls 32 (example_vars, f) \<and> recorded (f_guard f) = [0]"
proof -
  obtain a where a: "loadConfig example_tls example_vars = Inr a" "clusteringEnabled a" "c_OutboundIP (a_proxy a) = []"
    "c_GlobalOverrides (a_proxy a) = []" by (rule example_loads)
  have n: "a_clusterMaxNodes a = 32" using loadConfig_fields [OF a(1)] by (simp add: envInt_def envInt64_def example_vars_def)
  obtain p where p: "New (\<lambda>_. None :: unit option) None 0 (a_proxy a) = Inr p"
    using New_succeeds [OF loadConfig_numbers(3) [OF a(1)] a(3,4)] by blast
  have "0 < g_limit (p_invalidRequests p)" "0 < g_window (p_invalidRequests p)"
    using p by (rule New_cases, simp add: newInvalidRequestGuard_def invalid_limit_pos invalidRequestWindow_def time_defs)+
  from one_invalid_response [OF this] show ?thesis
    using a(1,2) p n example_trace(2) unfolding node_runs_def prod.case by blast
qed

theorem cluster_invalid_budget_witness:
  "\<exists>nodes. length nodes = 2 \<and> (\<forall>nd \<in> set nodes. node_runs example_tls 32 nd \<and> recorded (f_guard (snd nd)) = [0]) \<and>
     (\<Sum>nd \<leftarrow> nodes. int (in_window invalidRequestWindow 0 (recorded (f_guard (snd nd))))) \<le> InvalidRequestSafetyLimit"
proof -
  obtain f where f: "node_runs example_tls 32 (example_vars, f)" "recorded (f_guard f) = [0]" using example_node by blast
  have "(\<Sum>nd \<leftarrow> [(example_vars, f), (example_vars, f)]. int (in_window invalidRequestWindow 0 (recorded (f_guard (snd nd))))) \<le>
      InvalidRequestSafetyLimit"
    by (rule cluster_invalid_budget [where n = 32 and te = example_tls]) (use f(1) in simp_all)
  thus ?thesis using f by (intro exI [of _ "[(example_vars, f), (example_vars, f)]"]) simp
qed

end
